(* ===== verification/LogOS_Prelude.thy ===== *)
theory LogOS_Prelude
  imports Main "HOL-Library.Word"
begin

text \<open>
  Shared vocabulary of the development: the Rust integer widths, the fallible slice access
  \<open>slice.get(i)\<close>, \<open>Iterator::position\<close>, the checked and saturating arithmetic of the Rust
  standard library, results as sums, and the generic list and word lemmas that the component
  theories use. The target is \<open>x86_64\<close>, so \<open>usize\<close> is 64 bits wide.
\<close>

unbundle bit_operations_syntax

type_synonym u8 = "8 word"
type_synonym u16 = "16 word"
type_synonym u32 = "32 word"
type_synonym u64 = "64 word"
type_synonym usize = "64 word"

named_theorems slot_simps \<open>lookup and update facts of slot tables\<close>
named_theorems invariant_intros \<open>preservation lemmas of component invariants\<close>

section \<open>Results\<close>

text \<open>Rust's \<open>Result<T, E>\<close> is the sum \<open>'e + 't\<close>; the names keep the source readable.\<close>

abbreviation Ok :: "'a \<Rightarrow> 'e + 'a" where "Ok \<equiv> Inr"
abbreviation Err :: "'e \<Rightarrow> 'e + 'a" where "Err \<equiv> Inl"

fun result_is_ok :: "'e + 'a \<Rightarrow> bool" where
  "result_is_ok (Inr _) = True"
| "result_is_ok (Inl _) = False"

text \<open>The \<open>?\<close> operator and \<open>Option::ok_or\<close>.\<close>

definition result_bind :: "'e + 'a \<Rightarrow> ('a \<Rightarrow> 'e + 'b) \<Rightarrow> 'e + 'b" where
  "result_bind r f = (case r of Inl e \<Rightarrow> Err e | Inr x \<Rightarrow> f x)"

definition ok_or :: "'a option \<Rightarrow> 'e \<Rightarrow> 'e + 'a" where
  "ok_or x e = (case x of None \<Rightarrow> Err e | Some y \<Rightarrow> Ok y)"

lemma result_bind_simps [simp]:
  "result_bind (Ok x) f = f x" "result_bind (Err e) f = Err e" "result_bind r Ok = r"
  by (simp_all add: result_bind_def split: sum.splits)

lemma result_bind_Ok: "result_bind r f = Ok y \<longleftrightarrow> (\<exists>x. r = Ok x \<and> f x = Ok y)"
  by (cases r) simp_all

lemma result_bind_Err: "result_bind r f = Err e \<longleftrightarrow> r = Err e \<or> (\<exists>x. r = Ok x \<and> f x = Err e)"
  by (cases r) simp_all

lemma ok_or_simps [simp]:
  "ok_or (Some x) e = Ok x" "ok_or None e = Err e"
  by (simp_all add: ok_or_def)

lemma ok_or_Ok: "ok_or x e = Ok y \<longleftrightarrow> x = Some y"
  by (cases x) simp_all

lemma ok_or_Err: "ok_or x e = Err e' \<longleftrightarrow> x = None \<and> e' = e"
  by (cases x) auto

text \<open>
  The same with a state threaded through the calls. Where an operation can panic (a slice or
  array index out of range), the error type is \<open>'e fault\<close>, so that a panic is a value of the
  model and its absence a theorem.
\<close>

definition state_bind ::
    "('e + 'a) \<times> 's \<Rightarrow> ('a \<Rightarrow> 's \<Rightarrow> ('e + 'b) \<times> 's) \<Rightarrow> ('e + 'b) \<times> 's" where
  "state_bind m f = (case m of (Inl e, s) \<Rightarrow> (Err e, s) | (Inr x, s) \<Rightarrow> f x s)"

lemma state_bind_simps [simp]:
  "state_bind (Ok x, s) f = f x s" "state_bind (Err e, s) f = (Err e, s)"
  by (simp_all add: state_bind_def)

datatype 'e fault = Panicked | Failed 'e

section \<open>Slices\<close>

text \<open>\<open>&xs[a..b]\<close>, which panics outside the slice.\<close>

definition slice_range :: "'a list \<Rightarrow> nat \<Rightarrow> nat \<Rightarrow> 'e fault + 'a list" where
  "slice_range xs a b = (if a \<le> b \<and> b \<le> length xs then Ok (take (b - a) (drop a xs)) else Err Panicked)"

definition slice_get :: "'a list \<Rightarrow> nat \<Rightarrow> 'a option" where
  "slice_get xs i = (if i < length xs then Some (xs ! i) else None)"

lemma slice_get_Some [simp]: "slice_get xs i = Some x \<longleftrightarrow> i < length xs \<and> xs ! i = x"
  by (auto simp: slice_get_def)

lemma slice_get_None [simp]: "slice_get xs i = None \<longleftrightarrow> length xs \<le> i"
  by (auto simp: slice_get_def)

lemma slice_get_update [slot_simps]:
  "slice_get (xs[j := x]) i = (if i = j \<and> j < length xs then Some x else slice_get xs i)"
  by (auto simp: slice_get_def)

text \<open>\<open>Iterator::position\<close>: the index of the first element that satisfies the predicate.\<close>

fun position :: "('a \<Rightarrow> bool) \<Rightarrow> 'a list \<Rightarrow> nat option" where
  "position P [] = None"
| "position P (x # xs) = (if P x then Some 0 else map_option Suc (position P xs))"

lemma position_None [simp]: "position P xs = None \<longleftrightarrow> (\<forall>x \<in> set xs. \<not> P x)"
  by (induction xs) auto

lemma position_Some:
  "position P xs = Some i \<longleftrightarrow> i < length xs \<and> P (xs ! i) \<and> (\<forall>j < i. \<not> P (xs ! j))"
proof (induction xs arbitrary: i)
  case Nil
  then show ?case by simp
next
  case (Cons x xs)
  show ?case
  proof (cases i)
    case 0
    then show ?thesis by auto
  next
    case (Suc k)
    then show ?thesis
      using Cons.IH [of k] by (auto simp: All_less_Suc2)
  qed
qed

lemma position_SomeD:
  assumes "position P xs = Some i"
  shows "i < length xs" and "P (xs ! i)"
  using assms by (simp_all add: position_Some)

lemma position_replicate: "\<lbrakk>0 < n; P x\<rbrakk> \<Longrightarrow> position P (replicate n x) = Some 0"
  by (cases n) simp_all

text \<open>A list updated at one index: what holds of every element after the update.\<close>

lemma all_set_update:
  "\<lbrakk>\<forall>x \<in> set xs. P x; P y\<rbrakk> \<Longrightarrow> \<forall>x \<in> set (xs[i := y]). P x"
  using set_update_subset_insert [of xs i y] by blast

lemma set_updateD: "y \<in> set (xs[i := x]) \<Longrightarrow> y = x \<or> y \<in> set xs"
  using set_update_subset_insert [of xs i x] by blast

lemma all_nth_update:
  "\<lbrakk>\<And>i. i < length xs \<Longrightarrow> P i (xs ! i); P j y\<rbrakk> \<Longrightarrow> i < length (xs[j := y]) \<Longrightarrow> P i (xs[j := y] ! i)"
  by (cases "i = j") auto

lemma set_update_iff:
  assumes "i < length xs"
  shows "y \<in> set (xs[i := x]) \<longleftrightarrow> y = x \<or> (\<exists>j < length xs. j \<noteq> i \<and> xs ! j = y)"
proof
  assume "y \<in> set (xs[i := x])"
  then obtain j where "j < length xs" "xs[i := x] ! j = y" by (auto simp: in_set_conv_nth)
  then show "y = x \<or> (\<exists>j < length xs. j \<noteq> i \<and> xs ! j = y)" by (cases "j = i") auto
next
  assume "y = x \<or> (\<exists>j < length xs. j \<noteq> i \<and> xs ! j = y)"
  then show "y \<in> set (xs[i := x])"
  proof
    assume "\<exists>j < length xs. j \<noteq> i \<and> xs ! j = y"
    then obtain j where "j < length xs" "j \<noteq> i" "xs ! j = y" by blast
    then show ?thesis by (metis length_list_update nth_list_update_neq nth_mem)
  qed (simp add: set_update_memI assms)
qed

section \<open>Arithmetic of the Rust standard library\<close>

definition checked_add :: "'a::len word \<Rightarrow> 'a word \<Rightarrow> 'a word option" where
  "checked_add a b = (if unat a + unat b < 2 ^ LENGTH('a) then Some (a + b) else None)"

definition checked_mul :: "'a::len word \<Rightarrow> 'a word \<Rightarrow> 'a word option" where
  "checked_mul a b = (if unat a * unat b < 2 ^ LENGTH('a) then Some (a * b) else None)"

definition checked_sub :: "'a::len word \<Rightarrow> 'a word \<Rightarrow> 'a word option" where
  "checked_sub a b = (if b \<le> a then Some (a - b) else None)"

definition saturating_add :: "'a::len word \<Rightarrow> 'a word \<Rightarrow> 'a word" where
  "saturating_add a b = (if unat a + unat b < 2 ^ LENGTH('a) then a + b else - 1)"

definition saturating_sub :: "'a::len word \<Rightarrow> 'a word \<Rightarrow> 'a word" where
  "saturating_sub a b = (if b \<le> a then a - b else 0)"

lemma unat_add_no_overflow:
  "unat (a :: 'a::len word) + unat b < 2 ^ LENGTH('a) \<Longrightarrow> unat (a + b) = unat a + unat b"
  by (simp add: unat_word_ariths)

lemma unat_affine:
  assumes "unat (a :: 'a::len word) + i * unat b < 2 ^ LENGTH('a)"
  shows "unat (a + of_nat i * b) = unat a + i * unat b"
proof -
  have "a + of_nat i * b = of_nat (unat a + i * unat b)" by simp
  then show ?thesis using assms by (simp only: unat_of_nat mod_less)
qed

lemma checked_add_Some:
  "checked_add a b = Some c \<longleftrightarrow> unat a + unat b < 2 ^ LENGTH('a) \<and> c = a + b"
  for a :: "'a::len word"
  by (auto simp: checked_add_def)

lemma checked_add_unat: "checked_add a b = Some c \<Longrightarrow> unat c = unat a + unat b"
  by (auto simp: checked_add_Some unat_add_no_overflow)

lemma checked_mul_unat: "checked_mul a b = Some c \<Longrightarrow> unat c = unat a * unat b"
  by (auto simp: checked_mul_def unat_word_ariths split: if_splits)

lemma saturating_sub_unat: "unat (saturating_sub a b) = unat a - unat b"
  by (auto simp: saturating_sub_def unat_sub word_le_nat_alt not_le)

lemma saturating_add_unat:
  "unat (saturating_add a b) = min (unat a + unat b) (2 ^ LENGTH('a) - 1)"
  for a :: "'a::len word"
proof (cases "unat a + unat b < 2 ^ LENGTH('a)")
  case True
  then show ?thesis
    by (simp add: saturating_add_def unat_add_no_overflow)
next
  case False
  have "unat (- 1 :: 'a word) = 2 ^ LENGTH('a) - 1"
    by (simp add: unsigned_minus_1_eq_mask mask_eq_exp_minus_1)
  with False show ?thesis
    by (simp add: saturating_add_def)
qed

lemma unat_inject [slot_simps]: "unat a = unat b \<longleftrightarrow> a = b" for a :: "'a::len word"
  by (simp add: word_unat_eq_iff)

lemma u64_bound: "unat (w :: u64) < 2 ^ 64"
  using unsigned_less [of w] by simp

lemma u32_bound: "unat (w :: u32) < 2 ^ 32"
  using unsigned_less [of w] by simp

lemma u8_bound: "unat (w :: u8) < 256"
  using unsigned_less [of w] by simp

text \<open>\<open>usize as u8\<close> keeps the index of a table with at most 256 entries.\<close>

lemma unat_of_nat_u8: "i < 256 \<Longrightarrow> unat (of_nat i :: u8) = i"
  by (simp add: unat_of_nat)

lemma unat_u8_eq_iff: "i < 256 \<Longrightarrow> unat (w :: u8) = i \<longleftrightarrow> w = of_nat i"
  by (auto simp: unat_of_nat_u8)

lemma unat_u32_eq_iff: "i < 2 ^ 32 \<Longrightarrow> unat (w :: u32) = i \<longleftrightarrow> w = of_nat i"
  by (auto simp: unat_of_nat)

lemma unat_of_nat_u32: "i < 2 ^ 32 \<Longrightarrow> unat (of_nat i :: u32) = i"
  by (simp add: unat_of_nat)

text \<open>Integer casts: widening keeps the value, narrowing takes the low bits.\<close>

lemma unat_ucast: "unat (ucast (w :: 'a::len word) :: 'b::len word) = unat w mod 2 ^ LENGTH('b)"
  by (simp add: unsigned_ucast_eq take_bit_eq_mod)

lemma unat_ucast_up:
  "LENGTH('a) \<le> LENGTH('b) \<Longrightarrow> unat (ucast (w :: 'a::len word) :: 'b::len word) = unat w"
  by (simp add: unat_ucast order_less_le_trans [OF unsigned_less])

end
