(* ===== verification/Generations.thy ===== *)
theory Generations
  imports LogOS_Prelude
begin

text \<open>
  Generation-stamped slots. Every table of the Core (tasks, processes, address spaces,
  operations, endpoints, capabilities, events, event sets, services) hands out handles that
  carry a slot and the generation of the slot at allocation, and advances the generation when
  the slot is retired, skipping zero. This theory states that contract once, as the locale
  \<open>generation_slots\<close>, and proves what it gives: a handle whose slot was retired resolves to
  nothing until the slot has been retired once for every non-zero generation value.
\<close>

section \<open>The generation cycle\<close>

text \<open>
  The successor of a generation among \<open>1 .. N - 1\<close>: every \<open>next_generation\<close> and
  \<open>next_epoch\<close> of the code computes it for its width.
\<close>

definition cyc_next :: "nat \<Rightarrow> nat \<Rightarrow> nat" where
  "cyc_next N g = (if Suc g = N then 1 else Suc g)"

lemma cyc_next_range: "1 < N \<Longrightarrow> g < N \<Longrightarrow> 0 < cyc_next N g \<and> cyc_next N g < N"
  by (auto simp: cyc_next_def)

lemma cyc_next_neq: "2 < N \<Longrightarrow> cyc_next N g \<noteq> g"
  by (auto simp: cyc_next_def)

lemma cyc_next_funpow:
  assumes "0 < g" and "g < N"
  shows "(cyc_next N ^^ k) g = (g - 1 + k) mod (N - 1) + 1"
proof (induction k)
  case 0
  from assms have "g - 1 < N - 1" by simp
  with assms show ?case by simp
next
  case (Suc k)
  define M where "M = N - 1"
  define m where "m = (g - 1 + k) mod M"
  have N: "N = Suc M" and "0 < M" using assms by (simp_all add: M_def)
  then have "m < M" by (simp add: m_def)
  have "(g - 1 + Suc k) mod M = Suc m mod M"
    by (simp only: m_def add_Suc_right mod_Suc_eq)
  then have "(g - 1 + Suc k) mod M = (if Suc m = M then 0 else Suc m)"
    using \<open>m < M\<close> by simp
  moreover have "cyc_next N (m + 1) = (if Suc m = M then 1 else Suc (Suc m))"
    by (simp add: N cyc_next_def)
  moreover have "(cyc_next N ^^ Suc k) g = cyc_next N (m + 1)"
    using Suc by (simp add: m_def M_def)
  ultimately have "(cyc_next N ^^ Suc k) g = (g - 1 + Suc k) mod M + 1"
    by simp
  then show ?case by (simp only: M_def)
qed

lemma cyc_next_funpow_neq:
  assumes g: "0 < g" "g < N" and k: "0 < k" "k < N - 1"
  shows "(cyc_next N ^^ k) g \<noteq> g"
proof
  assume "(cyc_next N ^^ k) g = g"
  then have "(g - 1 + k) mod (N - 1) = (g - 1) mod (N - 1)"
    using g by (simp add: cyc_next_funpow)
  then have "(N - 1) dvd k"
    using mod_eq_dvd_iff_nat [of "g - 1" "g - 1 + k" "N - 1"] by simp
  with k show False by (auto dest: dvd_imp_le)
qed

section \<open>Words as generations\<close>

text \<open>
  The two spellings of the successor in the code, \<open>g.wrapping_add(1).max(1)\<close> and
  \<open>let next = g.wrapping_add(1); if next == 0 { 1 } else { next }\<close>, compute the same cycle.
\<close>

definition wrapping_next :: "'a::len word \<Rightarrow> 'a word" where
  "wrapping_next g = (if g + 1 = 0 then 1 else g + 1)"

lemma max_wrapping_next: "max (g + 1) 1 = wrapping_next (g :: 'a::len word)"
proof (cases "g + 1 = 0")
  case True
  then show ?thesis by (simp add: wrapping_next_def)
next
  case False
  then have "1 \<le> g + 1"
    by (simp add: word_le_nat_alt Suc_le_eq unat_gt_0)
  with False show ?thesis by (simp add: wrapping_next_def max_def)
qed

lemma wrapping_next_nonzero [simp]: "wrapping_next g \<noteq> 0"
  by (simp add: wrapping_next_def)

lemma wrapping_next_neq: "(2 :: 'a::len word) \<noteq> 0 \<Longrightarrow> wrapping_next g \<noteq> (g :: 'a word)"
  by (auto simp: wrapping_next_def)

lemma unat_wrapping_next: "unat (wrapping_next g) = cyc_next (2 ^ LENGTH('a)) (unat g)"
  for g :: "'a::len word"
proof (cases "g + 1 = 0")
  case True
  then have "unat (g + 1) = 0" by simp
  then have "Suc (unat g) mod 2 ^ LENGTH('a) = 0"
    by (simp add: unat_word_ariths)
  moreover have "Suc (unat g) \<le> 2 ^ LENGTH('a)"
    by (simp add: Suc_le_eq)
  ultimately have "Suc (unat g) = 2 ^ LENGTH('a)"
    by (cases "Suc (unat g) < 2 ^ LENGTH('a)") auto
  with True show ?thesis by (simp add: wrapping_next_def cyc_next_def)
next
  case False
  then have "unat (g + 1) = Suc (unat g)"
    using unatSuc [of g] by (simp add: add.commute)
  moreover have "unat (g + 1) < 2 ^ LENGTH('a)"
    by simp
  ultimately show ?thesis
    using False by (simp add: wrapping_next_def cyc_next_def)
qed

section \<open>The contract of a slot table\<close>

text \<open>A run of a table that counts how often the generation of one slot changed.\<close>

inductive retire_run :: "('s \<Rightarrow> 's \<Rightarrow> bool) \<Rightarrow> ('s \<Rightarrow> nat) \<Rightarrow> 's \<Rightarrow> nat \<Rightarrow> 's \<Rightarrow> bool"
  for step :: "'s \<Rightarrow> 's \<Rightarrow> bool" and gen :: "'s \<Rightarrow> nat" where
  run_refl: "retire_run step gen s 0 s"
| run_keep: "\<lbrakk>retire_run step gen s k t; step t u; gen u = gen t\<rbrakk> \<Longrightarrow> retire_run step gen s k u"
| run_retire: "\<lbrakk>retire_run step gen s k t; step t u; gen u \<noteq> gen t\<rbrakk>
    \<Longrightarrow> retire_run step gen s (Suc k) u"

lemma run_one: "\<lbrakk>step s t; gen t = gen s\<rbrakk> \<Longrightarrow> retire_run step gen s 0 t"
  by (rule run_keep [where t = s]) (rule run_refl)

text \<open>
  A slot table: its operations as a step relation, its well-formed states, and the generation
  and occupancy of each slot. The generation of a slot stays or advances by one place on the
  cycle, and freeing a slot advances it.
\<close>

locale generation_slots =
  fixes N :: nat
    and step :: "'s \<Rightarrow> 's \<Rightarrow> bool"
    and wf :: "'s \<Rightarrow> bool"
    and gen :: "'s \<Rightarrow> nat \<Rightarrow> nat"
    and live :: "'s \<Rightarrow> nat \<Rightarrow> bool"
  assumes modulus: "2 < N"
    and wf_step: "\<lbrakk>wf s; step s t\<rbrakk> \<Longrightarrow> wf t"
    and gen_range: "wf s \<Longrightarrow> 0 < gen s i \<and> gen s i < N"
    and gen_step: "\<lbrakk>wf s; step s t\<rbrakk> \<Longrightarrow> gen t i = gen s i \<or> gen t i = cyc_next N (gen s i)"
    and free_retires: "\<lbrakk>wf s; step s t; live s i; \<not> live t i\<rbrakk> \<Longrightarrow> gen t i \<noteq> gen s i"
begin

lemma run_wf_gen:
  "\<lbrakk>retire_run step (\<lambda>s. gen s i) s k t; wf s\<rbrakk>
    \<Longrightarrow> wf t \<and> gen t i = (cyc_next N ^^ k) (gen s i)"
proof (induction rule: retire_run.induct)
  case (run_refl s)
  then show ?case by simp
next
  case (run_keep s k t u)
  then have "wf t" and "gen t i = (cyc_next N ^^ k) (gen s i)" by auto
  with run_keep.hyps show ?case by (auto intro: wf_step)
next
  case (run_retire s k t u)
  then have "wf t" and "gen t i = (cyc_next N ^^ k) (gen s i)" by auto
  with run_retire.hyps show ?case
    using gen_step [of t u i] by (auto intro: wf_step)
qed

lemma stale_generation:
  assumes "wf s" and "retire_run step (\<lambda>s. gen s i) s k t" and "0 < k" and "k < N - 1"
  shows "gen t i \<noteq> gen s i"
proof -
  have "gen t i = (cyc_next N ^^ k) (gen s i)"
    using run_wf_gen [OF assms(2,1)] by blast
  moreover have "(cyc_next N ^^ k) (gen s i) \<noteq> gen s i"
    using gen_range [OF assms(1), of i] assms(3,4) by (intro cyc_next_funpow_neq) auto
  ultimately show ?thesis by simp
qed

lemma run_prepend:
  assumes "retire_run step (\<lambda>s. gen s i) t k u" and "step s t" and "gen t i \<noteq> gen s i"
  shows "retire_run step (\<lambda>s. gen s i) s (Suc k) u"
  using assms
proof (induction rule: retire_run.induct)
  case (run_refl t)
  show ?case
    by (rule retire_run.run_retire [where t = s]) (rule retire_run.run_refl, fact run_refl, fact run_refl)
next
  case (run_keep t k u v)
  show ?case
    by (rule retire_run.run_keep [where t = u]) (use run_keep in simp_all)
next
  case (run_retire t k u v)
  show ?case
    by (rule retire_run.run_retire [where t = u]) (use run_retire in simp_all)
qed

lemma freed_handle_dead:
  assumes "wf s" and "step s t" and "live s i" and "\<not> live t i"
    and "retire_run step (\<lambda>s. gen s i) t k u" and "k < N - 2"
  shows "gen u i \<noteq> gen s i"
proof -
  have "gen t i \<noteq> gen s i" using assms(1-4) by (rule free_retires)
  then have "retire_run step (\<lambda>s. gen s i) s (Suc k) u"
    using assms(2,5) by (intro run_prepend)
  then show ?thesis using assms(1,6) by (intro stale_generation) auto
qed

end

end
