(* ===== verification/Mailbox.thy ===== *)
theory Mailbox
  imports LogOS_Prelude
begin

text \<open>
  The one-slot command/response mailbox that \<open>Runtime\<close> (\<open>src/runtime.rs\<close>) and
  \<open>HealthService\<close> (\<open>src/health.rs\<close>) both implement: \<open>submit\<close> stores one command,
  \<open>step\<close> executes it and stores one response, \<open>take_response\<close> removes it. The locale
  states the contract; the lemmas inside it are what every client of such a service relies on.
\<close>

locale mailbox =
  fixes command :: "'s \<Rightarrow> 'c option"
    and response :: "'s \<Rightarrow> 'r option"
    and submit :: "'s \<Rightarrow> 'c \<Rightarrow> ('e + unit) \<times> 's"
    and step :: "'s \<Rightarrow> bool \<times> 's"
    and take_response :: "'s \<Rightarrow> 'r option \<times> 's"
    and busy :: 'e
  assumes submit_busy:
      "command s \<noteq> None \<or> response s \<noteq> None \<Longrightarrow> submit s c = (Err busy, s)"
    and submit_free:
      "\<lbrakk>command s = None; response s = None\<rbrakk> \<Longrightarrow>
        \<exists>s'. submit s c = (Ok (), s') \<and> command s' = Some c \<and> response s' = None"
    and step_idle: "command s = None \<Longrightarrow> step s = (False, s)"
    and step_runs:
      "command s = Some c \<Longrightarrow>
        \<exists>s' r. step s = (True, s') \<and> command s' = None \<and> response s' = Some r"
    and take_takes:
      "\<exists>s'. take_response s = (response s, s') \<and> command s' = command s \<and> response s' = None"
begin

text \<open>At most one of the two cells is in use; every operation keeps it so.\<close>

definition exclusive :: "'s \<Rightarrow> bool" where
  "exclusive s \<longleftrightarrow> command s = None \<or> response s = None"

lemma submit_exclusive: "exclusive s \<Longrightarrow> exclusive (snd (submit s c))"
  using submit_busy [of s c] submit_free [of s c]
  by (cases "command s = None \<and> response s = None") (auto simp: exclusive_def)

lemma step_exclusive: "exclusive s \<Longrightarrow> exclusive (snd (step s))"
  using step_idle [of s] step_runs [of s] by (cases "command s") (auto simp: exclusive_def)

lemma take_exclusive: "exclusive (snd (take_response s))"
  using take_takes [of s] by (auto simp: exclusive_def)

text \<open>An unread response survives every \<open>submit\<close> and every \<open>step\<close>.\<close>

lemma unread_response_kept:
  assumes "exclusive s" and "response s = Some r"
  shows "response (snd (submit s c)) = Some r" and "response (snd (step s)) = Some r"
proof -
  have "command s = None" using assms by (simp add: exclusive_def)
  then show "response (snd (step s)) = Some r" using assms(2) by (simp add: step_idle)
  show "response (snd (submit s c)) = Some r" using assms(2) by (simp add: submit_busy)
qed

text \<open>One exchange on an empty mailbox yields exactly one response and empties it again.\<close>

lemma exchange:
  assumes "command s = None" and "response s = None"
  shows "\<exists>s1 s2 s3 r. submit s c = (Ok (), s1) \<and> step s1 = (True, s2)
    \<and> take_response s2 = (Some r, s3) \<and> command s3 = None \<and> response s3 = None"
proof -
  obtain s1 where s1: "submit s c = (Ok (), s1)" "command s1 = Some c"
    using submit_free [OF assms, of c] by blast
  obtain s2 r where s2: "step s1 = (True, s2)" "command s2 = None" "response s2 = Some r"
    using step_runs [OF s1(2)] by blast
  obtain s3 where s3: "take_response s2 = (response s2, s3)" "command s3 = command s2"
      "response s3 = None"
    using take_takes [of s2] by blast
  from s1 s2 s3 show ?thesis by auto
qed

end

end
