(* ===== verification/Runtime_Operations.thy ===== *)
theory Runtime_Operations
  imports Generations Mailbox
begin

text \<open>
  The in-process operation runtime, \<open>src/runtime.rs\<close>: two generation-stamped operation slots
  behind a one-command mailbox. The theory models every method of \<open>Runtime\<close>, shows that the
  slot table refines a finite map from handles to operation states, and that the mailbox and
  slot contracts hold.
\<close>

section \<open>Data\<close>

abbreviation RT_VACANT :: u8 where "RT_VACANT \<equiv> 0"
abbreviation RT_READY :: u8 where "RT_READY \<equiv> 1"
abbreviation RT_WAITING :: u8 where "RT_WAITING \<equiv> 2"
abbreviation RT_COMPLETE :: u8 where "RT_COMPLETE \<equiv> 3"
abbreviation RT_CANCELLED :: u8 where "RT_CANCELLED \<equiv> 4"
abbreviation RT_TIMED_OUT :: u8 where "RT_TIMED_OUT \<equiv> 5"
abbreviation RT_INITIAL_GENERATION :: u64 where "RT_INITIAL_GENERATION \<equiv> 1"
abbreviation RT_NO_DEADLINE :: u64 where "RT_NO_DEADLINE \<equiv> - 1"
abbreviation RT_MAX_OPERATIONS :: nat where "RT_MAX_OPERATIONS \<equiv> 2"

datatype operation_state = OpReady | OpWaiting | OpComplete | OpCancelled | OpTimedOut

datatype runtime_error = RtCapacity | RtInvalidOperation

record operation_handle =
  oh_slot :: u8
  oh_generation :: u64

datatype runtime_command =
    RtSubmit
  | RtWait operation_handle u64
  | RtComplete operation_handle
  | RtCancel operation_handle
  | RtTimeout operation_handle u64
  | RtReclaim operation_handle

datatype runtime_command_error = RtBusy

datatype runtime_response =
    RtSubmitted operation_handle
  | RtWaiting operation_handle
  | RtCompleted operation_handle
  | RtCancelled operation_handle
  | RtTimedOut operation_handle
  | RtReclaimed operation_handle
  | RtRejected runtime_error

record operation_slot =
  os_generation :: u64
  os_state :: u8
  os_deadline :: u64

definition operation_slot_new :: operation_slot where
  "operation_slot_new =
     \<lparr>os_generation = RT_INITIAL_GENERATION, os_state = RT_VACANT, os_deadline = RT_NO_DEADLINE\<rparr>"

record runtime =
  rt_operations :: "operation_slot list"
  rt_command :: "runtime_command option"
  rt_response :: "runtime_response option"

definition runtime_new :: runtime where
  "runtime_new =
     \<lparr>rt_operations = replicate RT_MAX_OPERATIONS operation_slot_new,
      rt_command = None, rt_response = None\<rparr>"

section \<open>Operations on the slots\<close>

definition rt_next_generation :: "u64 \<Rightarrow> u64" where
  "rt_next_generation generation =
     (let nxt = generation + 1 in if nxt = 0 then RT_INITIAL_GENERATION else nxt)"

definition rt_current_mut :: "runtime \<Rightarrow> operation_handle \<Rightarrow> operation_slot option" where
  "rt_current_mut r h =
     (case slice_get (rt_operations r) (unat (oh_slot h)) of
        None \<Rightarrow> None
      | Some operation \<Rightarrow>
          if os_generation operation = oh_generation h \<and> os_state operation \<noteq> RT_VACANT
          then Some operation else None)"

text \<open>Writing through the \<open>&mut OperationSlot\<close> that \<open>current_mut\<close> returned.\<close>

definition rt_put :: "runtime \<Rightarrow> operation_handle \<Rightarrow> operation_slot \<Rightarrow> runtime" where
  "rt_put r h operation =
     r\<lparr>rt_operations := (rt_operations r)[unat (oh_slot h) := operation]\<rparr>"

definition rt_start :: "runtime \<Rightarrow> (runtime_error + operation_handle) \<times> runtime" where
  "rt_start r =
     (case position (\<lambda>operation. os_state operation = RT_VACANT) (rt_operations r) of
        None \<Rightarrow> (Err RtCapacity, r)
      | Some slot \<Rightarrow>
          (let operation = rt_operations r ! slot
           in (Ok \<lparr>oh_slot = of_nat slot, oh_generation = os_generation operation\<rparr>,
               r\<lparr>rt_operations := (rt_operations r)
                   [slot := operation\<lparr>os_state := RT_READY, os_deadline := RT_NO_DEADLINE\<rparr>]\<rparr>)))"

definition rt_state :: "runtime \<Rightarrow> operation_handle \<Rightarrow> operation_state option" where
  "rt_state r h =
     (case slice_get (rt_operations r) (unat (oh_slot h)) of
        None \<Rightarrow> None
      | Some operation \<Rightarrow>
          if os_generation operation \<noteq> oh_generation h \<or> os_state operation = RT_VACANT then None
          else if os_state operation = RT_READY then Some OpReady
          else if os_state operation = RT_WAITING then Some OpWaiting
          else if os_state operation = RT_COMPLETE then Some OpComplete
          else if os_state operation = RT_CANCELLED then Some OpCancelled
          else if os_state operation = RT_TIMED_OUT then Some OpTimedOut
          else None)"

definition rt_wait_operation :: "runtime \<Rightarrow> operation_handle \<Rightarrow> u64 \<Rightarrow> bool \<times> runtime" where
  "rt_wait_operation r h deadline =
     (case rt_current_mut r h of
        None \<Rightarrow> (False, r)
      | Some operation \<Rightarrow>
          if os_state operation \<noteq> RT_READY then (False, r)
          else (True, rt_put r h (operation\<lparr>os_deadline := deadline, os_state := RT_WAITING\<rparr>)))"

definition rt_complete_operation :: "runtime \<Rightarrow> operation_handle \<Rightarrow> bool \<times> runtime" where
  "rt_complete_operation r h =
     (case rt_current_mut r h of
        None \<Rightarrow> (False, r)
      | Some operation \<Rightarrow>
          if os_state operation \<noteq> RT_WAITING then (False, r)
          else (True, rt_put r h
                 (operation\<lparr>os_deadline := RT_NO_DEADLINE, os_state := RT_COMPLETE\<rparr>)))"

definition rt_cancel_operation :: "runtime \<Rightarrow> operation_handle \<Rightarrow> bool \<times> runtime" where
  "rt_cancel_operation r h =
     (case rt_current_mut r h of
        None \<Rightarrow> (False, r)
      | Some operation \<Rightarrow>
          if \<not> (os_state operation = RT_READY \<or> os_state operation = RT_WAITING) then (False, r)
          else (True, rt_put r h
                 (operation\<lparr>os_deadline := RT_NO_DEADLINE, os_state := RT_CANCELLED\<rparr>)))"

definition rt_timeout_operation :: "runtime \<Rightarrow> operation_handle \<Rightarrow> u64 \<Rightarrow> bool \<times> runtime" where
  "rt_timeout_operation r h now =
     (case rt_current_mut r h of
        None \<Rightarrow> (False, r)
      | Some operation \<Rightarrow>
          if os_state operation \<noteq> RT_WAITING \<or> os_deadline operation > now then (False, r)
          else (True, rt_put r h
                 (operation\<lparr>os_deadline := RT_NO_DEADLINE, os_state := RT_TIMED_OUT\<rparr>)))"

definition rt_reclaim_operation :: "runtime \<Rightarrow> operation_handle \<Rightarrow> bool \<times> runtime" where
  "rt_reclaim_operation r h =
     (case rt_current_mut r h of
        None \<Rightarrow> (False, r)
      | Some operation \<Rightarrow>
          if \<not> (os_state operation = RT_COMPLETE \<or> os_state operation = RT_CANCELLED
                \<or> os_state operation = RT_TIMED_OUT) then (False, r)
          else (True, rt_put r h
                 (operation\<lparr>os_state := RT_VACANT, os_deadline := RT_NO_DEADLINE,
                    os_generation := rt_next_generation (os_generation operation)\<rparr>)))"

section \<open>The mailbox\<close>

definition rt_submit ::
    "runtime \<Rightarrow> runtime_command \<Rightarrow> (runtime_command_error + unit) \<times> runtime" where
  "rt_submit r c =
     (if rt_command r \<noteq> None \<or> rt_response r \<noteq> None then (Err RtBusy, r)
      else (Ok (), r\<lparr>rt_command := Some c\<rparr>))"

definition rt_execute :: "runtime \<Rightarrow> runtime_command \<Rightarrow> runtime_response \<times> runtime" where
  "rt_execute r c =
     (let answer = (\<lambda>(done, r') accepted.
            (if done then accepted else RtRejected RtInvalidOperation, r'))
      in case c of
        RtSubmit \<Rightarrow>
          (case rt_start r of
             (Inr h, r') \<Rightarrow> (RtSubmitted h, r')
           | (Inl e, r') \<Rightarrow> (RtRejected e, r'))
      | RtWait h deadline \<Rightarrow> answer (rt_wait_operation r h deadline) (RtWaiting h)
      | RtComplete h \<Rightarrow> answer (rt_complete_operation r h) (RtCompleted h)
      | RtCancel h \<Rightarrow> answer (rt_cancel_operation r h) (RtCancelled h)
      | RtTimeout h now \<Rightarrow> answer (rt_timeout_operation r h now) (RtTimedOut h)
      | RtReclaim h \<Rightarrow> answer (rt_reclaim_operation r h) (RtReclaimed h))"

definition rt_step :: "runtime \<Rightarrow> bool \<times> runtime" where
  "rt_step r =
     (case rt_command r of
        None \<Rightarrow> (False, r)
      | Some c \<Rightarrow>
          (case rt_execute (r\<lparr>rt_command := None\<rparr>) c of
             (answer, r') \<Rightarrow> (True, r'\<lparr>rt_response := Some answer\<rparr>)))"

definition rt_take_response :: "runtime \<Rightarrow> runtime_response option \<times> runtime" where
  "rt_take_response r = (rt_response r, r\<lparr>rt_response := None\<rparr>)"

lemmas rt_slot_ops =
  rt_wait_operation_def rt_complete_operation_def rt_cancel_operation_def
  rt_timeout_operation_def rt_reclaim_operation_def

section \<open>Life cycle of one slot\<close>

inductive op_trans :: "operation_slot \<Rightarrow> operation_slot \<Rightarrow> bool" where
  op_start: "os_state op = RT_VACANT \<Longrightarrow>
    op_trans op (op\<lparr>os_state := RT_READY, os_deadline := RT_NO_DEADLINE\<rparr>)"
| op_wait: "os_state op = RT_READY \<Longrightarrow>
    op_trans op (op\<lparr>os_deadline := d, os_state := RT_WAITING\<rparr>)"
| op_complete: "os_state op = RT_WAITING \<Longrightarrow>
    op_trans op (op\<lparr>os_deadline := RT_NO_DEADLINE, os_state := RT_COMPLETE\<rparr>)"
| op_cancel: "os_state op = RT_READY \<or> os_state op = RT_WAITING \<Longrightarrow>
    op_trans op (op\<lparr>os_deadline := RT_NO_DEADLINE, os_state := RT_CANCELLED\<rparr>)"
| op_timeout: "os_state op = RT_WAITING \<Longrightarrow>
    op_trans op (op\<lparr>os_deadline := RT_NO_DEADLINE, os_state := RT_TIMED_OUT\<rparr>)"
| op_reclaim: "os_state op = RT_COMPLETE \<or> os_state op = RT_CANCELLED \<or> os_state op = RT_TIMED_OUT \<Longrightarrow>
    op_trans op (op\<lparr>os_state := RT_VACANT, os_deadline := RT_NO_DEADLINE,
      os_generation := rt_next_generation (os_generation op)\<rparr>)"

lemma rt_current_mut_Some:
  "rt_current_mut r h = Some op \<longleftrightarrow>
     unat (oh_slot h) < length (rt_operations r) \<and> rt_operations r ! unat (oh_slot h) = op
     \<and> os_generation op = oh_generation h \<and> os_state op \<noteq> RT_VACANT"
  by (auto simp: rt_current_mut_def split: option.splits)

lemma rt_start_cases:
  obtains (full) "\<forall>op \<in> set (rt_operations r). os_state op \<noteq> RT_VACANT"
      "rt_start r = (Err RtCapacity, r)"
  | (slot) i where "i < length (rt_operations r)" "os_state (rt_operations r ! i) = RT_VACANT"
      "rt_start r =
         (Ok \<lparr>oh_slot = of_nat i, oh_generation = os_generation (rt_operations r ! i)\<rparr>,
          r\<lparr>rt_operations := (rt_operations r)[i := (rt_operations r ! i)
             \<lparr>os_state := RT_READY, os_deadline := RT_NO_DEADLINE\<rparr>]\<rparr>)"
proof (cases "position (\<lambda>operation. os_state operation = RT_VACANT) (rt_operations r)")
  case None
  then have "rt_start r = (Err RtCapacity, r)" by (simp only: rt_start_def option.case)
  with None show ?thesis by (intro full) simp_all
next
  case (Some i)
  show ?thesis
    by (rule slot [OF position_SomeD [OF Some]]) (simp only: rt_start_def Some option.case Let_def)
qed

text \<open>What one command does to the table: nothing, or one slot moves along its life cycle.\<close>

definition op_moves :: "operation_slot list \<Rightarrow> operation_slot list \<Rightarrow> bool" where
  "op_moves ops ops' \<longleftrightarrow> ops' = ops \<or>
     (\<exists>i op'. i < length ops \<and> op_trans (ops ! i) op' \<and> ops' = ops[i := op'])"

lemma op_moves_refl [simp]: "op_moves ops ops"
  by (simp add: op_moves_def)

lemma op_moves_put:
  "\<lbrakk>rt_current_mut r h = Some op; op_trans op op'\<rbrakk>
    \<Longrightarrow> op_moves (rt_operations r) (rt_operations (rt_put r h op'))"
  by (auto simp: op_moves_def rt_put_def rt_current_mut_Some)

lemma op_moves_start: "op_moves (rt_operations r) (rt_operations (snd (rt_start r)))"
proof (cases r rule: rt_start_cases)
  case full
  then show ?thesis by simp
next
  case (slot i)
  then show ?thesis using op_start [OF slot(2)] by (auto simp: op_moves_def)
qed

lemma rt_execute_moves: "op_moves (rt_operations r) (rt_operations (snd (rt_execute r c)))"
proof (cases c)
  case RtSubmit
  then have "snd (rt_execute r c) = snd (rt_start r)"
    by (auto simp: rt_execute_def split: prod.splits sum.splits)
  then show ?thesis by (simp add: op_moves_start)
qed (auto simp: rt_execute_def rt_slot_ops split: option.splits if_splits
    intro!: op_moves_put intro: op_trans.intros)

lemma rt_execute_frame [simp]:
  "rt_command (snd (rt_execute r c)) = rt_command r"
  "rt_response (snd (rt_execute r c)) = rt_response r"
  by (cases c; auto simp: rt_execute_def rt_start_def rt_slot_ops rt_put_def Let_def
      split: option.splits)+

lemma rt_step_operations:
  "rt_operations (snd (rt_step r)) =
     (case rt_command r of None \<Rightarrow> rt_operations r
      | Some c \<Rightarrow> rt_operations (snd (rt_execute (r\<lparr>rt_command := None\<rparr>) c)))"
  by (auto simp: rt_step_def split: option.splits prod.splits)

lemma rt_step_moves: "op_moves (rt_operations r) (rt_operations (snd (rt_step r)))"
  using rt_execute_moves [of "r\<lparr>rt_command := None\<rparr>"]
  by (auto simp: rt_step_operations split: option.splits)

section \<open>Invariant\<close>

definition op_ok :: "operation_slot \<Rightarrow> bool" where
  "op_ok op \<longleftrightarrow> os_generation op \<noteq> 0 \<and> os_state op \<le> RT_TIMED_OUT
     \<and> (os_state op \<noteq> RT_WAITING \<longrightarrow> os_deadline op = RT_NO_DEADLINE)"

definition rt_inv :: "runtime \<Rightarrow> bool" where
  "rt_inv r \<longleftrightarrow> length (rt_operations r) = RT_MAX_OPERATIONS \<and> (\<forall>op \<in> set (rt_operations r). op_ok op)"

lemma rt_next_generation_wrapping: "rt_next_generation = wrapping_next"
  by (rule ext) (simp add: rt_next_generation_def wrapping_next_def)

lemma op_trans_ok: "op_trans op op' \<Longrightarrow> op_ok op \<Longrightarrow> op_ok op'"
  by (induction rule: op_trans.induct)
    (auto simp: op_ok_def rt_next_generation_wrapping word_le_nat_alt)

lemma rt_inv_new: "rt_inv runtime_new"
  by (simp add: rt_inv_def runtime_new_def op_ok_def operation_slot_new_def)

lemma rt_inv_moves:
  assumes "op_moves (rt_operations r) (rt_operations r')" and inv: "rt_inv r"
  shows "rt_inv r'"
  using assms(1) unfolding op_moves_def
proof (elim disjE exE conjE)
  fix i op'
  assume i: "i < length (rt_operations r)" and "op_trans (rt_operations r ! i) op'"
    and r': "rt_operations r' = (rt_operations r)[i := op']"
  then have "op_ok op'" using inv by (auto simp: rt_inv_def intro: op_trans_ok)
  then have "\<forall>op \<in> set ((rt_operations r)[i := op']). op_ok op"
    using inv by (intro all_set_update) (simp_all add: rt_inv_def)
  with inv show ?thesis by (simp add: rt_inv_def r')
qed (use inv in \<open>simp add: rt_inv_def\<close>)

section \<open>Contracts\<close>

interpretation runtime_mailbox:
  mailbox rt_command rt_response rt_submit rt_step rt_take_response RtBusy
proof
  fix r :: runtime and c
  assume "rt_command r = Some c"
  then show "\<exists>r' x. rt_step r = (True, r') \<and> rt_command r' = None \<and> rt_response r' = Some x"
    by (simp add: rt_step_def case_prod_beta)
qed (auto simp: rt_submit_def rt_step_def rt_take_response_def)

inductive rt_op_step :: "runtime \<Rightarrow> runtime \<Rightarrow> bool" where
  rt_submits: "rt_op_step r (snd (rt_submit r c))"
| rt_steps: "rt_op_step r (snd (rt_step r))"
| rt_takes: "rt_op_step r (snd (rt_take_response r))"

definition rt_gen :: "runtime \<Rightarrow> nat \<Rightarrow> nat" where
  "rt_gen r i = (if i < length (rt_operations r) then unat (os_generation (rt_operations r ! i)) else 1)"

definition rt_live :: "runtime \<Rightarrow> nat \<Rightarrow> bool" where
  "rt_live r i \<longleftrightarrow> i < length (rt_operations r) \<and> os_state (rt_operations r ! i) \<noteq> RT_VACANT"

lemma rt_op_step_moves: "rt_op_step r r' \<Longrightarrow> op_moves (rt_operations r) (rt_operations r')"
  by (induction rule: rt_op_step.induct)
    (simp_all add: rt_step_moves rt_submit_def rt_take_response_def)

lemma op_trans_generation:
  "op_trans op op' \<Longrightarrow>
     os_generation op' = os_generation op \<and> os_state op' \<noteq> RT_VACANT
   \<or> os_generation op' = wrapping_next (os_generation op) \<and> os_state op' = RT_VACANT"
  by (induction rule: op_trans.induct) (auto simp: rt_next_generation_wrapping)

interpretation runtime_slots: generation_slots "2 ^ 64" rt_op_step rt_inv rt_gen rt_live
proof
  fix r r' :: runtime and i
  assume inv: "rt_inv r"
  show "0 < rt_gen r i \<and> rt_gen r i < 2 ^ 64"
    using inv u64_bound [of "os_generation (rt_operations r ! i)"]
    by (auto simp: rt_inv_def rt_gen_def op_ok_def unat_gt_0)
  assume step: "rt_op_step r r'"
  then have moves: "op_moves (rt_operations r) (rt_operations r')"
    by (rule rt_op_step_moves)
  then show "rt_inv r'"
    using inv by (rule rt_inv_moves)
  from moves consider "rt_operations r' = rt_operations r"
    | j op' where "j < length (rt_operations r)" "op_trans (rt_operations r ! j) op'"
        "rt_operations r' = (rt_operations r)[j := op']"
    by (auto simp: op_moves_def)
  then have *: "rt_gen r' i = rt_gen r i \<and> (rt_live r i \<longrightarrow> rt_live r' i)
      \<or> rt_gen r' i = cyc_next (2 ^ 64) (rt_gen r i)"
    by cases (use op_trans_generation in
        \<open>fastforce simp: rt_gen_def rt_live_def nth_list_update unat_wrapping_next\<close>)+
  then show "rt_gen r' i = rt_gen r i \<or> rt_gen r' i = cyc_next (2 ^ 64) (rt_gen r i)"
    by blast
  show "rt_live r i \<Longrightarrow> \<not> rt_live r' i \<Longrightarrow> rt_gen r' i \<noteq> rt_gen r i"
    using * cyc_next_neq [of "2 ^ 64" "rt_gen r i"] by auto
qed simp

section \<open>Refinement of a map from handles to operations\<close>

text \<open>
  The specification forgets slots and generations: a finite map from handles to the state of the
  operation and its deadline. A new operation gets any handle outside the map, and the only bound
  is the number of operations in flight.
\<close>

type_synonym op_table = "operation_handle \<rightharpoonup> operation_state \<times> u64"

inductive op_spec :: "op_table \<Rightarrow> runtime_command \<Rightarrow> runtime_response \<Rightarrow> op_table \<Rightarrow> bool" where
  spec_submit: "A h = None \<Longrightarrow>
    op_spec A RtSubmit (RtSubmitted h) (A(h \<mapsto> (OpReady, RT_NO_DEADLINE)))"
| spec_full: "card (dom A) = RT_MAX_OPERATIONS \<Longrightarrow>
    op_spec A RtSubmit (RtRejected RtCapacity) A"
| spec_wait: "A h = Some (OpReady, e) \<Longrightarrow>
    op_spec A (RtWait h d) (RtWaiting h) (A(h \<mapsto> (OpWaiting, d)))"
| spec_complete: "A h = Some (OpWaiting, e) \<Longrightarrow>
    op_spec A (RtComplete h) (RtCompleted h) (A(h \<mapsto> (OpComplete, RT_NO_DEADLINE)))"
| spec_cancel: "A h = Some (st, e) \<Longrightarrow> st = OpReady \<or> st = OpWaiting \<Longrightarrow>
    op_spec A (RtCancel h) (RtCancelled h) (A(h \<mapsto> (OpCancelled, RT_NO_DEADLINE)))"
| spec_timeout: "A h = Some (OpWaiting, e) \<Longrightarrow> e \<le> now \<Longrightarrow>
    op_spec A (RtTimeout h now) (RtTimedOut h) (A(h \<mapsto> (OpTimedOut, RT_NO_DEADLINE)))"
| spec_reclaim: "A h = Some (st, e) \<Longrightarrow> st \<noteq> OpReady \<Longrightarrow> st \<noteq> OpWaiting \<Longrightarrow>
    op_spec A (RtReclaim h) (RtReclaimed h) (A(h := None))"
| spec_wait_rejected: "(\<nexists>e. A h = Some (OpReady, e)) \<Longrightarrow>
    op_spec A (RtWait h d) (RtRejected RtInvalidOperation) A"
| spec_complete_rejected: "(\<nexists>e. A h = Some (OpWaiting, e)) \<Longrightarrow>
    op_spec A (RtComplete h) (RtRejected RtInvalidOperation) A"
| spec_cancel_rejected: "(\<nexists>e. A h = Some (OpReady, e) \<or> A h = Some (OpWaiting, e)) \<Longrightarrow>
    op_spec A (RtCancel h) (RtRejected RtInvalidOperation) A"
| spec_timeout_rejected: "(\<nexists>e. A h = Some (OpWaiting, e) \<and> e \<le> now) \<Longrightarrow>
    op_spec A (RtTimeout h now) (RtRejected RtInvalidOperation) A"
| spec_reclaim_rejected: "A h = None \<or> (\<exists>e. A h = Some (OpReady, e) \<or> A h = Some (OpWaiting, e)) \<Longrightarrow>
    op_spec A (RtReclaim h) (RtRejected RtInvalidOperation) A"

definition slot_view :: "operation_slot \<Rightarrow> (operation_state \<times> u64) option" where
  "slot_view op =
     (if os_state op = RT_READY then Some (OpReady, os_deadline op)
      else if os_state op = RT_WAITING then Some (OpWaiting, os_deadline op)
      else if os_state op = RT_COMPLETE then Some (OpComplete, os_deadline op)
      else if os_state op = RT_CANCELLED then Some (OpCancelled, os_deadline op)
      else if os_state op = RT_TIMED_OUT then Some (OpTimedOut, os_deadline op)
      else None)"

definition rt_view :: "runtime \<Rightarrow> op_table" where
  "rt_view r h =
     (case slice_get (rt_operations r) (unat (oh_slot h)) of
        None \<Rightarrow> None
      | Some op \<Rightarrow> if os_generation op = oh_generation h then slot_view op else None)"

lemma rt_view_state: "map_option fst (rt_view r h) = rt_state r h"
  by (auto simp: rt_view_def rt_state_def slot_view_def split: option.splits)

lemma op_state_cases:
  assumes "op_ok op"
  obtains "os_state op = RT_VACANT" | "os_state op = RT_READY" | "os_state op = RT_WAITING"
    | "os_state op = RT_COMPLETE" | "os_state op = RT_CANCELLED" | "os_state op = RT_TIMED_OUT"
proof -
  have "unat (os_state op) \<le> 5" using assms by (simp add: op_ok_def word_le_nat_alt)
  then have "unat (os_state op) \<in> {0, 1, 2, 3, 4, 5}" by auto
  then show thesis
    using that by (auto dest!: arg_cong [of "unat _" _ "of_nat :: nat \<Rightarrow> u8"])
qed

lemma slot_view_None: "op_ok op \<Longrightarrow> slot_view op = None \<longleftrightarrow> os_state op = RT_VACANT"
  by (erule op_state_cases) (simp_all add: slot_view_def)

lemma handle_eq_iff: "h = h' \<longleftrightarrow> oh_slot h = oh_slot h' \<and> oh_generation h = oh_generation h'"
  for h h' :: operation_handle
  by (cases h, cases h') simp

lemma rt_current_mut_view:
  "rt_current_mut r h = Some op \<Longrightarrow> rt_view r h = slot_view op"
  by (simp add: rt_current_mut_Some rt_view_def slice_get_def)

lemma rt_current_mut_None_view:
  "rt_inv r \<Longrightarrow> rt_current_mut r h = None \<Longrightarrow> rt_view r h = None"
  by (auto simp: rt_current_mut_def rt_view_def slot_view_def rt_inv_def split: option.splits if_splits)

text \<open>Rewriting a slot through its current handle updates the map at that handle.\<close>

lemma rt_view_put:
  assumes "rt_current_mut r h = Some op" and "os_generation op' = os_generation op"
  shows "rt_view (rt_put r h op') = (rt_view r)(h := slot_view op')"
proof
  fix k :: operation_handle
  show "rt_view (rt_put r h op') k = ((rt_view r)(h := slot_view op')) k"
    using assms by (auto simp: rt_current_mut_Some rt_view_def rt_put_def slot_simps handle_eq_iff
        split: option.splits)
qed

lemma rt_view_retire:
  assumes "rt_current_mut r h = Some op" and "os_state op' = RT_VACANT"
  shows "rt_view (rt_put r h op') = (rt_view r)(h := None)"
proof
  fix k :: operation_handle
  show "rt_view (rt_put r h op') k = ((rt_view r)(h := None)) k"
    using assms by (auto simp: rt_current_mut_Some rt_view_def rt_put_def slot_simps handle_eq_iff
        slot_view_def split: option.splits)
qed

definition slot_handle :: "runtime \<Rightarrow> nat \<Rightarrow> operation_handle" where
  "slot_handle r i = \<lparr>oh_slot = of_nat i, oh_generation = os_generation (rt_operations r ! i)\<rparr>"

lemma slot_handle_slot: "rt_inv r \<Longrightarrow> i < length (rt_operations r) \<Longrightarrow> unat (oh_slot (slot_handle r i)) = i"
  by (simp add: slot_handle_def rt_inv_def unat_of_nat_u8)

lemma rt_view_vacant:
  assumes "rt_inv r" and "i < length (rt_operations r)" and "os_state (rt_operations r ! i) = RT_VACANT"
  shows "rt_view r (slot_handle r i) = None"
  using assms by (simp add: rt_view_def slot_handle_slot slice_get_def slot_view_def)

lemma rt_view_start:
  assumes inv: "rt_inv r" and i: "i < length (rt_operations r)"
    and vac: "os_state (rt_operations r ! i) = RT_VACANT"
    and op': "os_generation op' = os_generation (rt_operations r ! i)"
  shows "rt_view (r\<lparr>rt_operations := (rt_operations r)[i := op']\<rparr>)
           = (rt_view r)(slot_handle r i := slot_view op')"
proof
  fix k :: operation_handle
  have "i < 256" using inv i by (simp add: rt_inv_def)
  then have slot: "unat (oh_slot k) = i \<longleftrightarrow> oh_slot k = of_nat i" by (rule unat_u8_eq_iff)
  show "rt_view (r\<lparr>rt_operations := (rt_operations r)[i := op']\<rparr>) k
      = ((rt_view r)(slot_handle r i := slot_view op')) k"
  proof (cases "unat (oh_slot k) = i")
    case True
    with slot have "oh_slot k = of_nat i" by blast
    then have "k = slot_handle r i \<longleftrightarrow> oh_generation k = os_generation (rt_operations r ! i)"
      by (simp add: handle_eq_iff slot_handle_def)
    with True show ?thesis
      using i vac op' by (simp add: rt_view_def slice_get_def slot_view_def)
  next
    case False
    with slot have "k \<noteq> slot_handle r i" by (auto simp: slot_handle_def)
    with False show ?thesis by (simp add: rt_view_def slice_get_def)
  qed
qed

lemma dom_rt_view:
  assumes inv: "rt_inv r"
  shows "dom (rt_view r) = slot_handle r ` {i. i < length (rt_operations r)
           \<and> os_state (rt_operations r ! i) \<noteq> RT_VACANT}" (is "_ = _ ` ?I")
proof (intro equalityI subsetI)
  fix h assume "h \<in> dom (rt_view r)"
  then obtain op where op: "slice_get (rt_operations r) (unat (oh_slot h)) = Some op"
      "os_generation op = oh_generation h" "slot_view op \<noteq> None"
    by (auto simp: rt_view_def split: option.splits if_splits)
  then have "unat (oh_slot h) \<in> ?I" by (auto simp: slot_view_def split: if_splits)
  moreover have "h = slot_handle r (unat (oh_slot h))"
    using op by (simp add: slot_handle_def handle_eq_iff)
  ultimately show "h \<in> slot_handle r ` ?I" by blast
next
  fix h assume "h \<in> slot_handle r ` ?I"
  then obtain i where i: "i \<in> ?I" "h = slot_handle r i" by blast
  then have "slot_view (rt_operations r ! i) \<noteq> None"
    using inv by (simp add: slot_view_None rt_inv_def)
  with i show "h \<in> dom (rt_view r)"
    by (simp add: dom_def rt_view_def slot_handle_slot [OF inv] slice_get_def)
      (simp add: slot_handle_def)
qed

lemma card_dom_rt_view_full:
  assumes inv: "rt_inv r" and full: "\<forall>op \<in> set (rt_operations r). os_state op \<noteq> RT_VACANT"
  shows "card (dom (rt_view r)) = RT_MAX_OPERATIONS"
proof -
  have "{i. i < length (rt_operations r) \<and> os_state (rt_operations r ! i) \<noteq> RT_VACANT}
      = {..<RT_MAX_OPERATIONS}"
    using inv full by (auto simp: rt_inv_def)
  moreover have "inj_on (slot_handle r) {..<RT_MAX_OPERATIONS}"
    using inv by (intro inj_on_inverseI [where g = "\<lambda>h. unat (oh_slot h)"] slot_handle_slot)
      (simp_all add: rt_inv_def)
  ultimately show ?thesis
    by (simp add: dom_rt_view [OF inv] card_image)
qed

lemma rt_execute_refines:
  assumes inv: "rt_inv r"
  shows "op_spec (rt_view r) c (fst (rt_execute r c)) (rt_view (snd (rt_execute r c)))"
proof (cases c)
  case RtSubmit
  show ?thesis
  proof (cases r rule: rt_start_cases)
    case full
    then show ?thesis
      using RtSubmit by (auto simp: rt_execute_def intro: spec_full card_dom_rt_view_full [OF inv])
  next
    case (slot i)
    then show ?thesis
      using RtSubmit spec_submit [where A = "rt_view r", OF rt_view_vacant [OF inv slot(1,2)]]
      by (simp add: rt_execute_def rt_view_start [OF inv] slot_view_def flip: slot_handle_def)
  qed
next
  case (RtWait h d)
  then show ?thesis
    using rt_current_mut_None_view [OF inv, of h]
    by (cases "rt_current_mut r h")
      (auto simp: rt_execute_def rt_wait_operation_def rt_view_put slot_view_def
        rt_current_mut_view intro!: spec_wait spec_wait_rejected split: if_splits)
next
  case (RtComplete h)
  then show ?thesis
    using rt_current_mut_None_view [OF inv, of h]
    by (cases "rt_current_mut r h")
      (auto simp: rt_execute_def rt_complete_operation_def rt_view_put slot_view_def
        rt_current_mut_view intro!: spec_complete spec_complete_rejected split: if_splits)
next
  case (RtCancel h)
  then show ?thesis
    using rt_current_mut_None_view [OF inv, of h]
    by (cases "rt_current_mut r h")
      (auto simp: rt_execute_def rt_cancel_operation_def rt_view_put slot_view_def
        rt_current_mut_view intro!: spec_cancel spec_cancel_rejected split: if_splits)
next
  case (RtTimeout h now)
  then show ?thesis
    using rt_current_mut_None_view [OF inv, of h]
    by (cases "rt_current_mut r h")
      (auto simp: rt_execute_def rt_timeout_operation_def rt_view_put slot_view_def
        rt_current_mut_view not_less intro!: spec_timeout spec_timeout_rejected split: if_splits)
next
  case (RtReclaim h)
  then show ?thesis
    using rt_current_mut_None_view [OF inv, of h]
    by (cases "rt_current_mut r h")
      (auto simp: rt_execute_def rt_reclaim_operation_def rt_view_retire slot_view_def
        rt_current_mut_view intro!: spec_reclaim spec_reclaim_rejected split: if_splits)
qed

section \<open>Properties\<close>

lemma rt_inv_reachable: "rt_op_step\<^sup>*\<^sup>* runtime_new r \<Longrightarrow> rt_inv r"
  by (induction rule: rtranclp_induct) (auto simp: rt_inv_new intro: runtime_slots.wf_step)

text \<open>One client exchange: submit a command, let the runtime step, take the response.\<close>

definition rt_exchange :: "runtime \<Rightarrow> runtime_command \<Rightarrow> runtime" where
  "rt_exchange r c = snd (rt_take_response (snd (rt_step (snd (rt_submit r c)))))"

lemma rt_exchange_reachable:
  assumes "rt_op_step\<^sup>*\<^sup>* s r"
  shows "rt_op_step\<^sup>*\<^sup>* s (rt_exchange r c)"
proof -
  have "rt_op_step\<^sup>*\<^sup>* s (snd (rt_submit r c))"
    using assms rt_submits by (rule rtranclp.rtrancl_into_rtrancl)
  then have "rt_op_step\<^sup>*\<^sup>* s (snd (rt_step (snd (rt_submit r c))))"
    using rt_steps by (rule rtranclp.rtrancl_into_rtrancl)
  then show ?thesis
    unfolding rt_exchange_def using rt_takes by (rule rtranclp.rtrancl_into_rtrancl)
qed

lemma runtime_new_slots:
  "runtime_new = \<lparr>rt_operations = [operation_slot_new, operation_slot_new],
     rt_command = None, rt_response = None\<rparr>"
  by (simp add: runtime_new_def numeral_2_eq_2)

lemmas rt_eval =
  rt_exchange_def rt_take_response_def rt_step_def rt_submit_def rt_execute_def rt_start_def
  rt_slot_ops rt_current_mut_def rt_put_def rt_state_def rt_next_generation_def slice_get_def
  runtime_new_slots operation_slot_new_def

lemma rt_state_None:
  assumes "rt_inv r"
  shows "rt_state r h = None \<longleftrightarrow>
    \<not> (rt_live r (unat (oh_slot h)) \<and> rt_gen r (unat (oh_slot h)) = unat (oh_generation h))"
proof -
  have "rt_state r h = None \<longleftrightarrow> rt_view r h = None"
    by (metis rt_view_state map_option_is_None)
  also have "\<dots> \<longleftrightarrow> \<not> (rt_live r (unat (oh_slot h))
      \<and> rt_gen r (unat (oh_slot h)) = unat (oh_generation h))"
    using assms by (auto simp: rt_view_def slice_get_def rt_live_def rt_gen_def rt_inv_def
        slot_view_None slot_simps)
  finally show ?thesis .
qed

text \<open>
  C18: In every reachable state of the operation runtime, executing the pending command answers
  and changes the table exactly as the abstract specification allows, where the table is read as
  a map from operation handles to (state, deadline). The specification knows no slots and no
  generations: a fresh handle is any handle outside the map, and capacity is the only bound.
\<close>

theorem runtime_refines_map:
  assumes "rt_op_step\<^sup>*\<^sup>* runtime_new r" and "rt_command r = Some c"
  shows "\<exists>x. rt_response (snd (rt_step r)) = Some x
    \<and> op_spec (rt_view r) c x (rt_view (snd (rt_step r)))"
proof -
  let ?r = "r\<lparr>rt_command := None\<rparr>"
  have "rt_inv ?r" using rt_inv_reachable [OF assms(1)] by (simp add: rt_inv_def)
  then have "op_spec (rt_view ?r) c (fst (rt_execute ?r c)) (rt_view (snd (rt_execute ?r c)))"
    by (rule rt_execute_refines)
  moreover have "rt_view ?r = rt_view r"
    and "rt_view (q\<lparr>rt_response := z\<rparr>) = rt_view q" for q z
    by (auto simp: rt_view_def)
  ultimately show ?thesis
    using assms(2) by (simp add: rt_step_def case_prod_beta)
qed

theorem runtime_refines_map_witness:
  "\<exists>x. rt_response (snd (rt_step (runtime_new\<lparr>rt_command := Some RtSubmit\<rparr>))) = Some x
    \<and> op_spec (rt_view (runtime_new\<lparr>rt_command := Some RtSubmit\<rparr>)) RtSubmit x
        (rt_view (snd (rt_step (runtime_new\<lparr>rt_command := Some RtSubmit\<rparr>))))"
proof (rule runtime_refines_map)
  have "snd (rt_submit runtime_new RtSubmit) = runtime_new\<lparr>rt_command := Some RtSubmit\<rparr>"
    by (simp add: rt_eval)
  then show "rt_op_step\<^sup>*\<^sup>* runtime_new (runtime_new\<lparr>rt_command := Some RtSubmit\<rparr>)"
    using rt_submits [of runtime_new RtSubmit] by (metis r_into_rtranclp)
qed simp

text \<open>
  A handle that names an operation of a reachable state and that one step makes invalid
  (its operation was reclaimed) stays invalid in every later state, however the slot is reused,
  until its slot has been reclaimed another \<open>2 ^ 64 - 2\<close> times.
\<close>

theorem reclaimed_handle_stays_dead:
  assumes "rt_op_step\<^sup>*\<^sup>* runtime_new r" and "rt_state r h \<noteq> None"
    and "rt_op_step r r1" and "rt_state r1 h = None"
    and "retire_run rt_op_step (\<lambda>r. rt_gen r (unat (oh_slot h))) r1 k r2" and "k < 2 ^ 64 - 2"
  shows "rt_state r2 h = None"
proof -
  let ?i = "unat (oh_slot h)"
  have inv: "rt_inv r" using assms(1) by (rule rt_inv_reachable)
  then have inv1: "rt_inv r1" using assms(3) by (rule runtime_slots.wf_step)
  then have inv2: "rt_inv r2" using runtime_slots.run_wf_gen [OF assms(5)] by simp
  have live: "rt_live r ?i" "rt_gen r ?i = unat (oh_generation h)"
    using assms(2) by (simp_all add: rt_state_None [OF inv])
  have freed: "rt_gen r1 ?i \<noteq> rt_gen r ?i"
    using assms(4) live runtime_slots.free_retires [OF inv assms(3) live(1)]
    by (auto simp: rt_state_None [OF inv1])
  have "rt_gen r2 ?i \<noteq> rt_gen r ?i"
    using runtime_slots.run_prepend [OF assms(5,3) freed] inv assms(6)
    by (intro runtime_slots.stale_generation) auto
  then show ?thesis using live by (simp add: rt_state_None [OF inv2])
qed

theorem reclaimed_handle_stays_dead_witness:
  "let h = \<lparr>oh_slot = 0, oh_generation = 1\<rparr>;
       r = snd (rt_submit (rt_exchange (rt_exchange runtime_new RtSubmit) (RtCancel h)) (RtReclaim h))
   in rt_state r h = Some OpCancelled \<and> rt_state (snd (rt_step r)) h = None
      \<and> rt_state (snd (rt_take_response (snd (rt_step r)))) h = None"
proof -
  let ?h = "\<lparr>oh_slot = 0, oh_generation = 1\<rparr>"
  let ?r = "snd (rt_submit (rt_exchange (rt_exchange runtime_new RtSubmit) (RtCancel ?h)) (RtReclaim ?h))"
  let ?r1 = "snd (rt_step ?r)" and ?r2 = "snd (rt_take_response (snd (rt_step ?r)))"
  have "rt_op_step\<^sup>*\<^sup>* runtime_new (rt_exchange (rt_exchange runtime_new RtSubmit) (RtCancel ?h))"
    by (intro rt_exchange_reachable rtranclp.rtrancl_refl)
  then have reach: "rt_op_step\<^sup>*\<^sup>* runtime_new ?r"
    using rt_submits by (rule rtranclp.rtrancl_into_rtrancl)
  have before: "rt_state ?r ?h = Some OpCancelled" by (simp add: rt_eval)
  have after: "rt_state ?r1 ?h = None" by (simp add: rt_eval)
  have "rt_gen ?r2 0 = rt_gen ?r1 0" by (simp add: rt_gen_def rt_take_response_def)
  then have run: "retire_run rt_op_step (\<lambda>r. rt_gen r (unat (oh_slot ?h))) ?r1 0 ?r2"
    using rt_takes [of ?r1] by (intro run_one) simp_all
  have "rt_state ?r \<lparr>oh_slot = 0, oh_generation = 1\<rparr> \<noteq> None" using before by simp
  then have "rt_state ?r2 ?h = None"
    by (rule reclaimed_handle_stays_dead [OF reach _ rt_steps after run]) simp
  with before after show ?thesis by (simp add: Let_def)
qed

end
