(* ===== verification/Service_Lifecycle.thy ===== *)
theory Service_Lifecycle
  imports Generations
begin

text \<open>
  Operation outcomes across service restarts, \<open>src/service_lifecycle.rs\<close>: two
  generation-stamped slots whose operations carry the service epoch in which they started. The
  theory models every method of \<open>ServiceLifecycle\<close> and shows that an operation in flight at a
  restart is reported as restarted, never as completed, for the rest of its handle's life.
\<close>

section \<open>Data\<close>

abbreviation LC_VACANT :: u8 where "LC_VACANT \<equiv> 0"
abbreviation LC_IN_FLIGHT :: u8 where "LC_IN_FLIGHT \<equiv> 1"
abbreviation LC_COMPLETED :: u8 where "LC_COMPLETED \<equiv> 2"
abbreviation LC_CANCELLED :: u8 where "LC_CANCELLED \<equiv> 3"
abbreviation LC_RESTARTED :: u8 where "LC_RESTARTED \<equiv> 4"
abbreviation LC_INITIAL_EPOCH :: u64 where "LC_INITIAL_EPOCH \<equiv> 1"
abbreviation LC_INITIAL_SLOT_GENERATION :: u64 where "LC_INITIAL_SLOT_GENERATION \<equiv> 1"
abbreviation LC_MAX_OPERATIONS :: nat where "LC_MAX_OPERATIONS \<equiv> 2"

datatype lc_operation_state = LcInFlight | LcCompleted | LcCancelled | LcRestarted

datatype lc_start_error = LcCapacity | LcInvalidRequest

record lc_handle =
  lh_slot :: u8
  lh_slot_generation :: u64
  lh_service_epoch :: u64
  lh_request_id :: u64

record lc_slot =
  ls_slot_generation :: u64
  ls_service_epoch :: u64
  ls_request_id :: u64
  ls_state :: u8

definition lc_slot_new :: lc_slot where
  "lc_slot_new =
     \<lparr>ls_slot_generation = LC_INITIAL_SLOT_GENERATION, ls_service_epoch = 0,
      ls_request_id = 0, ls_state = LC_VACANT\<rparr>"

record lifecycle =
  lc_service_epoch :: u64
  lc_operations :: "lc_slot list"

definition lifecycle_new :: lifecycle where
  "lifecycle_new =
     \<lparr>lc_service_epoch = LC_INITIAL_EPOCH, lc_operations = replicate LC_MAX_OPERATIONS lc_slot_new\<rparr>"

section \<open>Operations\<close>

definition lc_next_epoch :: "u64 \<Rightarrow> u64" where
  "lc_next_epoch epoch = (let nxt = epoch + 1 in if nxt = 0 then LC_INITIAL_EPOCH else nxt)"

definition lc_current_mut :: "lifecycle \<Rightarrow> lc_handle \<Rightarrow> lc_slot option" where
  "lc_current_mut l h =
     (case slice_get (lc_operations l) (unat (lh_slot h)) of
        None \<Rightarrow> None
      | Some operation \<Rightarrow>
          if ls_slot_generation operation = lh_slot_generation h \<and> ls_state operation \<noteq> LC_VACANT
          then Some operation else None)"

definition lc_put :: "lifecycle \<Rightarrow> lc_handle \<Rightarrow> lc_slot \<Rightarrow> lifecycle" where
  "lc_put l h operation = l\<lparr>lc_operations := (lc_operations l)[unat (lh_slot h) := operation]\<rparr>"

definition lc_start :: "lifecycle \<Rightarrow> u64 \<Rightarrow> (lc_start_error + lc_handle) \<times> lifecycle" where
  "lc_start l request_id =
     (if request_id = 0 then (Err LcInvalidRequest, l)
      else case position (\<lambda>operation. ls_state operation = LC_VACANT) (lc_operations l) of
        None \<Rightarrow> (Err LcCapacity, l)
      | Some slot \<Rightarrow>
          (let operation = lc_operations l ! slot
           in (Ok \<lparr>lh_slot = of_nat slot, lh_slot_generation = ls_slot_generation operation,
                   lh_service_epoch = lc_service_epoch l, lh_request_id = request_id\<rparr>,
               l\<lparr>lc_operations := (lc_operations l)
                   [slot := operation\<lparr>ls_service_epoch := lc_service_epoch l,
                      ls_request_id := request_id, ls_state := LC_IN_FLIGHT\<rparr>]\<rparr>)))"

definition lc_state :: "lifecycle \<Rightarrow> lc_handle \<Rightarrow> lc_operation_state option" where
  "lc_state l h =
     (case slice_get (lc_operations l) (unat (lh_slot h)) of
        None \<Rightarrow> None
      | Some operation \<Rightarrow>
          if ls_slot_generation operation \<noteq> lh_slot_generation h \<or> ls_state operation = LC_VACANT
          then None
          else if ls_state operation = LC_IN_FLIGHT then Some LcInFlight
          else if ls_state operation = LC_COMPLETED then Some LcCompleted
          else if ls_state operation = LC_CANCELLED then Some LcCancelled
          else if ls_state operation = LC_RESTARTED then Some LcRestarted
          else None)"

definition lc_complete :: "lifecycle \<Rightarrow> lc_handle \<Rightarrow> u64 \<Rightarrow> u64 \<Rightarrow> bool \<times> lifecycle" where
  "lc_complete l h service_epoch request_id =
     (let current_epoch = lc_service_epoch l
      in case lc_current_mut l h of
           None \<Rightarrow> (False, l)
         | Some operation \<Rightarrow>
             if ls_state operation \<noteq> LC_IN_FLIGHT \<or> ls_service_epoch operation \<noteq> current_epoch
                \<or> service_epoch \<noteq> current_epoch \<or> ls_request_id operation \<noteq> request_id
             then (False, l)
             else (True, lc_put l h (operation\<lparr>ls_state := LC_COMPLETED\<rparr>)))"

definition lc_cancel :: "lifecycle \<Rightarrow> lc_handle \<Rightarrow> bool \<times> lifecycle" where
  "lc_cancel l h =
     (case lc_current_mut l h of
        None \<Rightarrow> (False, l)
      | Some operation \<Rightarrow>
          if ls_state operation \<noteq> LC_IN_FLIGHT then (False, l)
          else (True, lc_put l h (operation\<lparr>ls_state := LC_CANCELLED\<rparr>)))"

primrec lc_restart_loop :: "lc_slot list \<Rightarrow> usize \<Rightarrow> usize \<times> lc_slot list" where
  "lc_restart_loop [] restarted = (restarted, [])"
| "lc_restart_loop (operation # rest) restarted =
     (if ls_state operation = LC_IN_FLIGHT
      then (case lc_restart_loop rest (restarted + 1) of
              (n, rest') \<Rightarrow> (n, operation\<lparr>ls_state := LC_RESTARTED\<rparr> # rest'))
      else (case lc_restart_loop rest restarted of
              (n, rest') \<Rightarrow> (n, operation # rest')))"

definition lc_restart :: "lifecycle \<Rightarrow> usize \<times> lifecycle" where
  "lc_restart l =
     (case lc_restart_loop (lc_operations l) 0 of
        (restarted, operations) \<Rightarrow>
          (restarted, l\<lparr>lc_operations := operations,
                        lc_service_epoch := lc_next_epoch (lc_service_epoch l)\<rparr>))"

definition lc_reclaim :: "lifecycle \<Rightarrow> lc_handle \<Rightarrow> bool \<times> lifecycle" where
  "lc_reclaim l h =
     (case lc_current_mut l h of
        None \<Rightarrow> (False, l)
      | Some operation \<Rightarrow>
          if \<not> (ls_state operation = LC_COMPLETED \<or> ls_state operation = LC_CANCELLED
                \<or> ls_state operation = LC_RESTARTED) then (False, l)
          else (True, lc_put l h
                 (operation\<lparr>ls_service_epoch := 0, ls_request_id := 0, ls_state := LC_VACANT,
                    ls_slot_generation := lc_next_epoch (ls_slot_generation operation)\<rparr>)))"

inductive lc_step :: "lifecycle \<Rightarrow> lifecycle \<Rightarrow> bool" where
  lc_step_start: "lc_step l (snd (lc_start l request_id))"
| lc_step_complete: "lc_step l (snd (lc_complete l h e request_id))"
| lc_step_cancel: "lc_step l (snd (lc_cancel l h))"
| lc_step_restart: "lc_step l (snd (lc_restart l))"
| lc_step_reclaim: "lc_step l (snd (lc_reclaim l h))"

section \<open>What the operations do to the slots\<close>

lemma lc_next_epoch_wrapping: "lc_next_epoch = wrapping_next"
  by (rule ext) (simp add: lc_next_epoch_def wrapping_next_def)

definition lc_restart_slot :: "lc_slot \<Rightarrow> lc_slot" where
  "lc_restart_slot op = (if ls_state op = LC_IN_FLIGHT then op\<lparr>ls_state := LC_RESTARTED\<rparr> else op)"

lemma lc_restart_loop_map:
  "lc_restart_loop ops n =
     (n + of_nat (length (filter (\<lambda>op. ls_state op = LC_IN_FLIGHT) ops)), map lc_restart_slot ops)"
  by (induction ops arbitrary: n) (simp_all add: lc_restart_slot_def)

lemma lc_current_mut_Some:
  "lc_current_mut l h = Some op \<longleftrightarrow>
     unat (lh_slot h) < length (lc_operations l) \<and> lc_operations l ! unat (lh_slot h) = op
     \<and> ls_slot_generation op = lh_slot_generation h \<and> ls_state op \<noteq> LC_VACANT"
  by (auto simp: lc_current_mut_def split: option.splits)

text \<open>The effect of one call on one slot, given the service epochs before and after.\<close>

inductive lc_trans :: "u64 \<Rightarrow> u64 \<Rightarrow> lc_slot \<Rightarrow> lc_slot \<Rightarrow> bool" where
  lc_stay: "e' = e \<or> ls_state op \<noteq> LC_IN_FLIGHT \<Longrightarrow> lc_trans e e' op op"
| lc_begin: "\<lbrakk>ls_state op = LC_VACANT; q \<noteq> 0\<rbrakk> \<Longrightarrow>
    lc_trans e e op (op\<lparr>ls_service_epoch := e, ls_request_id := q, ls_state := LC_IN_FLIGHT\<rparr>)"
| lc_finish: "\<lbrakk>ls_state op = LC_IN_FLIGHT; ls_service_epoch op = e\<rbrakk> \<Longrightarrow>
    lc_trans e e op (op\<lparr>ls_state := LC_COMPLETED\<rparr>)"
| lc_abort: "ls_state op = LC_IN_FLIGHT \<Longrightarrow> lc_trans e e op (op\<lparr>ls_state := LC_CANCELLED\<rparr>)"
| lc_interrupt: "ls_state op = LC_IN_FLIGHT \<Longrightarrow> lc_trans e e' op (op\<lparr>ls_state := LC_RESTARTED\<rparr>)"
| lc_retire: "ls_state op = LC_COMPLETED \<or> ls_state op = LC_CANCELLED \<or> ls_state op = LC_RESTARTED \<Longrightarrow>
    lc_trans e e op (op\<lparr>ls_service_epoch := 0, ls_request_id := 0, ls_state := LC_VACANT,
      ls_slot_generation := lc_next_epoch (ls_slot_generation op)\<rparr>)"

definition lc_moves :: "lifecycle \<Rightarrow> lifecycle \<Rightarrow> bool" where
  "lc_moves l l' \<longleftrightarrow> length (lc_operations l') = length (lc_operations l)
     \<and> (lc_service_epoch l' = lc_service_epoch l \<or> lc_service_epoch l' = lc_next_epoch (lc_service_epoch l))
     \<and> (\<forall>i < length (lc_operations l). lc_trans (lc_service_epoch l) (lc_service_epoch l')
          (lc_operations l ! i) (lc_operations l' ! i))"

lemma lc_moves_refl [simp]: "lc_moves l l"
  by (simp add: lc_moves_def lc_stay)

lemma lc_moves_put:
  "\<lbrakk>lc_current_mut l h = Some op; lc_trans (lc_service_epoch l) (lc_service_epoch l) op op'\<rbrakk>
    \<Longrightarrow> lc_moves l (lc_put l h op')"
  by (auto simp: lc_moves_def lc_put_def lc_current_mut_Some nth_list_update lc_stay)

lemma lc_start_cases:
  obtains (invalid) "q = 0" "lc_start l q = (Err LcInvalidRequest, l)"
  | (full) "q \<noteq> 0" "\<forall>op \<in> set (lc_operations l). ls_state op \<noteq> LC_VACANT"
      "lc_start l q = (Err LcCapacity, l)"
  | (slot) i where "q \<noteq> 0" "i < length (lc_operations l)" "ls_state (lc_operations l ! i) = LC_VACANT"
      "lc_start l q =
         (Ok \<lparr>lh_slot = of_nat i, lh_slot_generation = ls_slot_generation (lc_operations l ! i),
              lh_service_epoch = lc_service_epoch l, lh_request_id = q\<rparr>,
          l\<lparr>lc_operations := (lc_operations l)[i := (lc_operations l ! i)
             \<lparr>ls_service_epoch := lc_service_epoch l, ls_request_id := q, ls_state := LC_IN_FLIGHT\<rparr>]\<rparr>)"
proof (cases "q = 0")
  case True
  then show ?thesis by (intro invalid) (simp_all add: lc_start_def)
next
  case False
  show ?thesis
  proof (cases "position (\<lambda>operation. ls_state operation = LC_VACANT) (lc_operations l)")
    case None
    then have "lc_start l q = (Err LcCapacity, l)"
      using False by (simp only: lc_start_def option.case if_False)
    with None False show ?thesis by (intro full) simp_all
  next
    case (Some i)
    show ?thesis
      by (rule slot [OF False position_SomeD [OF Some]])
        (simp only: lc_start_def Some option.case Let_def False if_False)
  qed
qed

lemma lc_start_moves: "lc_moves l (snd (lc_start l q))"
proof (cases q l rule: lc_start_cases)
  case (slot i)
  then show ?thesis
    by (auto simp: lc_moves_def nth_list_update intro: lc_stay lc_begin)
qed simp_all

lemma lc_restart_moves: "lc_moves l (snd (lc_restart l))"
  by (auto simp: lc_restart_def lc_restart_loop_map lc_moves_def lc_restart_slot_def
      intro: lc_trans.intros)

lemma lc_step_moves: "lc_step l l' \<Longrightarrow> lc_moves l l'"
proof (induction rule: lc_step.induct)
  case (lc_step_complete l h e q)
  show ?case
    by (auto simp: lc_complete_def Let_def split: option.splits intro!: lc_moves_put lc_finish)
next
  case (lc_step_cancel l h)
  show ?case by (auto simp: lc_cancel_def split: option.splits intro!: lc_moves_put lc_abort)
next
  case (lc_step_reclaim l h)
  show ?case by (auto simp: lc_reclaim_def split: option.splits intro!: lc_moves_put lc_retire)
qed (simp_all add: lc_start_moves lc_restart_moves)

section \<open>Invariant\<close>

definition lc_slot_ok :: "u64 \<Rightarrow> lc_slot \<Rightarrow> bool" where
  "lc_slot_ok epoch op \<longleftrightarrow> ls_slot_generation op \<noteq> 0 \<and> ls_state op \<le> LC_RESTARTED
     \<and> (ls_state op = LC_VACANT \<longrightarrow> ls_service_epoch op = 0 \<and> ls_request_id op = 0)
     \<and> (ls_state op = LC_IN_FLIGHT \<longrightarrow> ls_service_epoch op = epoch \<and> ls_request_id op \<noteq> 0)"

definition lc_inv :: "lifecycle \<Rightarrow> bool" where
  "lc_inv l \<longleftrightarrow> length (lc_operations l) = LC_MAX_OPERATIONS \<and> lc_service_epoch l \<noteq> 0
     \<and> (\<forall>op \<in> set (lc_operations l). lc_slot_ok (lc_service_epoch l) op)"

lemma lc_trans_ok: "lc_trans e e' op op' \<Longrightarrow> lc_slot_ok e op \<Longrightarrow> lc_slot_ok e' op'"
  by (induction rule: lc_trans.induct)
    (auto simp: lc_slot_ok_def lc_next_epoch_wrapping word_le_nat_alt)

lemma lc_inv_moves: "lc_moves l l' \<Longrightarrow> lc_inv l \<Longrightarrow> lc_inv l'"
  unfolding lc_inv_def lc_moves_def all_set_conv_all_nth
  by (auto simp: lc_next_epoch_wrapping intro: lc_trans_ok)

lemma lc_inv_new: "lc_inv lifecycle_new"
  by (simp add: lc_inv_def lifecycle_new_def lc_slot_ok_def lc_slot_new_def)

lemma lc_inv_reachable: "lc_step\<^sup>*\<^sup>* lifecycle_new l \<Longrightarrow> lc_inv l"
  by (induction rule: rtranclp_induct) (auto simp: lc_inv_new intro: lc_inv_moves lc_step_moves)

section \<open>The slot contract\<close>

definition lc_gen :: "lifecycle \<Rightarrow> nat \<Rightarrow> nat" where
  "lc_gen l i =
     (if i < length (lc_operations l) then unat (ls_slot_generation (lc_operations l ! i)) else 1)"

definition lc_live :: "lifecycle \<Rightarrow> nat \<Rightarrow> bool" where
  "lc_live l i \<longleftrightarrow> i < length (lc_operations l) \<and> ls_state (lc_operations l ! i) \<noteq> LC_VACANT"

lemma lc_trans_generation:
  assumes "lc_trans e e' op op'"
  shows "ls_slot_generation op' = ls_slot_generation op
      \<and> (ls_state op \<noteq> LC_VACANT \<longrightarrow> ls_state op' \<noteq> LC_VACANT)
    \<or> ls_slot_generation op' = wrapping_next (ls_slot_generation op)"
  using assms by (induction rule: lc_trans.induct) (auto simp: lc_next_epoch_wrapping)

lemma lc_step_generation:
  assumes "lc_step l l'"
  shows "lc_gen l' i = lc_gen l i \<and> (lc_live l i \<longrightarrow> lc_live l' i)
    \<or> lc_gen l' i = cyc_next (2 ^ 64) (lc_gen l i)"
proof (cases "i < length (lc_operations l)")
  case True
  then have "lc_trans (lc_service_epoch l) (lc_service_epoch l')
      (lc_operations l ! i) (lc_operations l' ! i)" "length (lc_operations l') = length (lc_operations l)"
    using lc_step_moves [OF assms] by (auto simp: lc_moves_def)
  then show ?thesis
    using True lc_trans_generation by (fastforce simp: lc_gen_def lc_live_def unat_wrapping_next)
next
  case False
  then show ?thesis using lc_step_moves [OF assms] by (simp add: lc_gen_def lc_live_def lc_moves_def)
qed

interpretation lifecycle_slots: generation_slots "2 ^ 64" lc_step lc_inv lc_gen lc_live
proof
  fix l l' :: lifecycle and i
  assume inv: "lc_inv l"
  show range: "0 < lc_gen l i \<and> lc_gen l i < 2 ^ 64"
    using inv u64_bound [of "ls_slot_generation (lc_operations l ! i)"]
    by (auto simp: lc_inv_def lc_gen_def lc_slot_ok_def unat_gt_0)
  assume step: "lc_step l l'"
  then show "lc_inv l'" using inv lc_inv_moves lc_step_moves by blast
  show "lc_gen l' i = lc_gen l i \<or> lc_gen l' i = cyc_next (2 ^ 64) (lc_gen l i)"
    using lc_step_generation [OF step, of i] by blast
  show "lc_live l i \<Longrightarrow> \<not> lc_live l' i \<Longrightarrow> lc_gen l' i \<noteq> lc_gen l i"
    using lc_step_generation [OF step, of i] cyc_next_neq [of "2 ^ 64" "lc_gen l i"] range by auto
qed simp

section \<open>Properties\<close>

lemma lc_state_generation:
  assumes "lc_state l h \<noteq> None"
  shows "unat (lh_slot h) < length (lc_operations l)"
    and "lc_gen l (unat (lh_slot h)) = unat (lh_slot_generation h)"
  using assms by (auto simp: lc_state_def lc_gen_def split: option.splits if_splits)

lemma lc_complete_state:
  assumes "fst (lc_complete l h e q)"
  shows "lc_state l h = Some LcInFlight"
proof -
  from assms obtain op where "lc_current_mut l h = Some op" "ls_state op = LC_IN_FLIGHT"
    by (auto simp: lc_complete_def Let_def split: option.splits if_splits)
  then show ?thesis by (simp add: lc_current_mut_Some lc_state_def slice_get_def)
qed

text \<open>While its generation stands, a slot keeps its outcome and the identity of its operation.\<close>

lemma lc_trans_same_generation:
  assumes "lc_trans e e' op op'" and "ls_slot_generation op' = ls_slot_generation op"
    and "ls_state op \<noteq> LC_VACANT"
  shows "ls_service_epoch op' = ls_service_epoch op" "ls_request_id op' = ls_request_id op"
    "ls_state op' \<noteq> LC_VACANT" "ls_state op \<noteq> LC_IN_FLIGHT \<Longrightarrow> op' = op"
  using assms
  by (induction rule: lc_trans.induct) (auto simp: lc_next_epoch_wrapping wrapping_next_neq)

lemma lc_step_same_generation:
  assumes "lc_step t u" and "lc_gen u i = lc_gen t i" and "lc_live t i"
  shows "i < length (lc_operations u) \<and> lc_trans (lc_service_epoch t) (lc_service_epoch u)
      (lc_operations t ! i) (lc_operations u ! i)
    \<and> ls_slot_generation (lc_operations u ! i) = ls_slot_generation (lc_operations t ! i)"
  using assms lc_step_moves [OF assms(1)]
  by (auto simp: lc_moves_def lc_gen_def lc_live_def slot_simps)

lemma lc_run_keeps_slot:
  assumes "retire_run lc_step (\<lambda>l. lc_gen l i) l k u" and "lc_live l i"
  shows "k = 0 \<longrightarrow> lc_live u i \<and> lc_gen u i = lc_gen l i
     \<and> ls_service_epoch (lc_operations u ! i) = ls_service_epoch (lc_operations l ! i)
     \<and> ls_request_id (lc_operations u ! i) = ls_request_id (lc_operations l ! i)
     \<and> (ls_state (lc_operations l ! i) \<noteq> LC_IN_FLIGHT \<longrightarrow> lc_operations u ! i = lc_operations l ! i)"
  using assms
proof (induction rule: retire_run.induct)
  case (run_keep l k t u)
  show ?case
  proof
    assume "k = 0"
    with run_keep have t: "lc_live t i" "lc_gen t i = lc_gen l i"
      "ls_service_epoch (lc_operations t ! i) = ls_service_epoch (lc_operations l ! i)"
      "ls_request_id (lc_operations t ! i) = ls_request_id (lc_operations l ! i)"
      "ls_state (lc_operations l ! i) \<noteq> LC_IN_FLIGHT \<longrightarrow> lc_operations t ! i = lc_operations l ! i"
      by auto
    then have live: "ls_state (lc_operations t ! i) \<noteq> LC_VACANT" by (simp add: lc_live_def)
    note u = lc_step_same_generation [OF run_keep.hyps(2,3) t(1)]
    note keep = lc_trans_same_generation [OF conjunct1 [OF conjunct2 [OF u]] conjunct2 [OF conjunct2 [OF u]] live]
    show "lc_live u i \<and> lc_gen u i = lc_gen l i
      \<and> ls_service_epoch (lc_operations u ! i) = ls_service_epoch (lc_operations l ! i)
      \<and> ls_request_id (lc_operations u ! i) = ls_request_id (lc_operations l ! i)
      \<and> (ls_state (lc_operations l ! i) \<noteq> LC_IN_FLIGHT \<longrightarrow> lc_operations u ! i = lc_operations l ! i)"
      using t u keep run_keep.hyps(3) by (auto simp: lc_live_def)
  qed
qed simp_all

lemma lc_restart_effect:
  assumes "lc_state l h = Some LcInFlight"
  shows "lc_live (snd (lc_restart l)) (unat (lh_slot h))"
    and "lc_operations (snd (lc_restart l)) ! unat (lh_slot h)
           = (lc_operations l ! unat (lh_slot h))\<lparr>ls_state := LC_RESTARTED\<rparr>"
    and "lc_gen (snd (lc_restart l)) (unat (lh_slot h)) = unat (lh_slot_generation h)"
proof -
  let ?i = "unat (lh_slot h)"
  have i: "?i < length (lc_operations l)" "ls_state (lc_operations l ! ?i) = LC_IN_FLIGHT"
    "ls_slot_generation (lc_operations l ! ?i) = lh_slot_generation h"
    using assms by (auto simp: lc_state_def slice_get_def split: if_splits)
  show "lc_live (snd (lc_restart l)) ?i"
    "lc_operations (snd (lc_restart l)) ! ?i = (lc_operations l ! ?i)\<lparr>ls_state := LC_RESTARTED\<rparr>"
    "lc_gen (snd (lc_restart l)) ?i = unat (lh_slot_generation h)"
    using i by (simp_all add: lc_restart_def lc_restart_loop_map lc_live_def lc_gen_def lc_restart_slot_def)
qed

text \<open>
  C19: An operation that is in flight when the service restarts is reported as restarted for as
  long as its handle is not reclaimed. From then on, through any sequence of calls (further
  restarts, reclaim and reuse of its slot included, up to \<open>2 ^ 64 - 2\<close> reclaims of that slot), the
  handle is never reported as in flight, completed or cancelled, and no late completion for it is
  accepted.
\<close>

theorem restarted_operation_never_completes:
  assumes "lc_step\<^sup>*\<^sup>* lifecycle_new l" and "lc_state l h = Some LcInFlight"
    and "retire_run lc_step (\<lambda>l. lc_gen l (unat (lh_slot h))) (snd (lc_restart l)) k u"
    and "k < 2 ^ 64 - 2"
  shows "lc_state u h = (if k = 0 then Some LcRestarted else None)
    \<and> \<not> fst (lc_complete u h service_epoch request_id)"
proof -
  let ?i = "unat (lh_slot h)" and ?l = "snd (lc_restart l)"
  note restarted = lc_restart_effect [OF assms(2)]
  have inv: "lc_inv ?l"
    using assms(1) lc_step_restart by (intro lc_inv_reachable) (rule rtranclp.rtrancl_into_rtrancl)
  have "lc_state u h = (if k = 0 then Some LcRestarted else None)"
  proof (cases "k = 0")
    case True
    with lc_run_keeps_slot [OF assms(3) restarted(1)] restarted show ?thesis
      by (auto simp: lc_state_def lc_live_def lc_gen_def slot_simps slice_get_def split: if_splits)
  next
    case False
    then have "lc_gen u ?i \<noteq> lc_gen ?l ?i"
      using assms(3,4) inv by (intro lifecycle_slots.stale_generation) auto
    then show ?thesis using lc_state_generation(2) [of u h] restarted(3) False by fastforce
  qed
  moreover from this have "\<not> fst (lc_complete u h service_epoch request_id)"
    using lc_complete_state [of u h service_epoch request_id] by (auto split: if_splits)
  ultimately show ?thesis by blast
qed

lemma lifecycle_new_slots:
  "lifecycle_new = \<lparr>lc_service_epoch = 1, lc_operations = [lc_slot_new, lc_slot_new]\<rparr>"
  by (simp add: lifecycle_new_def numeral_2_eq_2)

lemmas lc_eval = lifecycle_new_slots lc_slot_new_def lc_start_def lc_state_def slice_get_def
  lc_restart_def lc_restart_loop_map lc_restart_slot_def lc_complete_def lc_current_mut_def

theorem restarted_operation_never_completes_witness:
  "let l = snd (lc_start lifecycle_new 7);
       h = \<lparr>lh_slot = 0, lh_slot_generation = 1, lh_service_epoch = 1, lh_request_id = 7\<rparr>
   in lc_state l h = Some LcInFlight \<and> lc_state (snd (lc_restart l)) h = Some LcRestarted
      \<and> \<not> fst (lc_complete (snd (lc_restart l)) h 2 7)"
proof -
  let ?l = "snd (lc_start lifecycle_new 7)"
  let ?h = "\<lparr>lh_slot = 0, lh_slot_generation = 1, lh_service_epoch = 1, lh_request_id = 7\<rparr>"
  have reach: "lc_step\<^sup>*\<^sup>* lifecycle_new ?l" using lc_step_start by (rule r_into_rtranclp)
  have flying: "lc_state ?l ?h = Some LcInFlight" by (simp add: lc_eval)
  from restarted_operation_never_completes [OF reach flying run_refl, of 2 7] flying
  show ?thesis by (simp add: Let_def)
qed

text \<open>
  For a handle returned by \<open>start\<close>, completing with the handle's own epoch and request id
  succeeds exactly when the operation is still in flight, after any sequence of calls with fewer
  than \<open>2 ^ 64 - 1\<close> reclaims of its slot. So a service answers each live request at most once and
  is never refused for a request that is still open.
\<close>

theorem issued_handle_completes_iff_in_flight:
  assumes "lc_step\<^sup>*\<^sup>* lifecycle_new l" and "lc_start l q = (Ok h, l1)"
    and "retire_run lc_step (\<lambda>l. lc_gen l (unat (lh_slot h))) l1 k u" and "k < 2 ^ 64 - 1"
  shows "fst (lc_complete u h (lh_service_epoch h) (lh_request_id h)) \<longleftrightarrow> lc_state u h = Some LcInFlight"
proof
  assume fly: "lc_state u h = Some LcInFlight"
  let ?i = "unat (lh_slot h)"
  have inv: "lc_inv l" using assms(1) by (rule lc_inv_reachable)
  have inv1: "lc_inv l1"
    using lc_inv_moves [OF lc_start_moves [of l q] inv] assms(2) by simp
  have inv_u: "lc_inv u" using lifecycle_slots.run_wf_gen [OF assms(3) inv1] by blast
  have l1: "lc_live l1 ?i \<and> lc_gen l1 ?i = unat (lh_slot_generation h)
      \<and> ls_request_id (lc_operations l1 ! ?i) = lh_request_id h
      \<and> ls_service_epoch (lc_operations l1 ! ?i) = lh_service_epoch h"
  proof (cases q l rule: lc_start_cases)
    case (slot j)
    moreover have "j < 256" using slot(2) inv by (simp add: lc_inv_def)
    ultimately show ?thesis
      using assms(2) by (auto simp: lc_live_def lc_gen_def unat_of_nat_u8)
  qed (use assms(2) in simp_all)
  have "k = 0"
    using lifecycle_slots.stale_generation [OF inv1 assms(3)] assms(4) l1
      lc_state_generation(2) [of u h] fly by fastforce
  with lc_run_keeps_slot [OF assms(3)] l1
  have u: "ls_request_id (lc_operations u ! ?i) = lh_request_id h"
    "ls_service_epoch (lc_operations u ! ?i) = lh_service_epoch h" by auto
  from fly have slot: "?i < length (lc_operations u)" "ls_state (lc_operations u ! ?i) = LC_IN_FLIGHT"
    "ls_slot_generation (lc_operations u ! ?i) = lh_slot_generation h"
    by (auto simp: lc_state_def slice_get_def split: if_splits)
  then have "ls_service_epoch (lc_operations u ! ?i) = lc_service_epoch u"
    using inv_u by (simp add: lc_inv_def lc_slot_ok_def)
  with u slot show "fst (lc_complete u h (lh_service_epoch h) (lh_request_id h))"
    by (simp add: lc_complete_def lc_current_mut_def slice_get_def)
qed (rule lc_complete_state)

theorem issued_handle_completes_iff_in_flight_witness:
  "let l1 = snd (lc_start lifecycle_new 7);
       h = \<lparr>lh_slot = 0, lh_slot_generation = 1, lh_service_epoch = 1, lh_request_id = 7\<rparr>
   in fst (lc_complete l1 h 1 7) \<and> lc_state l1 h = Some LcInFlight"
proof -
  let ?l1 = "snd (lc_start lifecycle_new 7)"
  let ?h = "\<lparr>lh_slot = 0, lh_slot_generation = 1, lh_service_epoch = 1, lh_request_id = 7\<rparr>"
  have start: "lc_start lifecycle_new 7 = (Ok ?h, ?l1)" by (simp add: lc_eval)
  have flying: "lc_state ?l1 ?h = Some LcInFlight" by (simp add: lc_eval)
  with issued_handle_completes_iff_in_flight [OF rtranclp.rtrancl_refl start run_refl] show ?thesis
    by (simp add: Let_def)
qed

end
