(* ===== verification/Health_Service.thy ===== *)
theory Health_Service
  imports Service_Lifecycle Mailbox
begin

text \<open>
  The health service, \<open>src/health.rs\<close>: pings as operations of a \<open>ServiceLifecycle\<close>, driven
  through a one-command mailbox. The theory models every method of \<open>HealthService\<close>, shows that
  each of its steps is a step of the lifecycle below it, and what a restart reports.
\<close>

section \<open>Data\<close>

datatype ping_state = PingInFlight | PingStateCompleted | PingStateCancelled | PingStateRestarted

datatype health_error = HealthCapacity | HealthInvalidRequest | HealthStaleOperation

datatype ping_handle = PingHandle (ping_operation: lc_handle)

definition ping_request_id :: "ping_handle \<Rightarrow> u64" where
  "ping_request_id p = lh_request_id (ping_operation p)"

definition ping_service_epoch :: "ping_handle \<Rightarrow> u64" where
  "ping_service_epoch p = lh_service_epoch (ping_operation p)"

datatype health_command =
    HcPing u64
  | HcCompletePing ping_handle
  | HcCancelPing ping_handle
  | HcRestart
  | HcReclaim ping_handle

datatype health_command_error = HealthBusy

datatype health_response =
    HrPingAccepted ping_handle
  | HrPingCompleted ping_handle
  | HrPingCancelled ping_handle
  | HrRestarted usize
  | HrReclaimed ping_handle
  | HrRejected health_error

record health =
  hs_lifecycle :: lifecycle
  hs_command :: "health_command option"
  hs_response :: "health_response option"

definition health_new :: health where
  "health_new = \<lparr>hs_lifecycle = lifecycle_new, hs_command = None, hs_response = None\<rparr>"

section \<open>Operations\<close>

definition hs_start_ping :: "health \<Rightarrow> u64 \<Rightarrow> (health_error + ping_handle) \<times> health" where
  "hs_start_ping s request_id =
     (case lc_start (hs_lifecycle s) request_id of
        (Inr h, l) \<Rightarrow> (Ok (PingHandle h), s\<lparr>hs_lifecycle := l\<rparr>)
      | (Inl LcCapacity, l) \<Rightarrow> (Err HealthCapacity, s\<lparr>hs_lifecycle := l\<rparr>)
      | (Inl LcInvalidRequest, l) \<Rightarrow> (Err HealthInvalidRequest, s\<lparr>hs_lifecycle := l\<rparr>))"

fun ping_state_of :: "lc_operation_state \<Rightarrow> ping_state" where
  "ping_state_of LcInFlight = PingInFlight"
| "ping_state_of LcCompleted = PingStateCompleted"
| "ping_state_of LcCancelled = PingStateCancelled"
| "ping_state_of LcRestarted = PingStateRestarted"

definition hs_state :: "health \<Rightarrow> ping_handle \<Rightarrow> ping_state option" where
  "hs_state s p = map_option ping_state_of (lc_state (hs_lifecycle s) (ping_operation p))"

definition hs_complete_ping :: "health \<Rightarrow> ping_handle \<Rightarrow> bool \<times> health" where
  "hs_complete_ping s p =
     (case lc_complete (hs_lifecycle s) (ping_operation p) (ping_service_epoch p) (ping_request_id p) of
        (done, l) \<Rightarrow> (done, s\<lparr>hs_lifecycle := l\<rparr>))"

definition hs_cancel_ping :: "health \<Rightarrow> ping_handle \<Rightarrow> bool \<times> health" where
  "hs_cancel_ping s p =
     (case lc_cancel (hs_lifecycle s) (ping_operation p) of
        (done, l) \<Rightarrow> (done, s\<lparr>hs_lifecycle := l\<rparr>))"

definition hs_restart :: "health \<Rightarrow> usize \<times> health" where
  "hs_restart s =
     (case lc_restart (hs_lifecycle s) of (count, l) \<Rightarrow> (count, s\<lparr>hs_lifecycle := l\<rparr>))"

definition hs_reclaim_ping :: "health \<Rightarrow> ping_handle \<Rightarrow> bool \<times> health" where
  "hs_reclaim_ping s p =
     (case lc_reclaim (hs_lifecycle s) (ping_operation p) of
        (done, l) \<Rightarrow> (done, s\<lparr>hs_lifecycle := l\<rparr>))"

definition hs_submit :: "health \<Rightarrow> health_command \<Rightarrow> (health_command_error + unit) \<times> health" where
  "hs_submit s c =
     (if hs_command s \<noteq> None \<or> hs_response s \<noteq> None then (Err HealthBusy, s)
      else (Ok (), s\<lparr>hs_command := Some c\<rparr>))"

definition hs_execute :: "health \<Rightarrow> health_command \<Rightarrow> health_response \<times> health" where
  "hs_execute s c =
     (let answer = (\<lambda>(done, s') accepted.
            (if done then accepted else HrRejected HealthStaleOperation, s'))
      in case c of
        HcPing request_id \<Rightarrow>
          (case hs_start_ping s request_id of
             (Inr p, s') \<Rightarrow> (HrPingAccepted p, s')
           | (Inl e, s') \<Rightarrow> (HrRejected e, s'))
      | HcCompletePing p \<Rightarrow> answer (hs_complete_ping s p) (HrPingCompleted p)
      | HcCancelPing p \<Rightarrow> answer (hs_cancel_ping s p) (HrPingCancelled p)
      | HcRestart \<Rightarrow> (case hs_restart s of (count, s') \<Rightarrow> (HrRestarted count, s'))
      | HcReclaim p \<Rightarrow> answer (hs_reclaim_ping s p) (HrReclaimed p))"

definition hs_step :: "health \<Rightarrow> bool \<times> health" where
  "hs_step s =
     (case hs_command s of
        None \<Rightarrow> (False, s)
      | Some c \<Rightarrow>
          (case hs_execute (s\<lparr>hs_command := None\<rparr>) c of
             (answer, s') \<Rightarrow> (True, s'\<lparr>hs_response := Some answer\<rparr>)))"

definition hs_take_response :: "health \<Rightarrow> health_response option \<times> health" where
  "hs_take_response s = (hs_response s, s\<lparr>hs_response := None\<rparr>)"

lemmas hs_ping_ops =
  hs_start_ping_def hs_complete_ping_def hs_cancel_ping_def hs_restart_def hs_reclaim_ping_def

section \<open>The service runs on its lifecycle\<close>

lemma hs_execute_frame [simp]:
  "hs_command (snd (hs_execute s c)) = hs_command s"
  "hs_response (snd (hs_execute s c)) = hs_response s"
  by (cases c; auto simp: hs_execute_def hs_ping_ops Let_def
      split: prod.splits sum.splits lc_start_error.splits)+

interpretation health_mailbox:
  mailbox hs_command hs_response hs_submit hs_step hs_take_response HealthBusy
proof
  fix s :: health and c
  assume "hs_command s = Some c"
  then show "\<exists>s' x. hs_step s = (True, s') \<and> hs_command s' = None \<and> hs_response s' = Some x"
    by (simp add: hs_step_def case_prod_beta)
qed (auto simp: hs_submit_def hs_step_def hs_take_response_def)

lemma hs_execute_lifecycle:
  "lc_step (hs_lifecycle s) (hs_lifecycle (snd (hs_execute s c)))"
proof (cases c)
  case (HcPing q)
  then have "hs_lifecycle (snd (hs_execute s c)) = snd (lc_start (hs_lifecycle s) q)"
    by (auto simp: hs_execute_def hs_start_ping_def split: prod.splits sum.splits lc_start_error.splits)
  then show ?thesis by (simp add: lc_step_start)
qed (auto simp: hs_execute_def hs_ping_ops case_prod_beta intro: lc_step.intros)

inductive hs_op_step :: "health \<Rightarrow> health \<Rightarrow> bool" where
  hs_submits: "hs_op_step s (snd (hs_submit s c))"
| hs_steps: "hs_op_step s (snd (hs_step s))"
| hs_takes: "hs_op_step s (snd (hs_take_response s))"

lemma hs_op_step_lifecycle:
  "hs_op_step s t \<Longrightarrow> hs_lifecycle t = hs_lifecycle s \<or> lc_step (hs_lifecycle s) (hs_lifecycle t)"
proof (induction rule: hs_op_step.induct)
  case (hs_steps s)
  show ?case
    using hs_execute_lifecycle [of "s\<lparr>hs_command := None\<rparr>"]
    by (auto simp: hs_step_def case_prod_beta split: option.splits)
qed (auto simp: hs_submit_def hs_take_response_def)

lemma hs_reachable_lifecycle:
  assumes "hs_op_step\<^sup>*\<^sup>* health_new s"
  shows "lc_step\<^sup>*\<^sup>* lifecycle_new (hs_lifecycle s) \<and> health_mailbox.exclusive s"
  using assms
proof (induction rule: rtranclp_induct)
  case base
  show ?case by (simp add: health_new_def health_mailbox.exclusive_def)
next
  case (step s t)
  have "lc_step\<^sup>*\<^sup>* lifecycle_new (hs_lifecycle t)"
    using step.IH hs_op_step_lifecycle [OF step.hyps(2)] by (auto intro: rtranclp.rtrancl_into_rtrancl)
  moreover have "health_mailbox.exclusive t"
    using step.hyps(2) step.IH
    by cases (auto simp: health_mailbox.submit_exclusive health_mailbox.step_exclusive
        health_mailbox.take_exclusive)
  ultimately show ?case ..
qed

section \<open>Properties\<close>

lemma lc_restart_state:
  "lc_state (snd (lc_restart l)) h =
     map_option (\<lambda>st. if st = LcInFlight then LcRestarted else st) (lc_state l h)"
  by (auto simp: lc_state_def lc_restart_def lc_restart_loop_map lc_restart_slot_def slice_get_def)

text \<open>
  Executing a restart in any reachable health service reports the exact number of pings in
  flight; every such ping is then reported as restarted and its late completion is rejected as
  stale, while the outcome of every other ping is unchanged.
\<close>

theorem health_restart_outcomes:
  assumes "hs_op_step\<^sup>*\<^sup>* health_new s" and "hs_command s = Some HcRestart"
  shows "hs_response (snd (hs_step s)) = Some (HrRestarted (of_nat
      (card {i. i < length (lc_operations (hs_lifecycle s))
        \<and> ls_state (lc_operations (hs_lifecycle s) ! i) = LC_IN_FLIGHT})))
    \<and> hs_state (snd (hs_step s)) p =
        (case hs_state s p of Some PingInFlight \<Rightarrow> Some PingStateRestarted | x \<Rightarrow> x)
    \<and> fst (hs_execute (snd (hs_step s)) (HcCompletePing p)) = HrRejected HealthStaleOperation"
proof -
  let ?l = "hs_lifecycle s" and ?t = "snd (hs_step s)"
  have life: "hs_lifecycle ?t = snd (lc_restart ?l)"
    using assms(2) by (simp add: hs_step_def hs_execute_def hs_restart_def case_prod_beta)
  have count: "hs_response ?t = Some (HrRestarted (of_nat (card {i. i < length (lc_operations ?l)
      \<and> ls_state (lc_operations ?l ! i) = LC_IN_FLIGHT})))"
    using assms(2) by (simp add: hs_step_def hs_execute_def hs_restart_def case_prod_beta
        lc_restart_def lc_restart_loop_map length_filter_conv_card)
  have state: "hs_state ?t p = (case hs_state s p of Some PingInFlight \<Rightarrow> Some PingStateRestarted | x \<Rightarrow> x)"
  proof (cases "lc_state ?l (ping_operation p)")
    case (Some st)
    then show ?thesis by (cases st) (simp_all add: hs_state_def life lc_restart_state)
  qed (simp add: hs_state_def life lc_restart_state)
  have "lc_state (hs_lifecycle ?t) (ping_operation p) \<noteq> Some LcInFlight"
    by (auto simp: life lc_restart_state)
  then have "\<not> fst (hs_complete_ping ?t p)"
    using lc_complete_state by (auto simp: hs_complete_ping_def case_prod_beta)
  then have "fst (hs_execute ?t (HcCompletePing p)) = HrRejected HealthStaleOperation"
    by (simp add: hs_execute_def case_prod_beta)
  with count state show ?thesis by blast
qed

definition hs_exchange :: "health \<Rightarrow> health_command \<Rightarrow> health" where
  "hs_exchange s c = snd (hs_take_response (snd (hs_step (snd (hs_submit s c)))))"

lemma hs_reachable_intros:
  assumes "hs_op_step\<^sup>*\<^sup>* health_new s"
  shows "hs_op_step\<^sup>*\<^sup>* health_new (snd (hs_submit s c))"
    and "hs_op_step\<^sup>*\<^sup>* health_new (snd (hs_step s))"
    and "hs_op_step\<^sup>*\<^sup>* health_new (snd (hs_take_response s))"
  using assms hs_op_step.intros by (auto intro: rtranclp.rtrancl_into_rtrancl)

theorem health_restart_outcomes_witness:
  "let s = snd (hs_submit (hs_exchange health_new (HcPing 7)) HcRestart);
       p = PingHandle \<lparr>lh_slot = 0, lh_slot_generation = 1, lh_service_epoch = 1, lh_request_id = 7\<rparr>
   in hs_state s p = Some PingInFlight \<and> hs_response (snd (hs_step s)) = Some (HrRestarted 1)
      \<and> hs_state (snd (hs_step s)) p = Some PingStateRestarted"
proof -
  let ?s = "snd (hs_submit (hs_exchange health_new (HcPing 7)) HcRestart)"
  let ?p = "PingHandle \<lparr>lh_slot = 0, lh_slot_generation = 1, lh_service_epoch = 1, lh_request_id = 7\<rparr>"
  note eval = hs_exchange_def hs_submit_def hs_step_def hs_take_response_def hs_execute_def
    hs_start_ping_def health_new_def hs_state_def lc_eval
  have "hs_op_step\<^sup>*\<^sup>* health_new ?s"
    unfolding hs_exchange_def by (intro hs_reachable_intros rtranclp.rtrancl_refl)
  moreover have "hs_command ?s = Some HcRestart" by (simp add: eval)
  ultimately have outcome: "hs_response (snd (hs_step ?s)) = Some (HrRestarted (of_nat (length
        (filter (\<lambda>op. ls_state op = LC_IN_FLIGHT) (lc_operations (hs_lifecycle ?s))))))"
    "hs_state (snd (hs_step ?s)) ?p = (case hs_state ?s ?p of
        Some PingInFlight \<Rightarrow> Some PingStateRestarted | x \<Rightarrow> x)"
    using health_restart_outcomes [of ?s ?p] by (simp_all add: length_filter_conv_card)
  have flying: "hs_state ?s ?p = Some PingInFlight" by (simp add: eval)
  have "length (filter (\<lambda>op. ls_state op = LC_IN_FLIGHT) (lc_operations (hs_lifecycle ?s))) = 1"
    by (simp add: eval)
  with outcome flying show ?thesis by (simp add: Let_def)
qed

text \<open>
  The health mailbox loses nothing: in every reachable state an unread response survives any
  further submit (which is refused as busy) and any further step, and on an empty mailbox one
  submit, step and take delivers exactly one response and leaves the mailbox empty.
\<close>

theorem health_mailbox_lossless:
  assumes "hs_op_step\<^sup>*\<^sup>* health_new s"
  shows "case hs_response s of
      Some x \<Rightarrow> hs_submit s c = (Err HealthBusy, s) \<and> hs_response (snd (hs_step s)) = Some x
    | None \<Rightarrow> hs_command s = None \<longrightarrow>
        (\<exists>s1 s2 s3 x. hs_submit s c = (Ok (), s1) \<and> hs_step s1 = (True, s2)
          \<and> hs_take_response s2 = (Some x, s3) \<and> hs_command s3 = None \<and> hs_response s3 = None)"
proof (cases "hs_response s")
  case None
  then show ?thesis using health_mailbox.exchange [of s c] by simp
next
  case (Some x)
  have "health_mailbox.exclusive s" using hs_reachable_lifecycle [OF assms] by blast
  with Some show ?thesis
    using health_mailbox.unread_response_kept(2) [of s x] health_mailbox.submit_busy [of s c] by simp
qed

theorem health_mailbox_lossless_witness:
  "\<exists>s1 s2 s3 x. hs_submit health_new (HcPing 5) = (Ok (), s1) \<and> hs_step s1 = (True, s2)
     \<and> hs_take_response s2 = (Some x, s3) \<and> hs_command s3 = None \<and> hs_response s3 = None"
  using health_mailbox_lossless [OF rtranclp.rtrancl_refl, of "HcPing 5"] by (simp add: health_new_def)

end
