(* ===== verification/Wall_Time.thy ===== *)
theory Wall_Time
  imports LogOS_Prelude
begin

text \<open>
  The wall clock, \<open>abi/src/walltime.rs\<close>: the packed system-call form of a wall-clock reading,
  the decoding of the CMOS clock registers, and the advance of an anchor by elapsed seconds. The
  specification is the proleptic Gregorian calendar on natural numbers; the theory shows that
  packing loses nothing, that decoding inverts every encoding a clock chip may use and only
  yields valid dates, and that advancing adds exactly the elapsed seconds.
\<close>

section \<open>The code\<close>

record wall_time =
  wt_year :: u16
  wt_month :: u8
  wt_day :: u8
  wt_hour :: u8
  wt_minute :: u8
  wt_second :: u8

definition wt_pack :: "wall_time \<Rightarrow> u64" where
  "wt_pack w =
     push_bit 40 (ucast (wt_year w)) OR push_bit 32 (ucast (wt_month w))
     OR push_bit 24 (ucast (wt_day w)) OR push_bit 16 (ucast (wt_hour w))
     OR push_bit 8 (ucast (wt_minute w)) OR ucast (wt_second w)"

definition wt_unpack :: "u64 \<Rightarrow> wall_time" where
  "wt_unpack raw =
     \<lparr>wt_year = ucast (drop_bit 40 raw AND 0xffff), wt_month = ucast (drop_bit 32 raw AND 0xff),
      wt_day = ucast (drop_bit 24 raw AND 0xff), wt_hour = ucast (drop_bit 16 raw AND 0xff),
      wt_minute = ucast (drop_bit 8 raw AND 0xff), wt_second = ucast (raw AND 0xff)\<rparr>"

record rtc_registers =
  rtc_second :: u8
  rtc_minute :: u8
  rtc_hour :: u8
  rtc_day :: u8
  rtc_month :: u8
  rtc_year :: u8
  rtc_century :: "u8 option"
  rtc_status_b :: u8

abbreviation STATUS_B_BINARY :: u8 where "STATUS_B_BINARY \<equiv> 4"
abbreviation STATUS_B_24_HOUR :: u8 where "STATUS_B_24_HOUR \<equiv> 2"
abbreviation HOUR_PM_FLAG :: u8 where "HOUR_PM_FLAG \<equiv> 128"

definition bcd_to_binary :: "u8 \<Rightarrow> u8" where
  "bcd_to_binary value = (value AND 0x0f) + drop_bit 4 value * 10"

definition is_leap_year :: "u16 \<Rightarrow> bool" where
  "is_leap_year year \<longleftrightarrow> year mod 4 = 0 \<and> year mod 100 \<noteq> 0 \<or> year mod 400 = 0"

definition days_in_month :: "u16 \<Rightarrow> u8 \<Rightarrow> u8" where
  "days_in_month year month =
     (if month \<in> {1, 3, 5, 7, 8, 10, 12} then 31
      else if month \<in> {4, 6, 9, 11} then 30
      else if month = 2 then (if is_leap_year year then 29 else 28)
      else 0)"

definition decode_rtc :: "rtc_registers \<Rightarrow> wall_time option" where
  "decode_rtc raw =
     (let binary = rtc_status_b raw AND STATUS_B_BINARY \<noteq> 0;
          is_24_hour = rtc_status_b raw AND STATUS_B_24_HOUR \<noteq> 0;
          field = (\<lambda>value. if binary then value else bcd_to_binary value);
          second = field (rtc_second raw); minute = field (rtc_minute raw);
          day = field (rtc_day raw); month = field (rtc_month raw); year_low = field (rtc_year raw);
          pm = rtc_hour raw AND HOUR_PM_FLAG \<noteq> 0;
          hour_field = rtc_hour raw AND NOT HOUR_PM_FLAG;
          hour_value = field hour_field;
          hour = (if is_24_hour then hour_value
                  else if hour_value = 12 then (if pm then 12 else 0)
                  else if pm then hour_value + 12 else hour_value);
          century = map_option field (rtc_century raw);
          year = (case century of
                    Some c \<Rightarrow> (ucast c :: u16) * 100 + ucast year_low
                  | None \<Rightarrow> 2000 + ucast year_low)
      in if \<not> (1 \<le> month \<and> month \<le> 12) then None
         else if day < 1 \<or> day > days_in_month year month then None
         else if hour > 23 \<or> minute > 59 \<or> second > 59 then None
         else Some \<lparr>wt_year = year, wt_month = month, wt_day = day,
                    wt_hour = hour, wt_minute = minute, wt_second = second\<rparr>)"

text \<open>The body of the day loop of \<open>advance_wall_time\<close>, and the loop on its counter.\<close>

definition advance_day :: "u16 \<times> u8 \<times> u8 \<Rightarrow> u16 \<times> u8 \<times> u8" where
  "advance_day = (\<lambda>(year, month, day).
     let day = day + 1
     in if day > days_in_month year month
        then let month = month + 1
             in if month > 12 then (saturating_add year 1, 1, 1) else (year, month, 1)
        else (year, month, day))"

primrec advance_days :: "nat \<Rightarrow> u16 \<times> u8 \<times> u8 \<Rightarrow> u16 \<times> u8 \<times> u8" where
  "advance_days 0 date = date"
| "advance_days (Suc remaining_days) date = advance_days remaining_days (advance_day date)"

definition advance_wall_time :: "wall_time \<Rightarrow> u64 \<Rightarrow> wall_time" where
  "advance_wall_time base elapsed_seconds =
     (let total = ucast (wt_hour base) * 3600 + ucast (wt_minute base) * 60
                    + ucast (wt_second base) + elapsed_seconds;
          elapsed_days = total div 86400;
          total = total mod 86400
      in case advance_days (unat elapsed_days) (wt_year base, wt_month base, wt_day base) of
           (year, month, day) \<Rightarrow>
             \<lparr>wt_year = year, wt_month = month, wt_day = day,
              wt_hour = ucast (total div 3600), wt_minute = ucast ((total mod 3600) div 60),
              wt_second = ucast (total mod 60)\<rparr>)"

section \<open>The calendar\<close>

definition leap :: "nat \<Rightarrow> bool" where
  "leap y \<longleftrightarrow> y mod 4 = 0 \<and> y mod 100 \<noteq> 0 \<or> y mod 400 = 0"

definition month_days :: "nat \<Rightarrow> nat \<Rightarrow> nat" where
  "month_days y m = (if m = 2 then if leap y then 29 else 28
     else if m = 4 \<or> m = 6 \<or> m = 9 \<or> m = 11 then 30 else 31)"

primrec days_before_year :: "nat \<Rightarrow> nat" where
  "days_before_year 0 = 0"
| "days_before_year (Suc y) = days_before_year y + (if leap y then 366 else 365)"

primrec days_before_month :: "nat \<Rightarrow> nat \<Rightarrow> nat" where
  "days_before_month y 0 = 0"
| "days_before_month y (Suc m) = days_before_month y m + (if m = 0 then 0 else month_days y m)"

definition day_number :: "u16 \<times> u8 \<times> u8 \<Rightarrow> nat" where
  "day_number = (\<lambda>(y, m, d).
     days_before_year (unat y) + days_before_month (unat y) (unat m) + (unat d - 1))"

definition valid_date :: "u16 \<times> u8 \<times> u8 \<Rightarrow> bool" where
  "valid_date = (\<lambda>(y, m, d). 1 \<le> unat m \<and> unat m \<le> 12 \<and> 1 \<le> unat d
     \<and> unat d \<le> month_days (unat y) (unat m))"

definition wt_date :: "wall_time \<Rightarrow> u16 \<times> u8 \<times> u8" where
  "wt_date w = (wt_year w, wt_month w, wt_day w)"

definition wt_valid :: "wall_time \<Rightarrow> bool" where
  "wt_valid w \<longleftrightarrow> valid_date (wt_date w) \<and> unat (wt_hour w) < 24 \<and> unat (wt_minute w) < 60
     \<and> unat (wt_second w) < 60"

definition wt_seconds :: "wall_time \<Rightarrow> nat" where
  "wt_seconds w = day_number (wt_date w) * 86400 + unat (wt_hour w) * 3600
     + unat (wt_minute w) * 60 + unat (wt_second w)"

section \<open>The date arithmetic of the code is the calendar's\<close>

lemma is_leap_year_leap: "is_leap_year y \<longleftrightarrow> leap (unat y)"
  by (simp add: is_leap_year_def leap_def unat_mod flip: unat_eq_0)

lemma month_cases:
  assumes "1 \<le> unat (m :: u8)" and "unat m \<le> 12"
  obtains "m = 1" | "m = 2" | "m = 3" | "m = 4" | "m = 5" | "m = 6" | "m = 7" | "m = 8" | "m = 9"
    | "m = 10" | "m = 11" | "m = 12"
proof -
  have "unat m = 1 \<or> unat m = 2 \<or> unat m = 3 \<or> unat m = 4 \<or> unat m = 5 \<or> unat m = 6
      \<or> unat m = 7 \<or> unat m = 8 \<or> unat m = 9 \<or> unat m = 10 \<or> unat m = 11 \<or> unat m = 12"
    using assms by presburger
  then show thesis
    using that by (auto dest!: arg_cong [of "unat _" _ "of_nat :: nat \<Rightarrow> u8"])
qed

lemma unat_days_in_month:
  assumes "1 \<le> unat m" and "unat m \<le> 12"
  shows "unat (days_in_month y m) = month_days (unat y) (unat m)"
  using assms by (rule month_cases) (simp_all add: days_in_month_def month_days_def is_leap_year_leap)

lemma month_days_range: "28 \<le> month_days y m" "month_days y m \<le> 31"
  by (simp_all add: month_days_def)

lemma days_before_month_13: "days_before_month y 13 = (if leap y then 366 else 365)"
  by (simp add: eval_nat_numeral month_days_def)

lemma days_before_year_bounds: "365 * y \<le> days_before_year y" "days_before_year y \<le> 366 * y"
  by (induction y) simp_all

lemma day_number_bound:
  assumes "valid_date (y, m, d)"
  shows "day_number (y, m, d) < days_before_year (unat y + 1)"
proof -
  have le: "days_before_month z a \<le> days_before_month z b" if "a \<le> b" for z a b
    using that by (induction rule: dec_induct) simp_all
  have m: "1 \<le> unat m" "unat m \<le> 12" and d: "1 \<le> unat d" "unat d \<le> month_days (unat y) (unat m)"
    using assms by (simp_all add: valid_date_def)
  have "days_before_month (unat y) (unat m) + (unat d - 1) < days_before_month (unat y) (Suc (unat m))"
    using m d by simp
  also have "\<dots> \<le> days_before_month (unat y) 13" using m by (intro le) simp
  finally show ?thesis by (simp add: day_number_def days_before_month_13)
qed

lemma valid_date_fields:
  assumes "valid_date (y, m, d)"
  shows "unat (days_in_month y m) = month_days (unat y) (unat m)" "unat (d + 1) = unat d + 1"
    "unat (m + 1) = unat m + 1"
proof -
  have m: "1 \<le> unat m" "unat m \<le> 12" and d: "unat d \<le> month_days (unat y) (unat m)"
    using assms by (simp_all add: valid_date_def)
  show "unat (days_in_month y m) = month_days (unat y) (unat m)" using m by (rule unat_days_in_month)
  have "unat d \<le> 31" using d month_days_range(2) by (rule order_trans)
  then show "unat (d + 1) = unat d + 1" by (simp add: unat_add_no_overflow)
  show "unat (m + 1) = unat m + 1" using m by (simp add: unat_add_no_overflow)
qed

lemma advance_day_next:
  assumes valid: "valid_date date" and room: "day_number date + 1 < days_before_year 65536"
  shows "valid_date (advance_day date) \<and> day_number (advance_day date) = day_number date + 1"
proof -
  obtain y m d where date: "date = (y, m, d)" by (cases date)
  have m: "1 \<le> unat m" "unat m \<le> 12" and d: "1 \<le> unat d" "unat d \<le> month_days (unat y) (unat m)"
    using valid by (simp_all add: date valid_date_def)
  note fields = valid_date_fields [OF valid [unfolded date]]
  consider (within) "unat d < month_days (unat y) (unat m)"
    | (month) "unat d = month_days (unat y) (unat m)" "unat m < 12"
    | (year) "unat d = month_days (unat y) (unat m)" "unat m = 12"
    using m d by linarith
  then show ?thesis
  proof cases
    case within
    then have "advance_day date = (y, m, d + 1)"
      using fields by (simp add: date advance_day_def word_less_nat_alt)
    then show ?thesis using within m d fields by (simp add: date valid_date_def day_number_def)
  next
    case month
    then have "advance_day date = (y, m + 1, 1)"
      using fields by (simp add: date advance_day_def word_less_nat_alt)
    then show ?thesis
      using month m d fields month_days_range(1) [of "unat y" "unat m + 1"]
      by (simp add: date valid_date_def day_number_def)
  next
    case year
    have "days_before_month (unat y) 12 + month_days (unat y) 12 = (if leap (unat y) then 366 else 365)"
      using days_before_month_13 [of "unat y"] by (simp add: eval_nat_numeral)
    then have number: "day_number date + 1 = days_before_year (unat y + 1)"
      using year d by (simp add: date day_number_def)
    have "unat y + 1 \<noteq> 65536"
    proof
      assume "unat y + 1 = 65536"
      with number have "day_number date + 1 = days_before_year 65536" by (simp only:)
      with room show False by simp
    qed
    moreover have "unat y < 65536" using unsigned_less [of y] by simp
    ultimately have y: "unat (saturating_add y 1) = unat y + 1"
      by (simp add: saturating_add_unat)
    have "advance_day date = (saturating_add y 1, 1, 1)"
      using year fields by (simp add: date advance_day_def word_less_nat_alt)
    then show ?thesis
      using y number month_days_range(1) [of "unat y + 1" 1] by (simp add: valid_date_def day_number_def)
  qed
qed

lemma advance_days_number:
  "\<lbrakk>valid_date date; day_number date + n < days_before_year 65536\<rbrakk> \<Longrightarrow>
     valid_date (advance_days n date) \<and> day_number (advance_days n date) = day_number date + n"
proof (induction n arbitrary: date)
  case (Suc n)
  then have "valid_date (advance_day date) \<and> day_number (advance_day date) = day_number date + 1"
    by (intro advance_day_next) simp_all
  with Suc.IH [of "advance_day date"] Suc.prems show ?case by simp
qed simp

lemma clock_split: "x div 3600 * 3600 + x mod 3600 div 60 * 60 + x mod 60 = (x :: nat)"
proof -
  have "x mod 60 = x mod 3600 mod 60" by (simp add: mod_mod_cancel)
  then show ?thesis
    using div_mult_mod_eq [of x 3600] div_mult_mod_eq [of "x mod 3600" 60] by linarith
qed

lemma seconds_sum:
  assumes "a * 3600 + b * 60 + c = r" and "q * 86400 + r = h * 3600 + m * 60 + s + (e :: nat)"
  shows "(n + q) * 86400 + a * 3600 + b * 60 + c = n * 86400 + h * 3600 + m * 60 + s + e"
  using assms by simp

lemma advance_wall_time_exact:
  assumes valid: "wt_valid w" and room: "wt_seconds w + unat e < days_before_year 65536 * 86400"
  shows "wt_valid (advance_wall_time w e)"
    and "wt_seconds (advance_wall_time w e) = wt_seconds w + unat e"
proof -
  let ?clock = "unat (wt_hour w) * 3600 + unat (wt_minute w) * 60 + unat (wt_second w)"
  define total :: u64 where "total = ucast (wt_hour w) * 3600 + ucast (wt_minute w) * 60
      + ucast (wt_second w) + e"
  have clock: "?clock < 86400" using valid by (simp add: wt_valid_def)
  have "days_before_year 65536 \<le> 366 * 65536" by (rule days_before_year_bounds)
  then have small: "?clock + unat e < 2 ^ 64"
    using room by (simp add: wt_seconds_def)
  have total: "unat total = ?clock + unat e"
    using small valid
    by (simp add: total_def wt_valid_def unat_word_ariths unat_ucast_up)
  let ?date = "advance_days (unat (total div 86400)) (wt_date w)"
  have days: "unat (total div 86400) = (?clock + unat e) div 86400"
    by (simp add: unat_div total)
  have "day_number (wt_date w) + (?clock + unat e) div 86400 < days_before_year 65536"
    using room by (simp add: wt_seconds_def less_mult_imp_div_less flip: div_mult_self4)
  then have date: "valid_date ?date"
    "day_number ?date = day_number (wt_date w) + (?clock + unat e) div 86400"
    using advance_days_number [of "wt_date w" "unat (total div 86400)"] valid
    by (simp_all add: days wt_valid_def)
  let ?rest = "(?clock + unat e) mod 86400"
  have result: "wt_date (advance_wall_time w e) = ?date"
    "unat (wt_hour (advance_wall_time w e)) = ?rest div 3600"
    "unat (wt_minute (advance_wall_time w e)) = ?rest mod 3600 div 60"
    "unat (wt_second (advance_wall_time w e)) = ?rest mod 60"
    by (simp_all add: advance_wall_time_def Let_def wt_date_def case_prod_beta unat_ucast unat_div
        unat_mod total flip: total_def)
  have "?rest div 3600 < 24" "?rest mod 3600 div 60 < 60"
    by (simp_all add: less_mult_imp_div_less)
  with result show "wt_valid (advance_wall_time w e)" using date(1) by (simp add: wt_valid_def)
  have "?rest div 3600 * 3600 + ?rest mod 3600 div 60 * 60 + ?rest mod 60 = ?rest"
    by (rule clock_split)
  then show "wt_seconds (advance_wall_time w e) = wt_seconds w + unat e"
    unfolding wt_seconds_def result date(2)
    by (rule seconds_sum) (rule div_mult_mod_eq)
qed

section \<open>A reading is determined by its seconds\<close>

lemma days_before_month_mono: "a \<le> b \<Longrightarrow> days_before_month y a \<le> days_before_month y b"
  by (induction rule: dec_induct) simp_all

lemma days_before_year_mono: "a \<le> b \<Longrightarrow> days_before_year a \<le> days_before_year b"
  by (induction rule: dec_induct) simp_all

lemma month_unique:
  assumes "days_before_month y m + d = days_before_month y m' + d'"
    and "1 \<le> m" and "1 \<le> m'" and "d < month_days y m" and "d' < month_days y m'"
  shows "m = m' \<and> d = d'"
proof -
  have step: "days_before_month y a + month_days y a \<le> days_before_month y b" if "1 \<le> a" "a < b" for a b
    using days_before_month_mono [of "Suc a" b y] that by simp
  from assms have "m = m'" using step [of m m'] step [of m' m] by (cases m m' rule: linorder_cases) auto
  with assms show ?thesis by simp
qed

lemma day_number_inj:
  assumes "valid_date (y, m, d)" and "valid_date (y', m', d')"
    and eq: "day_number (y, m, d) = day_number (y', m', d')"
  shows "(y, m, d) = (y', m', d')"
proof -
  have year: "days_before_year (unat z) \<le> day_number (z, a, b)" for z a b
    by (simp add: day_number_def)
  have step: "days_before_year (unat z + 1) \<le> days_before_year (unat z')" if "unat z < unat z'" for z z' :: u16
    using that by (intro days_before_year_mono) simp
  have "unat y = unat y'"
    using day_number_bound [OF assms(1)] day_number_bound [OF assms(2)] eq
      year [of y m d] year [of y' m' d'] step [of y y'] step [of y' y]
    by (cases "unat y" "unat y'" rule: linorder_cases) auto
  then have "y = y'" by (simp add: slot_simps)
  moreover have "unat m = unat m' \<and> unat d - 1 = unat d' - 1"
    using assms \<open>y = y'\<close> by (intro month_unique [where y = "unat y"]) (auto simp: day_number_def valid_date_def)
  moreover have "1 \<le> unat d" "1 \<le> unat d'" using assms(1,2) by (simp_all add: valid_date_def)
  ultimately have "unat m = unat m'" "unat d = unat d'" by linarith+
  with \<open>y = y'\<close> show ?thesis by (simp add: slot_simps)
qed

lemma clock_fields:
  assumes "m < 60" and "s < (60 :: nat)"
  shows "(h * 3600 + m * 60 + s) div 3600 = h" "(h * 3600 + m * 60 + s) mod 3600 div 60 = m"
    "(h * 3600 + m * 60 + s) mod 60 = s"
proof -
  show h: "(h * 3600 + m * 60 + s) div 3600 = h"
    using assms by (intro div_nat_eqI) simp_all
  have "(h * 3600 + m * 60 + s) mod 3600 = m * 60 + s"
    using assms div_mult_mod_eq [of "h * 3600 + m * 60 + s" 3600] h by simp
  then show "(h * 3600 + m * 60 + s) mod 3600 div 60 = m"
    using assms by (simp add: div_nat_eqI)
  have "h * 3600 + m * 60 + s = s + (h * 60 + m) * 60" by simp
  then show "(h * 3600 + m * 60 + s) mod 60 = s"
    using assms by (simp only: mod_mult_self1 mod_less)
qed

lemma clock_unique:
  assumes "h * 3600 + m * 60 + s = h' * 3600 + m' * 60 + (s' :: nat)"
    and "m < 60" and "s < 60" and "m' < 60" and "s' < 60"
  shows "h = h' \<and> m = m' \<and> s = s'"
  using clock_fields [OF assms(2,3), of h] clock_fields [OF assms(4,5), of h'] assms(1) by metis

lemma wt_seconds_inj:
  assumes "wt_valid v" and "wt_valid w" and eq: "wt_seconds v = wt_seconds w"
  shows "v = w"
proof -
  define clock where "clock = (\<lambda>w :: wall_time. unat (wt_hour w) * 3600 + unat (wt_minute w) * 60 + unat (wt_second w))"
  have seconds: "wt_seconds w = day_number (wt_date w) * 86400 + clock w" for w
    by (simp add: wt_seconds_def clock_def)
  have clock: "clock v < 86400" "clock w < 86400"
    using assms(1,2) by (simp_all add: wt_valid_def clock_def)
  have "day_number (wt_date v) = wt_seconds v div 86400" "day_number (wt_date w) = wt_seconds w div 86400"
    "clock v = wt_seconds v mod 86400" "clock w = wt_seconds w mod 86400"
    using clock by (simp_all add: seconds)
  then have "day_number (wt_date v) = day_number (wt_date w)" and same: "clock v = clock w"
    using eq by simp_all
  then have date: "wt_date v = wt_date w"
    using assms(1,2) unfolding wt_date_def wt_valid_def by (intro day_number_inj) auto
  have "unat (wt_hour v) = unat (wt_hour w) \<and> unat (wt_minute v) = unat (wt_minute w)
      \<and> unat (wt_second v) = unat (wt_second w)"
    using same assms(1,2) unfolding clock_def wt_valid_def by (intro clock_unique) auto
  with date show ?thesis by (cases v, cases w) (simp add: wt_date_def slot_simps)
qed

section \<open>Encodings of the clock registers\<close>

text \<open>
  What a clock chip stores for a reading: each field in binary or in packed decimal, the hour in
  24-hour or in 12-hour form with the afternoon flag, as its status register announces.
\<close>

definition to_bcd :: "nat \<Rightarrow> u8" where
  "to_bcd n = of_nat (n div 10 * 16 + n mod 10)"

definition encode_rtc :: "bool \<Rightarrow> bool \<Rightarrow> wall_time \<Rightarrow> rtc_registers" where
  "encode_rtc binary is_24_hour w =
     (let field = (\<lambda>n. if binary then of_nat n else to_bcd n);
          hour = unat (wt_hour w);
          hour12 = (if hour mod 12 = 0 then 12 else hour mod 12)
      in \<lparr>rtc_second = field (unat (wt_second w)), rtc_minute = field (unat (wt_minute w)),
          rtc_hour = (if is_24_hour then field hour
                      else if hour < 12 then field hour12 else field hour12 OR HOUR_PM_FLAG),
          rtc_day = field (unat (wt_day w)), rtc_month = field (unat (wt_month w)),
          rtc_year = field (unat (wt_year w) mod 100),
          rtc_century = Some (field (unat (wt_year w) div 100)),
          rtc_status_b = (if binary then STATUS_B_BINARY else 0) OR (if is_24_hour then STATUS_B_24_HOUR else 0)\<rparr>)"

lemma bcd_round_trip:
  assumes "n < 100"
  shows "bcd_to_binary (to_bcd n) = of_nat n"
proof -
  have "\<forall>n \<in> set [0..<100]. bcd_to_binary (to_bcd n) = of_nat n" by code_simp
  with assms show ?thesis by simp
qed

definition decode_hour :: "bool \<Rightarrow> bool \<Rightarrow> u8 \<Rightarrow> u8" where
  "decode_hour binary is_24_hour raw =
     (let value = (if binary then raw AND NOT HOUR_PM_FLAG else bcd_to_binary (raw AND NOT HOUR_PM_FLAG));
          pm = raw AND HOUR_PM_FLAG \<noteq> 0
      in if is_24_hour then value else if value = 12 then (if pm then 12 else 0)
         else if pm then value + 12 else value)"

lemma hour_round_trip:
  assumes "h < 24"
  shows "decode_hour binary is_24_hour (rtc_hour (encode_rtc binary is_24_hour (w\<lparr>wt_hour := of_nat h\<rparr>)))
    = of_nat h"
proof -
  have *: "\<forall>b \<in> set [True, False]. \<forall>t \<in> set [True, False]. \<forall>h \<in> set [0..<24].
      decode_hour b t (let field = (\<lambda>n. if b then of_nat n else to_bcd n);
          h12 = (if h mod 12 = 0 then 12 else h mod 12)
        in if t then field h else if h < 12 then field h12 else field h12 OR HOUR_PM_FLAG) = of_nat h"
    by code_simp
  show ?thesis
    using assms bspec [OF bspec [OF bspec [OF *, of binary], of is_24_hour], of h]
    by (simp add: encode_rtc_def Let_def unat_of_nat_u8)
qed

definition rtc_check :: "u16 \<Rightarrow> u8 \<Rightarrow> u8 \<Rightarrow> u8 \<Rightarrow> u8 \<Rightarrow> u8 \<Rightarrow> wall_time option" where
  "rtc_check year month day hour minute second =
     (if \<not> (1 \<le> month \<and> month \<le> 12) then None
      else if day < 1 \<or> day > days_in_month year month then None
      else if hour > 23 \<or> minute > 59 \<or> second > 59 then None
      else Some \<lparr>wt_year = year, wt_month = month, wt_day = day,
                 wt_hour = hour, wt_minute = minute, wt_second = second\<rparr>)"

lemma decode_rtc_check:
  "decode_rtc raw =
     (let binary = rtc_status_b raw AND STATUS_B_BINARY \<noteq> 0;
          is_24_hour = rtc_status_b raw AND STATUS_B_24_HOUR \<noteq> 0;
          field = (\<lambda>value. if binary then value else bcd_to_binary value)
      in rtc_check (case rtc_century raw of
             Some c \<Rightarrow> ucast (field c) * 100 + ucast (field (rtc_year raw))
           | None \<Rightarrow> 2000 + ucast (field (rtc_year raw)))
           (field (rtc_month raw)) (field (rtc_day raw)) (decode_hour binary is_24_hour (rtc_hour raw))
           (field (rtc_minute raw)) (field (rtc_second raw)))"
  unfolding decode_rtc_def decode_hour_def rtc_check_def Let_def
  by (cases "rtc_century raw") (simp_all only: option.map option.case)

lemma valid_date_words:
  "valid_date (y, m, d) \<longleftrightarrow> 1 \<le> m \<and> m \<le> 12 \<and> 1 \<le> d \<and> d \<le> days_in_month y m"
  by (auto simp: valid_date_def word_le_nat_alt unat_days_in_month)

lemma rtc_check_Some:
  "rtc_check y m d h mi s = Some w \<longleftrightarrow>
     w = \<lparr>wt_year = y, wt_month = m, wt_day = d, wt_hour = h, wt_minute = mi, wt_second = s\<rparr>
     \<and> wt_valid w"
  by (auto simp: rtc_check_def wt_valid_def wt_date_def valid_date_words not_le not_less
      word_less_nat_alt word_le_nat_alt)

lemma year_digits:
  fixes y :: u16
  assumes "unat y div 100 < 256"
  shows "ucast (of_nat (unat y div 100) :: u8) * 100 + ucast (of_nat (unat y mod 100) :: u8) = y"
proof -
  have cast: "ucast (of_nat n :: u8) = (of_nat n :: u16)" if "n < 256" for n
    using that by (simp add: unat_ucast unat_of_nat word_unat_eq_iff)
  have "(of_nat (unat y div 100) :: u16) * 100 + of_nat (unat y mod 100) = of_nat (unat y div 100 * 100 + unat y mod 100)"
    by (simp only: of_nat_add of_nat_mult of_nat_numeral)
  with assms show ?thesis by (simp add: cast)
qed

section \<open>Properties\<close>

text \<open>
  Packing a wall-clock reading into the \<open>u64\<close> the system call returns and unpacking it again
  gives the same reading, for every value of every field.
\<close>

theorem wt_unpack_pack: "wt_unpack (wt_pack w) = w"
proof -
  have masks: "(0xffff :: u64) = mask 16" "(0xff :: u64) = mask 8"
    by (simp_all add: mask_eq_exp_minus_1)
  show ?thesis
    unfolding wt_unpack_def wt_pack_def masks
    by (cases w) (auto simp: bit_eq_iff bit_simps dest: bit_imp_le_length)
qed

text \<open>
  The clock decoder inverts the clock chip: for every valid reading and each of the four
  register formats (binary or packed decimal, 24-hour or 12-hour with the afternoon flag), decoding
  the registers that hold the reading gives the reading. The century must fit its register: below
  100 in packed decimal, below 256 in binary.
\<close>

theorem decode_rtc_inverts_encoding:
  assumes "wt_valid w" and "unat (wt_year w) div 100 < (if binary then 256 else 100)"
  shows "decode_rtc (encode_rtc binary is_24_hour w) = Some w"
proof -
  let ?field = "\<lambda>value. if binary then value else bcd_to_binary value"
  let ?raw = "encode_rtc binary is_24_hour w"
  have status: "(rtc_status_b ?raw AND STATUS_B_BINARY \<noteq> 0) = binary"
    "(rtc_status_b ?raw AND STATUS_B_24_HOUR \<noteq> 0) = is_24_hour"
    by (simp_all add: encode_rtc_def Let_def)
  have "unat (wt_day w) \<le> 31" "unat (wt_month w) \<le> 12"
    using assms(1) order_trans [OF _ month_days_range(2)] by (auto simp: wt_valid_def wt_date_def valid_date_def)
  then have fields: "?field (rtc_second ?raw) = wt_second w" "?field (rtc_minute ?raw) = wt_minute w"
    "?field (rtc_day ?raw) = wt_day w" "?field (rtc_month ?raw) = wt_month w"
    using assms(1) by (simp_all add: encode_rtc_def Let_def wt_valid_def bcd_round_trip)
  have "wt_valid w \<Longrightarrow> decode_hour binary is_24_hour (rtc_hour ?raw) = wt_hour w"
    using hour_round_trip [of "unat (wt_hour w)" binary is_24_hour w] by (simp add: wt_valid_def)
  then have hour: "decode_hour binary is_24_hour (rtc_hour ?raw) = wt_hour w" using assms(1) .
  have "?field (rtc_year ?raw) = of_nat (unat (wt_year w) mod 100)"
    by (simp add: encode_rtc_def Let_def bcd_round_trip)
  moreover have "map_option ?field (rtc_century ?raw) = Some (of_nat (unat (wt_year w) div 100))"
    using assms(2) by (cases binary) (simp_all add: encode_rtc_def Let_def bcd_round_trip)
  moreover have "ucast (of_nat (unat (wt_year w) div 100) :: u8) * 100
      + ucast (of_nat (unat (wt_year w) mod 100) :: u8) = wt_year w"
    using assms(2) by (intro year_digits) (simp split: if_splits)
  ultimately have year: "(case rtc_century ?raw of
        Some c \<Rightarrow> ucast (?field c) * 100 + ucast (?field (rtc_year ?raw))
      | None \<Rightarrow> 2000 + ucast (?field (rtc_year ?raw))) = wt_year w"
    by (auto split: option.splits)
  have "decode_rtc ?raw
      = rtc_check (wt_year w) (wt_month w) (wt_day w) (wt_hour w) (wt_minute w) (wt_second w)"
    unfolding decode_rtc_check Let_def status fields hour year ..
  with assms(1) show ?thesis by (simp add: rtc_check_Some)
qed

theorem decode_rtc_inverts_encoding_witness:
  "decode_rtc (encode_rtc False False \<lparr>wt_year = 2024, wt_month = 2, wt_day = 29,
      wt_hour = 12, wt_minute = 30, wt_second = 59\<rparr>)
    = Some \<lparr>wt_year = 2024, wt_month = 2, wt_day = 29, wt_hour = 12, wt_minute = 30, wt_second = 59\<rparr>"
  by (rule decode_rtc_inverts_encoding)
    (simp_all add: wt_valid_def wt_date_def valid_date_def month_days_def leap_def)

text \<open>
  Whatever the clock registers hold, a decoded reading is a valid date and time of the
  Gregorian calendar: the month and the day exist, leap years included, and the clock is in range.
\<close>

theorem decode_rtc_valid:
  assumes "decode_rtc raw = Some w"
  shows "wt_valid w"
proof -
  from assms obtain y m d h mi s where "rtc_check y m d h mi s = Some w"
    unfolding decode_rtc_check Let_def by blast
  then show ?thesis unfolding rtc_check_Some by blast
qed

theorem decode_rtc_valid_witness:
  "wt_valid \<lparr>wt_year = 2026, wt_month = 7, wt_day = 23, wt_hour = 23, wt_minute = 45, wt_second = 9\<rparr>"
  by (rule decode_rtc_valid [of "\<lparr>rtc_second = 0x09, rtc_minute = 0x45, rtc_hour = 0x23, rtc_day = 0x23,
        rtc_month = 0x07, rtc_year = 0x26, rtc_century = None, rtc_status_b = 2\<rparr>"]) code_simp

text \<open>
  C32: Advancing a valid reading by a number of elapsed seconds gives the one valid reading that
  lies exactly that many seconds later in the Gregorian calendar, across minute, hour, day, month,
  leap-day and year boundaries, for every result before the year 65536 (where the year field ends).
\<close>

theorem advance_wall_time_is_addition:
  assumes "wt_valid w" and "wt_seconds w + unat e < days_before_year 65536 * 86400"
  shows "wt_valid v \<and> wt_seconds v = wt_seconds w + unat e \<longleftrightarrow> v = advance_wall_time w e"
  using advance_wall_time_exact [OF assms] wt_seconds_inj by metis

theorem advance_wall_time_is_addition_witness:
  "wt_seconds (advance_wall_time
      \<lparr>wt_year = 2024, wt_month = 2, wt_day = 28, wt_hour = 23, wt_minute = 59, wt_second = 59\<rparr> 86401)
    = wt_seconds \<lparr>wt_year = 2024, wt_month = 2, wt_day = 28, wt_hour = 23, wt_minute = 59, wt_second = 59\<rparr>
      + 86401"
proof -
  let ?w = "\<lparr>wt_year = 2024, wt_month = 2, wt_day = 28, wt_hour = 23, wt_minute = 59, wt_second = 59\<rparr>"
  have valid: "wt_valid ?w"
    by (simp add: wt_valid_def wt_date_def valid_date_def month_days_def leap_def)
  have "days_before_year 2024 \<le> 366 * 2024" "365 * 65536 \<le> days_before_year 65536"
    by (rule days_before_year_bounds)+
  moreover have "days_before_month 2024 2 = 31" by (simp add: eval_nat_numeral month_days_def)
  ultimately have "wt_seconds ?w + unat (86401 :: u64) < days_before_year 65536 * 86400"
    by (simp add: wt_seconds_def wt_date_def day_number_def)
  from advance_wall_time_is_addition [OF valid this] show ?thesis by auto
qed

end
