(* ===== verification/Runtime_ABI.thy ===== *)
theory Runtime_ABI
  imports LogOS_Prelude
begin

text \<open>
  The runtime ABI, \<open>abi/src/runtime_abi.rs\<close>: the 64-bit handles that pack a slot index and a
  generation, and the request, response and bootstrap pages exchanged with services, with the
  validity checks the two sides run on them. The macro \<open>define_handle!\<close> makes five handle types
  with the same methods; here it is one type with a phantom parameter.
\<close>

abbreviation ABI_VERSION :: u16 where "ABI_VERSION \<equiv> 14"
abbreviation RUNTIME_ABI_VERSION :: u16 where "RUNTIME_ABI_VERSION \<equiv> ABI_VERSION"
abbreviation IPC_PAGE_BYTES :: nat where "IPC_PAGE_BYTES \<equiv> 4096"
abbreviation MAX_SERVICE_NAME_BYTES :: nat where "MAX_SERVICE_NAME_BYTES \<equiv> 16"
abbreviation SERVICE_HEAP_MAX_PAGES :: nat where "SERVICE_HEAP_MAX_PAGES \<equiv> 16384"
abbreviation DIRECTORY_FLAG_MORE :: u8 where "DIRECTORY_FLAG_MORE \<equiv> 1"
abbreviation DIRECTORY_RECORDS_PER_PAGE :: nat where "DIRECTORY_RECORDS_PER_PAGE \<equiv> 32"

section \<open>Handles\<close>

datatype 'kind handle = Handle (raw: u64)

datatype service_kind = ServiceKind
datatype endpoint_kind = EndpointKind
datatype capability_kind = CapabilityKind
datatype event_kind = EventKind
datatype event_set_kind = EventSetKind

type_synonym service_handle = "service_kind handle"
type_synonym endpoint_handle = "endpoint_kind handle"
type_synonym capability_handle = "capability_kind handle"
type_synonym event_handle = "event_kind handle"
type_synonym event_set_handle = "event_set_kind handle"

definition handle_empty :: "'kind handle" where
  "handle_empty = Handle 0"

definition handle_new :: "u32 \<Rightarrow> u32 \<Rightarrow> 'kind handle option" where
  "handle_new index generation =
     (if generation = 0 then None
      else Some (Handle (push_bit 32 (ucast generation) OR ucast index)))"

definition handle_from_raw :: "u64 \<Rightarrow> 'kind handle option" where
  "handle_from_raw r = (if drop_bit 32 r = 0 then None else Some (Handle r))"

definition handle_index :: "'kind handle \<Rightarrow> u32" where
  "handle_index h = ucast (raw h)"

definition handle_generation :: "'kind handle \<Rightarrow> u32" where
  "handle_generation h = ucast (drop_bit 32 (raw h))"

definition handle_is_valid :: "'kind handle \<Rightarrow> bool" where
  "handle_is_valid h \<longleftrightarrow> handle_generation h \<noteq> 0"

lemma handle_fields_inject:
  "handle_index h = handle_index k \<Longrightarrow> handle_generation h = handle_generation k \<Longrightarrow> h = k"
proof -
  assume index: "handle_index h = handle_index k" and gen: "handle_generation h = handle_generation k"
  have "raw h = raw k"
  proof (rule bit_word_eqI)
    fix n assume n: "n < LENGTH(64)"
    show "bit (raw h) n = bit (raw k) n"
    proof (cases "n < 32")
      case True
      then show ?thesis
        using arg_cong [OF index, of "\<lambda>w. bit w n"] by (simp add: handle_index_def bit_simps)
    next
      case False
      then show ?thesis
        using n arg_cong [OF gen, of "\<lambda>w. bit w (n - 32)"]
        by (auto simp: handle_generation_def bit_simps)
    qed
  qed
  then show "h = k" by (simp add: handle.expand)
qed

lemma handle_eq_fields:
  "h = k \<longleftrightarrow> handle_index h = handle_index k \<and> handle_generation h = handle_generation k"
  using handle_fields_inject by blast

lemma handle_new_fields:
  assumes "handle_new i g = Some h"
  shows "handle_index h = i" "handle_generation h = g" "g \<noteq> 0"
proof -
  have h: "h = Handle (push_bit 32 (ucast g) OR ucast i)" and "g \<noteq> 0"
    using assms by (simp_all add: handle_new_def split: if_splits)
  show "g \<noteq> 0" by fact
  show "handle_index h = i" "handle_generation h = g"
    unfolding h handle_index_def handle_generation_def
    by (auto simp: bit_eq_iff bit_simps dest: bit_imp_le_length)
qed

lemma handle_new_Some:
  "handle_new i g = Some h \<longleftrightarrow> g \<noteq> 0 \<and> handle_index h = i \<and> handle_generation h = g"
  for h :: "'a handle"
proof
  assume h: "g \<noteq> 0 \<and> handle_index h = i \<and> handle_generation h = g"
  then obtain k :: "'a handle" where k: "handle_new i g = Some k" by (simp add: handle_new_def)
  with h have "k = h" by (auto simp: handle_eq_fields handle_new_fields)
  with k show "handle_new i g = Some h" by simp
qed (auto dest: handle_new_fields)

lemma handle_empty_invalid [simp]: "\<not> handle_is_valid handle_empty"
  by (simp add: handle_is_valid_def handle_generation_def handle_empty_def)

lemma drop_bit_32_eq_0: "drop_bit 32 r = 0 \<longleftrightarrow> (ucast (drop_bit 32 r) :: u32) = 0" for r :: u64
proof
  assume zero: "(ucast (drop_bit 32 r) :: u32) = 0"
  show "drop_bit 32 r = 0"
  proof (rule bit_word_eqI)
    fix n assume n: "n < LENGTH(64)"
    show "bit (drop_bit 32 r) n = bit (0 :: u64) n"
      using arg_cong [OF zero, of "\<lambda>w. bit w n"]
      by (auto simp: bit_simps dest: bit_imp_le_length)
  qed
qed simp

lemma handle_from_raw_Some: "handle_from_raw r = Some h \<longleftrightarrow> handle_is_valid h \<and> raw h = r"
  by (cases h) (auto simp: handle_from_raw_def handle_is_valid_def handle_generation_def drop_bit_32_eq_0)

section \<open>Events\<close>

datatype event_operation = EvCreate | EvDestroy | EvCreateSet | EvAdd | EvRemove | EvWait | EvSignal
  | EvDestroySet | EvCancel

fun event_operation_raw :: "event_operation \<Rightarrow> u8" where
  "event_operation_raw EvCreate = 1"
| "event_operation_raw EvDestroy = 2"
| "event_operation_raw EvCreateSet = 3"
| "event_operation_raw EvAdd = 4"
| "event_operation_raw EvRemove = 5"
| "event_operation_raw EvWait = 6"
| "event_operation_raw EvSignal = 7"
| "event_operation_raw EvDestroySet = 8"
| "event_operation_raw EvCancel = 9"

definition event_operation_from_raw :: "u8 \<Rightarrow> event_operation option" where
  "event_operation_from_raw r =
     (if r = 1 then Some EvCreate else if r = 2 then Some EvDestroy else if r = 3 then Some EvCreateSet
      else if r = 4 then Some EvAdd else if r = 5 then Some EvRemove else if r = 6 then Some EvWait
      else if r = 7 then Some EvSignal else if r = 8 then Some EvDestroySet
      else if r = 9 then Some EvCancel else None)"

datatype event_status = EsOk | EsReady | EsPending | EsTimeout | EsStale | EsUnauthorized | EsCapacity
  | EsDuplicate | EsNotMember | EsInvalidDeadline | EsMalformed | EsBusy

fun event_status_raw :: "event_status \<Rightarrow> u8" where
  "event_status_raw EsOk = 0"
| "event_status_raw EsReady = 1"
| "event_status_raw EsPending = 2"
| "event_status_raw EsTimeout = 3"
| "event_status_raw EsStale = 4"
| "event_status_raw EsUnauthorized = 5"
| "event_status_raw EsCapacity = 6"
| "event_status_raw EsDuplicate = 7"
| "event_status_raw EsNotMember = 8"
| "event_status_raw EsInvalidDeadline = 9"
| "event_status_raw EsMalformed = 10"
| "event_status_raw EsBusy = 11"

definition event_status_from_raw :: "usize \<Rightarrow> event_status option" where
  "event_status_from_raw r =
     (if r = 0 then Some EsOk else if r = 1 then Some EsReady else if r = 2 then Some EsPending
      else if r = 3 then Some EsTimeout else if r = 4 then Some EsStale
      else if r = 5 then Some EsUnauthorized else if r = 6 then Some EsCapacity
      else if r = 7 then Some EsDuplicate else if r = 8 then Some EsNotMember
      else if r = 9 then Some EsInvalidDeadline else if r = 10 then Some EsMalformed
      else if r = 11 then Some EsBusy else None)"

record event_request =
  erq_abi_version :: u16
  erq_operation :: event_operation
  erq_reserved :: u8
  erq_request_id :: u32
  erq_event_set :: event_set_handle
  erq_event :: event_handle
  erq_deadline :: u64

definition event_request_new :: "event_operation \<Rightarrow> u32 \<Rightarrow> event_request" where
  "event_request_new operation request_id =
     \<lparr>erq_abi_version = RUNTIME_ABI_VERSION, erq_operation = operation, erq_reserved = 0,
      erq_request_id = request_id, erq_event_set = handle_empty, erq_event = handle_empty,
      erq_deadline = - 1\<rparr>"

definition event_request_is_valid :: "event_request \<Rightarrow> bool" where
  "event_request_is_valid r \<longleftrightarrow> erq_abi_version r = RUNTIME_ABI_VERSION
     \<and> event_operation_from_raw (event_operation_raw (erq_operation r)) \<noteq> None
     \<and> erq_reserved r = 0 \<and> erq_request_id r \<noteq> 0"

text \<open>The \<open>operation\<close> byte of the \<open>repr(C)\<close> layout follows the 16-bit version.\<close>

definition event_request_wire_enums_valid :: "u8 list \<Rightarrow> bool" where
  "event_request_wire_enums_valid bytes \<longleftrightarrow>
     Option.bind (slice_get bytes 2) event_operation_from_raw \<noteq> None"

record event_response =
  erp_abi_version :: u16
  erp_status :: event_status
  erp_reserved :: u8
  erp_request_id :: u32
  erp_event :: event_handle
  erp_event_set :: event_set_handle

definition event_response_empty :: "event_status \<Rightarrow> u32 \<Rightarrow> event_response" where
  "event_response_empty status request_id =
     \<lparr>erp_abi_version = RUNTIME_ABI_VERSION, erp_status = status, erp_reserved = 0,
      erp_request_id = request_id, erp_event = handle_empty, erp_event_set = handle_empty\<rparr>"

definition event_response_is_valid_for :: "event_response \<Rightarrow> event_request \<Rightarrow> bool" where
  "event_response_is_valid_for r request \<longleftrightarrow> erp_abi_version r = RUNTIME_ABI_VERSION
     \<and> erp_reserved r = 0 \<and> erp_request_id r = erq_request_id request
     \<and> event_status_from_raw (ucast (event_status_raw (erp_status r))) \<noteq> None"

section \<open>Bootstrap pages\<close>

record service_bootstrap_page =
  sb_abi_version :: u16
  sb_flags :: u16
  sb_ipc_generation :: u16
  sb_reserved :: u16
  sb_service_epoch :: u64
  sb_service :: service_handle
  sb_control :: capability_handle
  sb_directory :: capability_handle
  sb_heap :: capability_handle
  sb_heap_base :: u64
  sb_heap_pages :: u32
  sb_heap_quota_pages :: u32

definition service_bootstrap_empty :: service_bootstrap_page where
  "service_bootstrap_empty =
     \<lparr>sb_abi_version = RUNTIME_ABI_VERSION, sb_flags = 0, sb_ipc_generation = 0, sb_reserved = 0,
      sb_service_epoch = 0, sb_service = handle_empty, sb_control = handle_empty,
      sb_directory = handle_empty, sb_heap = handle_empty, sb_heap_base = 0, sb_heap_pages = 0,
      sb_heap_quota_pages = 0\<rparr>"

definition service_bootstrap_is_valid :: "service_bootstrap_page \<Rightarrow> bool" where
  "service_bootstrap_is_valid p \<longleftrightarrow> sb_abi_version p = RUNTIME_ABI_VERSION \<and> sb_flags p = 0
     \<and> sb_ipc_generation p \<noteq> 0 \<and> sb_reserved p = 0 \<and> sb_service_epoch p \<noteq> 0
     \<and> handle_is_valid (sb_service p) \<and> handle_is_valid (sb_control p)
     \<and> handle_is_valid (sb_directory p) \<and> handle_is_valid (sb_heap p)
     \<and> sb_heap_base p \<noteq> 0 \<and> sb_heap_base p mod of_nat IPC_PAGE_BYTES = 0
     \<and> sb_heap_pages p \<noteq> 0 \<and> unat (sb_heap_pages p) \<le> SERVICE_HEAP_MAX_PAGES
     \<and> sb_heap_quota_pages p \<ge> sb_heap_pages p
     \<and> unat (sb_heap_quota_pages p) \<le> SERVICE_HEAP_MAX_PAGES"

record program_bootstrap_page =
  pb_abi_version :: u16
  pb_flags :: u16
  pb_ipc_generation :: u16
  pb_reserved :: u16
  pb_program_generation :: u32
  pb_client :: service_handle
  pb_surface_request :: capability_handle
  pb_surface_response :: capability_handle
  pb_surface_input :: capability_handle
  pb_surface_render :: capability_handle
  pb_surface_draw :: capability_handle

definition program_bootstrap_empty :: program_bootstrap_page where
  "program_bootstrap_empty =
     \<lparr>pb_abi_version = RUNTIME_ABI_VERSION, pb_flags = 0, pb_ipc_generation = 0, pb_reserved = 0,
      pb_program_generation = 0, pb_client = handle_empty, pb_surface_request = handle_empty,
      pb_surface_response = handle_empty, pb_surface_input = handle_empty,
      pb_surface_render = handle_empty, pb_surface_draw = handle_empty\<rparr>"

definition program_bootstrap_is_valid :: "program_bootstrap_page \<Rightarrow> bool" where
  "program_bootstrap_is_valid p \<longleftrightarrow> pb_abi_version p = RUNTIME_ABI_VERSION \<and> pb_flags p = 0
     \<and> pb_ipc_generation p \<noteq> 0 \<and> pb_reserved p = 0 \<and> pb_program_generation p \<noteq> 0
     \<and> handle_is_valid (pb_client p) \<and> handle_is_valid (pb_surface_request p)
     \<and> handle_is_valid (pb_surface_response p) \<and> handle_is_valid (pb_surface_input p)
     \<and> handle_is_valid (pb_surface_render p) \<and> handle_is_valid (pb_surface_draw p)"

section \<open>Directory\<close>

datatype directory_operation = DirServices | DirCapabilities | DirEndpoints | DirEvents

fun directory_operation_raw :: "directory_operation \<Rightarrow> u8" where
  "directory_operation_raw DirServices = 1"
| "directory_operation_raw DirCapabilities = 2"
| "directory_operation_raw DirEndpoints = 3"
| "directory_operation_raw DirEvents = 4"

definition directory_operation_from_raw :: "u8 \<Rightarrow> directory_operation option" where
  "directory_operation_from_raw r =
     (if r = 1 then Some DirServices else if r = 2 then Some DirCapabilities
      else if r = 3 then Some DirEndpoints else if r = 4 then Some DirEvents else None)"

datatype directory_status = DsOk | DsMalformed | DsUnauthorized | DsStale | DsNotFound | DsCapacity

definition directory_status_from_raw :: "usize \<Rightarrow> directory_status option" where
  "directory_status_from_raw r =
     (if r = 0 then Some DsOk else if r = 1 then Some DsMalformed else if r = 2 then Some DsUnauthorized
      else if r = 3 then Some DsStale else if r = 4 then Some DsNotFound
      else if r = 5 then Some DsCapacity else None)"

datatype directory_record_kind = KindEmpty | KindService | KindCapability | KindEndpoint | KindEvent

record directory_request =
  drq_abi_version :: u16
  drq_operation :: directory_operation
  drq_reserved :: u8
  drq_request_id :: u32
  drq_cursor :: u64
  drq_subject :: service_handle

definition directory_request_new :: "directory_operation \<Rightarrow> u32 \<Rightarrow> directory_request" where
  "directory_request_new operation request_id =
     \<lparr>drq_abi_version = RUNTIME_ABI_VERSION, drq_operation = operation, drq_reserved = 0,
      drq_request_id = request_id, drq_cursor = 0, drq_subject = handle_empty\<rparr>"

definition directory_request_is_valid :: "directory_request \<Rightarrow> bool" where
  "directory_request_is_valid r \<longleftrightarrow> drq_abi_version r = RUNTIME_ABI_VERSION
     \<and> directory_operation_from_raw (directory_operation_raw (drq_operation r)) \<noteq> None
     \<and> drq_reserved r = 0 \<and> drq_request_id r \<noteq> 0"

definition directory_request_wire_enums_valid :: "u8 list \<Rightarrow> bool" where
  "directory_request_wire_enums_valid bytes \<longleftrightarrow>
     Option.bind (slice_get bytes 2) directory_operation_from_raw \<noteq> None"

record directory_record =
  dr_kind :: directory_record_kind
  dr_rights :: u8
  dr_flags :: u16
  dr_handle :: u64
  dr_peer :: service_handle
  dr_contract_id :: u16
  dr_message_bytes :: u16
  dr_queue_capacity :: u16
  dr_event :: event_handle
  dr_name_len :: u8
  dr_reserved :: "u8 list"
  dr_name :: "u8 list"

definition directory_record_empty :: directory_record where
  "directory_record_empty =
     \<lparr>dr_kind = KindEmpty, dr_rights = 0, dr_flags = 0, dr_handle = 0, dr_peer = handle_empty,
      dr_contract_id = 0, dr_message_bytes = 0, dr_queue_capacity = 0, dr_event = handle_empty,
      dr_name_len = 0, dr_reserved = [0], dr_name = replicate MAX_SERVICE_NAME_BYTES 0\<rparr>"

definition directory_record_service :: "service_handle \<Rightarrow> u8 list \<Rightarrow> directory_record option" where
  "directory_record_service h name =
     (if \<not> handle_is_valid h \<or> name = [] \<or> length name > MAX_SERVICE_NAME_BYTES then None
      else Some (directory_record_empty\<lparr>dr_kind := KindService, dr_handle := raw h,
        dr_name_len := of_nat (length name),
        dr_name := name @ drop (length name) (dr_name directory_record_empty)\<rparr>))"

definition directory_record_is_empty :: "directory_record \<Rightarrow> bool" where
  "directory_record_is_empty r \<longleftrightarrow> dr_kind r = KindEmpty"

definition directory_record_is_valid :: "directory_record \<Rightarrow> bool" where
  "directory_record_is_valid r =
     (if directory_record_is_empty r then r = directory_record_empty
      else if dr_reserved r \<noteq> [0] \<or> dr_handle r = 0 then False
      else (case dr_kind r of
          KindCapability \<Rightarrow>
            (handle_from_raw (dr_handle r) :: capability_handle option) \<noteq> None
            \<and> (dr_rights r = 1 \<or> dr_rights r = 2) \<and> dr_contract_id r \<noteq> 0 \<and> handle_is_valid (dr_peer r)
            \<and> dr_message_bytes r \<noteq> 0 \<and> unat (dr_message_bytes r) \<le> IPC_PAGE_BYTES
            \<and> dr_queue_capacity r \<noteq> 0 \<and> handle_is_valid (dr_event r)
        | KindEndpoint \<Rightarrow>
            (handle_from_raw (dr_handle r) :: endpoint_handle option) \<noteq> None
            \<and> dr_rights r = 0 \<and> handle_is_valid (dr_peer r) \<and> dr_contract_id r \<noteq> 0
            \<and> dr_message_bytes r \<noteq> 0 \<and> unat (dr_message_bytes r) \<le> IPC_PAGE_BYTES
            \<and> dr_queue_capacity r \<noteq> 0 \<and> \<not> handle_is_valid (dr_event r)
        | KindEvent \<Rightarrow>
            (handle_from_raw (dr_handle r) :: event_handle option) \<noteq> None
            \<and> dr_rights r = 0 \<and> handle_is_valid (dr_peer r) \<and> dr_contract_id r = 0
            \<and> dr_message_bytes r = 0 \<and> dr_queue_capacity r = 0 \<and> \<not> handle_is_valid (dr_event r)
        | KindService \<Rightarrow>
            (handle_from_raw (dr_handle r) :: service_handle option) \<noteq> None
            \<and> dr_rights r = 0 \<and> dr_name_len r \<noteq> 0 \<and> dr_contract_id r = 0
            \<and> dr_message_bytes r = 0 \<and> dr_queue_capacity r = 0 \<and> \<not> handle_is_valid (dr_event r)
        | KindEmpty \<Rightarrow> False)
        \<and> unat (dr_name_len r) \<le> length (dr_name r)
        \<and> list_all (\<lambda>byte. byte = 0) (drop (unat (dr_name_len r)) (dr_name r)))"

text \<open>\<open>&self.name[..self.name_len]\<close> panics on a length beyond the array.\<close>

definition directory_record_name :: "directory_record \<Rightarrow> u8 list option" where
  "directory_record_name r =
     (if unat (dr_name_len r) \<le> length (dr_name r) then Some (take (unat (dr_name_len r)) (dr_name r))
      else None)"

record directory_response =
  drp_abi_version :: u16
  drp_operation :: directory_operation
  drp_status :: directory_status
  drp_request_id :: u32
  drp_cursor :: u64
  drp_count :: u8
  drp_flags :: u8
  drp_reserved :: "u8 list"
  drp_records :: "directory_record list"

definition directory_response_empty ::
    "directory_operation \<Rightarrow> directory_status \<Rightarrow> u32 \<Rightarrow> directory_response" where
  "directory_response_empty operation status request_id =
     \<lparr>drp_abi_version = RUNTIME_ABI_VERSION, drp_operation = operation, drp_status = status,
      drp_request_id = request_id, drp_cursor = 0, drp_count = 0, drp_flags = 0,
      drp_reserved = [0, 0],
      drp_records = replicate DIRECTORY_RECORDS_PER_PAGE directory_record_empty\<rparr>"

definition directory_response_is_valid_for :: "directory_response \<Rightarrow> directory_request \<Rightarrow> bool" where
  "directory_response_is_valid_for r request \<longleftrightarrow> drp_abi_version r = RUNTIME_ABI_VERSION
     \<and> drp_operation r = drq_operation request \<and> directory_request_is_valid request
     \<and> drp_request_id r = drq_request_id request
     \<and> drp_flags r AND NOT DIRECTORY_FLAG_MORE = 0
     \<and> (drp_flags r AND DIRECTORY_FLAG_MORE = 0 \<or> drp_cursor r \<noteq> 0)
     \<and> drp_reserved r = [0, 0] \<and> unat (drp_count r) \<le> DIRECTORY_RECORDS_PER_PAGE
     \<and> list_all directory_record_is_valid (take (unat (drp_count r)) (drp_records r))
     \<and> list_all directory_record_is_empty (drop (unat (drp_count r)) (drp_records r))"

section \<open>Enumerations and pages\<close>

lemma event_operation_round_trip:
  "event_operation_from_raw b = Some x \<longleftrightarrow> b = event_operation_raw x"
  by (cases x) (auto simp: event_operation_from_raw_def)

lemma event_status_round_trip:
  "event_status_from_raw b = Some x \<longleftrightarrow> b = ucast (event_status_raw x)"
  by (cases x) (auto simp: event_status_from_raw_def)

lemma directory_operation_round_trip:
  "directory_operation_from_raw b = Some x \<longleftrightarrow> b = directory_operation_raw x"
  by (cases x) (auto simp: directory_operation_from_raw_def)

lemma directory_response_empty_valid:
  "directory_request_is_valid request \<Longrightarrow> directory_response_is_valid_for
     (directory_response_empty (drq_operation request) status (drq_request_id request)) request"
  by (simp add: directory_response_is_valid_for_def directory_response_empty_def
      directory_record_is_empty_def directory_record_empty_def list_all_iff)

section \<open>Properties\<close>

text \<open>
  C33: Handles round-trip: a handle exists for an index and a generation exactly when the
  generation is not zero, it then has that index and generation and is the only handle with them,
  and reading its raw word back gives the same handle; a raw word is accepted exactly when it is
  the raw word of a valid handle.
\<close>

theorem handle_round_trip:
  "(handle_new i g = Some h \<longleftrightarrow> handle_is_valid h \<and> handle_index h = i \<and> handle_generation h = g)
   \<and> (handle_from_raw r = Some h \<longleftrightarrow> handle_is_valid h \<and> raw h = r)
   \<and> (handle_new i g = None \<longleftrightarrow> g = 0)"
  unfolding handle_new_Some handle_is_valid_def handle_from_raw_Some
  by (auto simp: handle_new_def split: if_splits)

text \<open>
  A directory record built for a service passes the receiver's validity check and returns the
  service's handle and exactly the name it was built from; no record is built for an invalid
  handle, an empty name or a name longer than 16 bytes.
\<close>

theorem directory_service_record:
  "case directory_record_service h name of
     None \<Rightarrow> \<not> (handle_is_valid h \<and> name \<noteq> [] \<and> length name \<le> MAX_SERVICE_NAME_BYTES)
   | Some r \<Rightarrow> directory_record_is_valid r \<and> handle_from_raw (dr_handle r) = Some h
       \<and> directory_record_name r = Some name"
proof (cases "\<not> handle_is_valid h \<or> name = [] \<or> length name > MAX_SERVICE_NAME_BYTES")
  case True
  then show ?thesis by (auto simp: directory_record_service_def)
next
  case False
  then have valid: "handle_is_valid h" and name: "name \<noteq> []" "length name \<le> 16" by auto
  then have len: "unat (of_nat (length name) :: u8) = length name" by (simp add: unat_of_nat_u8)
  then have pos: "(of_nat (length name) :: u8) \<noteq> 0" using name by (metis length_0_conv unat_0)
  have again: "handle_from_raw (raw h) = Some h" using valid by (simp add: handle_from_raw_Some)
  then have "raw h \<noteq> 0" by (auto simp: handle_from_raw_def split: if_splits)
  with False again len pos name show ?thesis
    by (simp add: directory_record_service_def directory_record_is_valid_def directory_record_is_empty_def
        directory_record_name_def directory_record_empty_def list_all_iff)
qed

end
