(* ===== verification/Address_Space.thy ===== *)
theory Address_Space
  imports Generations
begin

text \<open>
  User mappings and the address-space table of \<open>src/process.rs\<close>. The specification of an
  address space is its translation: a partial function from virtual byte addresses to physical
  addresses and flags. The theory shows that the table keeps every address space free of
  overlaps, inside the user half of the address space and never writable and executable at once,
  and that mapping and unmapping change the translation exactly on the pages named.
\<close>

section \<open>Mappings\<close>

abbreviation MAX_IMAGE_BYTES :: usize where "MAX_IMAGE_BYTES \<equiv> 2048 * 1024"
abbreviation MAX_FRAMEBUFFER_BYTES :: usize where "MAX_FRAMEBUFFER_BYTES \<equiv> 16 * 1024 * 1024"
abbreviation USER_KDF_WORKSPACE_PAGES :: usize where "USER_KDF_WORKSPACE_PAGES \<equiv> 16385"
abbreviation USER_SPACE_END :: usize where "USER_SPACE_END \<equiv> 0x0000800000000000"
abbreviation MAX_ADDRESS_SPACES :: nat where "MAX_ADDRESS_SPACES \<equiv> 16"
abbreviation MAX_MAPPINGS_PER_ADDRESS_SPACE :: nat where "MAX_MAPPINGS_PER_ADDRESS_SPACE \<equiv> 64"

datatype process_error = PeCapacity | PeInvalidImage | PeInvalidHandle | PeNotRunning
  | PeAddressSpace | PeReadFailure

datatype address_space_root = AddressSpaceRoot (root_raw: usize)

definition address_space_root_new :: "usize \<Rightarrow> address_space_root option" where
  "address_space_root_new r = (if r \<noteq> 0 \<and> r AND 0xfff = 0 then Some (AddressSpaceRoot r) else None)"

record mapping_flags =
  mf_user :: bool
  mf_writable :: bool
  mf_executable :: bool

definition flags_code :: mapping_flags where
  "flags_code = \<lparr>mf_user = True, mf_writable = False, mf_executable = True\<rparr>"

definition flags_data :: mapping_flags where
  "flags_data = \<lparr>mf_user = True, mf_writable = True, mf_executable = False\<rparr>"

definition flags_read_only_data :: mapping_flags where
  "flags_read_only_data = \<lparr>mf_user = True, mf_writable = False, mf_executable = False\<rparr>"

definition mf_valid :: "mapping_flags \<Rightarrow> bool" where
  "mf_valid f \<longleftrightarrow> mf_user f \<and> \<not> (mf_writable f \<and> mf_executable f)"

record virtual_mapping =
  vm_virtual_address :: usize
  vm_physical_address :: usize
  vm_pages :: usize
  vm_flags :: mapping_flags

definition vm_new_with_limit ::
    "usize \<Rightarrow> usize \<Rightarrow> usize \<Rightarrow> mapping_flags \<Rightarrow> usize \<Rightarrow> virtual_mapping option" where
  "vm_new_with_limit virtual_address physical_address pages flags max_pages =
     (case checked_mul pages 0x1000 of
        None \<Rightarrow> None
      | Some bytes \<Rightarrow>
          (case checked_add virtual_address bytes of
             None \<Rightarrow> None
           | Some virtual_end \<Rightarrow>
               if virtual_address = 0 \<or> physical_address = 0 \<or> virtual_address AND 0xfff \<noteq> 0
                  \<or> physical_address AND 0xfff \<noteq> 0 \<or> pages = 0 \<or> pages > max_pages
                  \<or> virtual_address \<ge> USER_SPACE_END \<or> virtual_end > USER_SPACE_END
                  \<or> checked_add physical_address bytes = None \<or> \<not> mf_valid flags
               then None
               else Some \<lparr>vm_virtual_address = virtual_address,
                          vm_physical_address = physical_address,
                          vm_pages = pages, vm_flags = flags\<rparr>))"

definition vm_new :: "usize \<Rightarrow> usize \<Rightarrow> usize \<Rightarrow> mapping_flags \<Rightarrow> virtual_mapping option" where
  "vm_new va pa pages flags = vm_new_with_limit va pa pages flags (MAX_IMAGE_BYTES div 0x1000)"

definition vm_new_device :: "usize \<Rightarrow> usize \<Rightarrow> usize \<Rightarrow> mapping_flags \<Rightarrow> virtual_mapping option" where
  "vm_new_device va pa pages flags =
     vm_new_with_limit va pa pages flags (MAX_FRAMEBUFFER_BYTES div 0x1000)"

definition vm_new_service_workspace ::
    "usize \<Rightarrow> usize \<Rightarrow> usize \<Rightarrow> mapping_flags \<Rightarrow> virtual_mapping option" where
  "vm_new_service_workspace va pa pages flags =
     vm_new_with_limit va pa pages flags USER_KDF_WORKSPACE_PAGES"

definition vm_new_service_heap ::
    "usize \<Rightarrow> usize \<Rightarrow> usize \<Rightarrow> usize \<Rightarrow> mapping_flags \<Rightarrow> virtual_mapping option" where
  "vm_new_service_heap va pa pages max_pages flags = vm_new_with_limit va pa pages flags max_pages"

definition vm_virtual_end :: "virtual_mapping \<Rightarrow> usize" where
  "vm_virtual_end m = vm_virtual_address m + vm_pages m * 0x1000"

definition vm_overlaps :: "virtual_mapping \<Rightarrow> virtual_mapping \<Rightarrow> bool" where
  "vm_overlaps m other \<longleftrightarrow>
     vm_virtual_address m < vm_virtual_end other \<and> vm_virtual_address other < vm_virtual_end m"

section \<open>The address-space table\<close>

datatype address_space_state = AsVacant | AsReserved

record address_space_handle =
  ash_slot :: u8
  ash_generation :: u64

record address_space_slot =
  as_generation :: u64
  as_state :: address_space_state
  as_root :: "address_space_root option"
  as_mappings :: "virtual_mapping option list"

definition address_space_slot_empty :: address_space_slot where
  "address_space_slot_empty =
     \<lparr>as_generation = 1, as_state = AsVacant, as_root = None,
      as_mappings = replicate MAX_MAPPINGS_PER_ADDRESS_SPACE None\<rparr>"

record address_space_table =
  ast_slots :: "address_space_slot list"

definition address_space_table_new :: address_space_table where
  "address_space_table_new = \<lparr>ast_slots = replicate MAX_ADDRESS_SPACES address_space_slot_empty\<rparr>"

definition process_next_generation :: "u64 \<Rightarrow> u64" where
  "process_next_generation generation = max (generation + 1) 1"

definition ast_current_mut ::
    "address_space_table \<Rightarrow> address_space_handle \<Rightarrow> process_error + address_space_slot" where
  "ast_current_mut t h =
     (case slice_get (ast_slots t) (unat (ash_slot h)) of
        None \<Rightarrow> Err PeInvalidHandle
      | Some address_space \<Rightarrow>
          if as_generation address_space \<noteq> ash_generation h \<or> as_state address_space \<noteq> AsReserved
          then Err PeInvalidHandle else Ok address_space)"

definition ast_put ::
    "address_space_table \<Rightarrow> address_space_handle \<Rightarrow> address_space_slot \<Rightarrow> address_space_table" where
  "ast_put t h address_space = t\<lparr>ast_slots := (ast_slots t)[unat (ash_slot h) := address_space]\<rparr>"

definition ast_reserve ::
    "address_space_table \<Rightarrow> (process_error + address_space_handle) \<times> address_space_table" where
  "ast_reserve t =
     (case position (\<lambda>address_space. as_state address_space = AsVacant) (ast_slots t) of
        None \<Rightarrow> (Err PeCapacity, t)
      | Some slot \<Rightarrow>
          (let address_space = ast_slots t ! slot
           in (Ok \<lparr>ash_slot = of_nat slot, ash_generation = as_generation address_space\<rparr>,
               t\<lparr>ast_slots := (ast_slots t)
                   [slot := address_space\<lparr>as_state := AsReserved, as_root := None,
                      as_mappings := replicate MAX_MAPPINGS_PER_ADDRESS_SPACE None\<rparr>]\<rparr>)))"

definition ast_bind_root ::
    "address_space_table \<Rightarrow> address_space_handle \<Rightarrow> address_space_root
      \<Rightarrow> (process_error + unit) \<times> address_space_table" where
  "ast_bind_root t h root =
     (case ast_current_mut t h of
        Inl e \<Rightarrow> (Err e, t)
      | Inr address_space \<Rightarrow>
          if as_root address_space \<noteq> None then (Err PeAddressSpace, t)
          else (Ok (), ast_put t h (address_space\<lparr>as_root := Some root\<rparr>)))"

definition ast_map ::
    "address_space_table \<Rightarrow> address_space_handle \<Rightarrow> virtual_mapping
      \<Rightarrow> (process_error + unit) \<times> address_space_table" where
  "ast_map t h mapping =
     (case ast_current_mut t h of
        Inl e \<Rightarrow> (Err e, t)
      | Inr address_space \<Rightarrow>
          if as_root address_space = None then (Err PeAddressSpace, t)
          else if list_ex (\<lambda>existing. case existing of None \<Rightarrow> False | Some m \<Rightarrow> vm_overlaps m mapping)
                 (as_mappings address_space) then (Err PeAddressSpace, t)
          else (case position (\<lambda>slot. slot = None) (as_mappings address_space) of
                  None \<Rightarrow> (Err PeCapacity, t)
                | Some i \<Rightarrow>
                    (Ok (), ast_put t h
                       (address_space\<lparr>as_mappings := (as_mappings address_space)[i := Some mapping]\<rparr>))))"

definition ast_mapping ::
    "address_space_table \<Rightarrow> address_space_handle \<Rightarrow> nat \<Rightarrow> virtual_mapping option" where
  "ast_mapping t h index =
     (case slice_get (ast_slots t) (unat (ash_slot h)) of
        None \<Rightarrow> None
      | Some address_space \<Rightarrow>
          if as_generation address_space \<noteq> ash_generation h \<or> as_state address_space \<noteq> AsReserved
          then None else Option.bind (slice_get (as_mappings address_space) index) (\<lambda>m. m))"

definition ast_unmap ::
    "address_space_table \<Rightarrow> address_space_handle \<Rightarrow> nat
      \<Rightarrow> (process_error + virtual_mapping) \<times> address_space_table" where
  "ast_unmap t h index =
     (case ast_current_mut t h of
        Inl e \<Rightarrow> (Err e, t)
      | Inr address_space \<Rightarrow>
          (case slice_get (as_mappings address_space) index of
             None \<Rightarrow> (Err PeAddressSpace, t)
           | Some None \<Rightarrow> (Err PeAddressSpace, t)
           | Some (Some m) \<Rightarrow>
               (Ok m, ast_put t h
                  (address_space\<lparr>as_mappings := (as_mappings address_space)[index := None]\<rparr>))))"

definition ast_root :: "address_space_table \<Rightarrow> address_space_handle \<Rightarrow> address_space_root option" where
  "ast_root t h =
     (case slice_get (ast_slots t) (unat (ash_slot h)) of
        None \<Rightarrow> None
      | Some address_space \<Rightarrow>
          if as_generation address_space = ash_generation h \<and> as_state address_space = AsReserved
          then as_root address_space else None)"

definition ast_release ::
    "address_space_table \<Rightarrow> address_space_handle \<Rightarrow> (process_error + unit) \<times> address_space_table" where
  "ast_release t h =
     (case ast_current_mut t h of
        Inl e \<Rightarrow> (Err e, t)
      | Inr address_space \<Rightarrow>
          (Ok (), ast_put t h
             (address_space\<lparr>as_state := AsVacant, as_root := None,
                as_mappings := replicate MAX_MAPPINGS_PER_ADDRESS_SPACE None,
                as_generation := process_next_generation (as_generation address_space)\<rparr>)))"

section \<open>Mappings as byte ranges\<close>

definition vm_range :: "virtual_mapping \<Rightarrow> nat set" where
  "vm_range m = {unat (vm_virtual_address m) ..< unat (vm_virtual_address m) + unat (vm_pages m) * 4096}"

text \<open>What every constructor of a mapping establishes.\<close>

definition vm_wf :: "virtual_mapping \<Rightarrow> bool" where
  "vm_wf m \<longleftrightarrow> unat (vm_virtual_address m) mod 4096 = 0 \<and> unat (vm_physical_address m) mod 4096 = 0
     \<and> 0 < unat (vm_virtual_address m) \<and> 0 < unat (vm_physical_address m) \<and> 0 < unat (vm_pages m)
     \<and> unat (vm_virtual_address m) + unat (vm_pages m) * 4096 \<le> 2 ^ 47
     \<and> unat (vm_physical_address m) + unat (vm_pages m) * 4096 < 2 ^ 64
     \<and> mf_valid (vm_flags m)"

definition vm_built :: "virtual_mapping \<Rightarrow> bool" where
  "vm_built m \<longleftrightarrow> (\<exists>va pa pages flags max_pages. vm_new_with_limit va pa pages flags max_pages = Some m)"

lemma and_mask_12: "w AND 0xfff = 0 \<longleftrightarrow> unat w mod 4096 = 0" for w :: usize
proof -
  have "(0xfff :: usize) = mask 12" by (simp add: mask_eq_exp_minus_1)
  then have "w AND 0xfff = take_bit 12 w" by (simp add: take_bit_eq_mask)
  then have "unat (w AND 0xfff) = unat w mod 4096"
    by (simp add: take_bit_eq_mod unat_mod)
  then show ?thesis by (metis unat_eq_0)
qed

lemma vm_new_with_limit_wf:
  assumes "vm_new_with_limit va pa pages flags max_pages = Some m"
  shows "vm_wf m \<and> vm_virtual_address m = va \<and> vm_physical_address m = pa \<and> vm_pages m = pages
    \<and> vm_flags m = flags"
proof -
  from assms obtain bytes virtual_end where b: "checked_mul pages 0x1000 = Some bytes"
      and v: "checked_add va bytes = Some virtual_end"
    by (auto simp: vm_new_with_limit_def split: option.splits)
  have bytes: "unat bytes = unat pages * 4096" using checked_mul_unat [OF b] by simp
  have ends: "unat virtual_end = unat va + unat pages * 4096"
    using checked_add_unat [OF v] bytes by simp
  show ?thesis
    using assms b v ends bytes
    by (auto simp: vm_new_with_limit_def vm_wf_def and_mask_12 word_le_nat_alt word_less_nat_alt
        unat_gt_0 not_le not_less checked_add_def split: if_splits)
qed

lemma vm_built_wf: "vm_built m \<Longrightarrow> vm_wf m"
  using vm_new_with_limit_wf by (auto simp: vm_built_def)

lemma unat_vm_virtual_end:
  assumes "vm_wf m"
  shows "unat (vm_virtual_end m) = unat (vm_virtual_address m) + unat (vm_pages m) * 4096"
proof -
  have "unat (vm_virtual_address m) + unat (vm_pages m) * 4096 < 2 ^ 64"
    using assms by (simp add: vm_wf_def)
  then show ?thesis by (simp add: vm_virtual_end_def unat_word_ariths)
qed

lemma vm_overlaps_range:
  assumes "vm_wf m" and "vm_wf n"
  shows "vm_overlaps m n \<longleftrightarrow> vm_range m \<inter> vm_range n \<noteq> {}"
proof -
  have "0 < unat (vm_pages m)" "0 < unat (vm_pages n)" using assms by (simp_all add: vm_wf_def)
  then show ?thesis
    using assms
    by (auto simp: vm_overlaps_def vm_range_def word_less_nat_alt unat_vm_virtual_end
        ivl_disj_int dest: less_le_trans)
qed

section \<open>The translation of an address space\<close>

definition vm_translate :: "virtual_mapping \<Rightarrow> nat \<Rightarrow> (nat \<times> mapping_flags) option" where
  "vm_translate m v =
     (if unat (vm_virtual_address m) \<le> v \<and> v < unat (vm_virtual_address m) + unat (vm_pages m) * 4096
      then Some (unat (vm_physical_address m) + (v - unat (vm_virtual_address m)), vm_flags m) else None)"

fun mappings_view :: "virtual_mapping option list \<Rightarrow> nat \<Rightarrow> (nat \<times> mapping_flags) option" where
  "mappings_view [] v = None"
| "mappings_view (None # ms) v = mappings_view ms v"
| "mappings_view (Some m # ms) v =
     (case vm_translate m v of Some x \<Rightarrow> Some x | None \<Rightarrow> mappings_view ms v)"

definition mappings_disjoint :: "virtual_mapping option list \<Rightarrow> bool" where
  "mappings_disjoint ms \<longleftrightarrow>
     (\<forall>i j m n. i < length ms \<longrightarrow> j < length ms \<longrightarrow> i \<noteq> j \<longrightarrow> ms ! i = Some m \<longrightarrow> ms ! j = Some n
        \<longrightarrow> vm_range m \<inter> vm_range n = {})"

lemma mappings_disjointI:
  "(\<And>i j m n. \<lbrakk>i < length ms; j < length ms; i \<noteq> j; ms ! i = Some m; ms ! j = Some n\<rbrakk>
      \<Longrightarrow> vm_range m \<inter> vm_range n = {}) \<Longrightarrow> mappings_disjoint ms"
  unfolding mappings_disjoint_def by blast

lemma mappings_disjointD:
  "\<lbrakk>mappings_disjoint ms; i < length ms; j < length ms; i \<noteq> j; ms ! i = Some m; ms ! j = Some n\<rbrakk>
    \<Longrightarrow> vm_range m \<inter> vm_range n = {}"
  unfolding mappings_disjoint_def by blast

lemma vm_translate_None: "vm_translate m v = None \<longleftrightarrow> v \<notin> vm_range m"
  by (auto simp: vm_translate_def vm_range_def)

lemma vm_translate_Some: "vm_translate m v = Some x \<Longrightarrow> v \<in> vm_range m"
  using vm_translate_None [of m v] by auto

lemma mappings_view_SomeD:
  "mappings_view ms v = Some x \<Longrightarrow> \<exists>m. Some m \<in> set ms \<and> vm_translate m v = Some x"
  by (induction ms v rule: mappings_view.induct) (auto split: option.splits)

lemma mappings_view_None:
  "mappings_view ms v = None \<longleftrightarrow> (\<forall>m. Some m \<in> set ms \<longrightarrow> v \<notin> vm_range m)"
  by (induction ms v rule: mappings_view.induct) (auto simp: vm_translate_None dest: vm_translate_Some split: option.splits)

lemma mappings_view_member:
  assumes "mappings_disjoint ms" and "Some m \<in> set ms" and "v \<in> vm_range m"
  shows "mappings_view ms v = vm_translate m v"
proof -
  from assms(2,3) have "mappings_view ms v \<noteq> None" by (auto simp: mappings_view_None)
  then obtain n x where n: "Some n \<in> set ms" "vm_translate n v = Some x" "mappings_view ms v = Some x"
    using mappings_view_SomeD by blast
  then have "v \<in> vm_range n" by (metis vm_translate_None option.distinct(1))
  moreover obtain i j where "i < length ms" "ms ! i = Some m" "j < length ms" "ms ! j = Some n"
    using assms(2) n(1) by (auto simp: in_set_conv_nth)
  ultimately have "m = n"
    using assms(1,3) unfolding mappings_disjoint_def by (metis disjoint_iff option.inject)
  with n show ?thesis by simp
qed

lemma mappings_view_eqI:
  assumes "mappings_disjoint ms" and "mappings_disjoint ns"
    and "\<And>m. Some m \<in> set ms \<and> v \<in> vm_range m \<longleftrightarrow> Some m \<in> set ns \<and> v \<in> vm_range m"
  shows "mappings_view ms v = mappings_view ns v"
proof (cases "\<exists>m. Some m \<in> set ms \<and> v \<in> vm_range m")
  case True
  then obtain m where m: "Some m \<in> set ms" "v \<in> vm_range m" by blast
  with assms(3) have "Some m \<in> set ns" by blast
  with m assms(1,2) show ?thesis by (simp add: mappings_view_member)
next
  case False
  then have "mappings_view ms v = None" by (auto simp: mappings_view_None)
  moreover have "mappings_view ns v = None" using False assms(3) by (auto simp: mappings_view_None)
  ultimately show ?thesis by simp
qed

lemma mappings_disjoint_add:
  assumes "mappings_disjoint ms" and "\<And>n. Some n \<in> set ms \<Longrightarrow> vm_range n \<inter> vm_range m = {}"
  shows "mappings_disjoint (ms[i := Some m])"
proof (rule mappings_disjointI)
  fix j k a b
  assume "j < length (ms[i := Some m])" "k < length (ms[i := Some m])" "j \<noteq> k"
    and "ms[i := Some m] ! j = Some a" "ms[i := Some m] ! k = Some b"
  then show "vm_range a \<inter> vm_range b = {}"
    using mappings_disjointD [OF assms(1), of j k a b] assms(2) [of a] assms(2) [of b]
      nth_mem [of j ms] nth_mem [of k ms]
    by (cases "j = i"; cases "k = i") auto
qed

lemma mappings_disjoint_remove:
  assumes "mappings_disjoint ms"
  shows "mappings_disjoint (ms[i := None])"
proof (rule mappings_disjointI)
  fix j k a b
  assume "j < length (ms[i := None])" "k < length (ms[i := None])" "j \<noteq> k"
    and "ms[i := None] ! j = Some a" "ms[i := None] ! k = Some b"
  then show "vm_range a \<inter> vm_range b = {}"
    using mappings_disjointD [OF assms, of j k a b] by (cases "j = i"; cases "k = i") auto
qed

lemma mappings_view_add:
  assumes ms: "mappings_disjoint ms" and free: "i < length ms" "ms ! i = None"
    and new: "\<And>n. Some n \<in> set ms \<Longrightarrow> vm_range n \<inter> vm_range m = {}"
  shows "mappings_view (ms[i := Some m]) v =
    (if v \<in> vm_range m then vm_translate m v else mappings_view ms v)"
proof -
  have dis: "mappings_disjoint (ms[i := Some m])" using ms new by (rule mappings_disjoint_add)
  have members: "Some n \<in> set (ms[i := Some m]) \<longleftrightarrow> n = m \<or> Some n \<in> set ms" for n
    unfolding set_update_iff [OF free(1)] using free by (fastforce simp: in_set_conv_nth)
  show ?thesis
  proof (cases "v \<in> vm_range m")
    case True
    then show ?thesis using dis members by (simp add: mappings_view_member)
  next
    case False
    then have "mappings_view (ms[i := Some m]) v = mappings_view ms v"
      using dis ms members by (intro mappings_view_eqI) auto
    with False show ?thesis by simp
  qed
qed

lemma mappings_view_remove:
  assumes ms: "mappings_disjoint ms" and m: "i < length ms" "ms ! i = Some m"
  shows "mappings_view (ms[i := None]) v = (if v \<in> vm_range m then None else mappings_view ms v)"
proof -
  have others: "v \<notin> vm_range m" if n: "Some n \<in> set (ms[i := None])" "v \<in> vm_range n" for n
  proof -
    from n(1) obtain j where "j < length ms" "j \<noteq> i" "ms ! j = Some n"
      by (auto simp: set_update_iff [OF m(1)])
    then show ?thesis using mappings_disjointD [OF ms _ m(1) _ _ m(2)] n(2) by blast
  qed
  have members: "Some n \<in> set (ms[i := None]) \<or> n = m \<longleftrightarrow> Some n \<in> set ms" for n
    unfolding set_update_iff [OF m(1)] using m by (fastforce simp: in_set_conv_nth)
  show ?thesis
  proof (cases "v \<in> vm_range m")
    case True
    then show ?thesis using others by (auto simp: mappings_view_None)
  next
    case False
    then have "mappings_view (ms[i := None]) v = mappings_view ms v"
      using ms members by (intro mappings_view_eqI mappings_disjoint_remove) auto
    with False show ?thesis by simp
  qed
qed

section \<open>Invariant\<close>

definition as_slot_ok :: "address_space_slot \<Rightarrow> bool" where
  "as_slot_ok a \<longleftrightarrow> as_generation a \<noteq> 0
     \<and> length (as_mappings a) = MAX_MAPPINGS_PER_ADDRESS_SPACE
     \<and> (as_state a = AsVacant \<longrightarrow> as_root a = None)
     \<and> (as_root a = None \<longrightarrow> (\<forall>m \<in> set (as_mappings a). m = None))
     \<and> (\<forall>m. Some m \<in> set (as_mappings a) \<longrightarrow> vm_wf m)
     \<and> mappings_disjoint (as_mappings a)"

definition ast_inv :: "address_space_table \<Rightarrow> bool" where
  "ast_inv t \<longleftrightarrow> length (ast_slots t) = MAX_ADDRESS_SPACES \<and> (\<forall>a \<in> set (ast_slots t). as_slot_ok a)"

lemma ast_current_mut_Ok:
  "ast_current_mut t h = Ok a \<longleftrightarrow>
     unat (ash_slot h) < length (ast_slots t) \<and> ast_slots t ! unat (ash_slot h) = a
     \<and> as_generation a = ash_generation h \<and> as_state a = AsReserved"
  by (auto simp: ast_current_mut_def split: option.splits if_splits)

lemma ast_current_mut_Err: "ast_current_mut t h = Err e \<Longrightarrow> e = PeInvalidHandle"
  by (auto simp: ast_current_mut_def split: option.splits if_splits)

lemma ast_inv_put:
  "\<lbrakk>ast_inv t; as_slot_ok a\<rbrakk> \<Longrightarrow> ast_inv (ast_put t h a)"
  unfolding ast_inv_def ast_put_def by (auto dest: all_set_update [of _ as_slot_ok a])

lemma ast_current_ok: "\<lbrakk>ast_inv t; ast_current_mut t h = Ok a\<rbrakk> \<Longrightarrow> as_slot_ok a"
  by (auto simp: ast_inv_def ast_current_mut_Ok)

lemma mappings_disjoint_replicate_None [simp]: "mappings_disjoint (replicate n None)"
  by (simp add: mappings_disjoint_def)

lemma address_space_slot_empty_ok: "as_slot_ok address_space_slot_empty"
  by (simp add: as_slot_ok_def address_space_slot_empty_def)

lemma ast_inv_new: "ast_inv address_space_table_new"
  by (simp add: ast_inv_def address_space_table_new_def address_space_slot_empty_ok)

lemma ast_reserve_cases:
  obtains (full) "\<forall>a \<in> set (ast_slots t). as_state a = AsReserved" "ast_reserve t = (Err PeCapacity, t)"
  | (slot) i where "i < length (ast_slots t)" "as_state (ast_slots t ! i) = AsVacant"
      "ast_reserve t = (Ok \<lparr>ash_slot = of_nat i, ash_generation = as_generation (ast_slots t ! i)\<rparr>,
         t\<lparr>ast_slots := (ast_slots t)[i := (ast_slots t ! i)\<lparr>as_state := AsReserved, as_root := None,
            as_mappings := replicate MAX_MAPPINGS_PER_ADDRESS_SPACE None\<rparr>]\<rparr>)"
proof (cases "position (\<lambda>address_space. as_state address_space = AsVacant) (ast_slots t)")
  case None
  then have "ast_reserve t = (Err PeCapacity, t)" by (simp only: ast_reserve_def option.case)
  with None show ?thesis by (intro full) (auto intro: address_space_state.exhaust)
next
  case (Some i)
  show ?thesis
    by (rule slot [OF position_SomeD [OF Some]]) (simp only: ast_reserve_def Some option.case Let_def)
qed

lemma ast_reserve_inv: "ast_inv t \<Longrightarrow> ast_inv (snd (ast_reserve t))"
proof (cases t rule: ast_reserve_cases)
  case (slot i)
  assume inv: "ast_inv t"
  then have "as_slot_ok (ast_slots t ! i)" using slot(1) by (simp add: ast_inv_def)
  then have "as_slot_ok ((ast_slots t ! i)\<lparr>as_state := AsReserved, as_root := None,
      as_mappings := replicate MAX_MAPPINGS_PER_ADDRESS_SPACE None\<rparr>)"
    by (simp add: as_slot_ok_def)
  with inv slot show ?thesis unfolding ast_inv_def by (auto dest: all_set_update [of _ as_slot_ok])
qed simp

lemma ast_bind_root_inv: "ast_inv t \<Longrightarrow> ast_inv (snd (ast_bind_root t h root))"
  using ast_current_ok [of t h]
  by (auto simp: ast_bind_root_def as_slot_ok_def ast_current_mut_Ok intro!: ast_inv_put split: sum.splits)

lemma map_room:
  assumes "as_slot_ok a" and "vm_wf m"
    and "\<not> list_ex (\<lambda>existing. case existing of None \<Rightarrow> False | Some n \<Rightarrow> vm_overlaps n m) (as_mappings a)"
    and "Some n \<in> set (as_mappings a)"
  shows "vm_range n \<inter> vm_range m = {}"
proof -
  have "\<not> vm_overlaps n m" using assms(3,4) by (auto simp: list_ex_iff split: option.splits)
  moreover have "vm_wf n" using assms(1,4) by (auto simp: as_slot_ok_def)
  ultimately show ?thesis using assms(2) by (simp add: vm_overlaps_range)
qed

lemma ast_map_Ok:
  assumes "ast_map t h m = (Ok (), t')"
  obtains a i where "ast_current_mut t h = Ok a" "as_root a \<noteq> None"
    "\<not> list_ex (\<lambda>existing. case existing of None \<Rightarrow> False | Some n \<Rightarrow> vm_overlaps n m) (as_mappings a)"
    "i < length (as_mappings a)" "as_mappings a ! i = None"
    "t' = ast_put t h (a\<lparr>as_mappings := (as_mappings a)[i := Some m]\<rparr>)"
proof -
  from assms obtain a i where a: "ast_current_mut t h = Ok a" "as_root a \<noteq> None"
      "\<not> list_ex (\<lambda>existing. case existing of None \<Rightarrow> False | Some n \<Rightarrow> vm_overlaps n m) (as_mappings a)"
      "position (\<lambda>slot. slot = None) (as_mappings a) = Some i"
      "t' = ast_put t h (a\<lparr>as_mappings := (as_mappings a)[i := Some m]\<rparr>)"
    by (auto simp: ast_map_def split: sum.splits if_splits option.splits)
  with position_SomeD [OF a(4)] show thesis by (intro that)
qed

lemma ast_map_Err: "ast_map t h m = (Err e, t') \<Longrightarrow> t' = t"
  by (auto simp: ast_map_def split: sum.splits if_splits option.splits)

lemma ast_map_inv:
  assumes inv: "ast_inv t" and m: "vm_wf m"
  shows "ast_inv (snd (ast_map t h m))"
proof (cases "ast_map t h m")
  case (Pair r t')
  show ?thesis
  proof (cases r)
    case (Inl e)
    then show ?thesis using Pair ast_map_Err inv by fastforce
  next
    case (Inr u)
    then have "ast_map t h m = (Ok (), t')" using Pair by simp
    then obtain a i where a: "ast_current_mut t h = Ok a" "as_root a \<noteq> None"
      "\<not> list_ex (\<lambda>existing. case existing of None \<Rightarrow> False | Some n \<Rightarrow> vm_overlaps n m) (as_mappings a)"
      "i < length (as_mappings a)" "as_mappings a ! i = None"
      "t' = ast_put t h (a\<lparr>as_mappings := (as_mappings a)[i := Some m]\<rparr>)"
      by (rule ast_map_Ok)
    have ok: "as_slot_ok a" using inv a(1) by (rule ast_current_ok)
    then have "mappings_disjoint ((as_mappings a)[i := Some m])"
      using map_room [OF ok m a(3)] by (intro mappings_disjoint_add) (auto simp: as_slot_ok_def)
    moreover have "\<forall>n. Some n \<in> set ((as_mappings a)[i := Some m]) \<longrightarrow> vm_wf n"
      using ok m by (auto simp: as_slot_ok_def dest!: set_updateD)
    ultimately have "as_slot_ok (a\<lparr>as_mappings := (as_mappings a)[i := Some m]\<rparr>)"
      using ok a(1,2) by (auto simp: as_slot_ok_def ast_current_mut_Ok)
    with inv a(6) Pair show ?thesis by (simp add: ast_inv_put)
  qed
qed

lemma ast_unmap_Ok:
  assumes "ast_unmap t h index = (Ok m, t')"
  obtains a where "ast_current_mut t h = Ok a" "index < length (as_mappings a)"
    "as_mappings a ! index = Some m" "t' = ast_put t h (a\<lparr>as_mappings := (as_mappings a)[index := None]\<rparr>)"
  using assms that
  by (auto simp: ast_unmap_def split: sum.splits option.splits)

lemma ast_unmap_Err: "ast_unmap t h index = (Err e, t') \<Longrightarrow> t' = t"
  by (auto simp: ast_unmap_def split: sum.splits option.splits)

lemma ast_unmap_inv:
  assumes inv: "ast_inv t"
  shows "ast_inv (snd (ast_unmap t h index))"
proof (cases "ast_unmap t h index")
  case (Pair r t')
  show ?thesis
  proof (cases r)
    case (Inl e)
    then show ?thesis using Pair ast_unmap_Err inv by fastforce
  next
    case (Inr m)
    with Pair obtain a where a: "ast_current_mut t h = Ok a" "index < length (as_mappings a)"
      "t' = ast_put t h (a\<lparr>as_mappings := (as_mappings a)[index := None]\<rparr>)"
      by (auto elim: ast_unmap_Ok)
    then have "as_slot_ok (a\<lparr>as_mappings := (as_mappings a)[index := None]\<rparr>)"
      using ast_current_ok [OF inv a(1)]
      by (auto simp: as_slot_ok_def mappings_disjoint_remove dest!: set_updateD)
    with inv a Pair show ?thesis by (simp add: ast_inv_put)
  qed
qed

lemma process_next_generation_wrapping: "process_next_generation = wrapping_next"
  by (rule ext) (simp add: process_next_generation_def max_wrapping_next)

lemma ast_release_inv: "ast_inv t \<Longrightarrow> ast_inv (snd (ast_release t h))"
  using ast_current_ok [of t h]
  by (auto simp: ast_release_def as_slot_ok_def process_next_generation_wrapping
      intro!: ast_inv_put split: sum.splits)

lemmas ast_inv_ops [invariant_intros] =
  ast_reserve_inv ast_bind_root_inv ast_map_inv ast_unmap_inv ast_release_inv

section \<open>The slot contract\<close>

inductive ast_step :: "address_space_table \<Rightarrow> address_space_table \<Rightarrow> bool" where
  ast_step_reserve: "ast_step t (snd (ast_reserve t))"
| ast_step_bind_root: "ast_step t (snd (ast_bind_root t h root))"
| ast_step_map: "vm_built m \<Longrightarrow> ast_step t (snd (ast_map t h m))"
| ast_step_unmap: "ast_step t (snd (ast_unmap t h index))"
| ast_step_release: "ast_step t (snd (ast_release t h))"

definition ast_gen :: "address_space_table \<Rightarrow> nat \<Rightarrow> nat" where
  "ast_gen t i = (if i < length (ast_slots t) then unat (as_generation (ast_slots t ! i)) else 1)"

definition ast_live :: "address_space_table \<Rightarrow> nat \<Rightarrow> bool" where
  "ast_live t i \<longleftrightarrow> i < length (ast_slots t) \<and> as_state (ast_slots t ! i) = AsReserved"

lemma ast_step_inv: "ast_step t t' \<Longrightarrow> ast_inv t \<Longrightarrow> ast_inv t'"
  by (induction rule: ast_step.induct) (simp_all add: invariant_intros vm_built_wf)

text \<open>Each call rewrites at most one slot, and keeps its generation unless it releases it.\<close>

lemma ast_put_generation:
  assumes "ast_current_mut t h = Ok a"
    and "as_generation a' = as_generation a \<and> as_state a' = AsReserved
      \<or> as_generation a' = wrapping_next (as_generation a)"
  shows "ast_gen (ast_put t h a') i = ast_gen t i \<and> (ast_live t i \<longrightarrow> ast_live (ast_put t h a') i)
    \<or> ast_gen (ast_put t h a') i = cyc_next (2 ^ 64) (ast_gen t i)"
  using assms
  by (auto simp: ast_current_mut_Ok ast_put_def ast_gen_def ast_live_def nth_list_update unat_wrapping_next)

inductive ast_rewrite :: "address_space_table \<Rightarrow> address_space_table \<Rightarrow> bool" where
  ast_keep: "ast_rewrite t t"
| ast_replace: "\<lbrakk>ast_current_mut t h = Ok a; as_generation a' = as_generation a \<and> as_state a' = AsReserved
      \<or> as_generation a' = wrapping_next (as_generation a)\<rbrakk> \<Longrightarrow> ast_rewrite t (ast_put t h a')"

lemma ast_current_reserved: "ast_current_mut t h = Ok a \<Longrightarrow> as_state a = AsReserved"
  by (simp add: ast_current_mut_Ok)

lemma ast_ops_rewrite:
  "ast_rewrite t (snd (ast_bind_root t h root))" "ast_rewrite t (snd (ast_map t h m))"
  "ast_rewrite t (snd (ast_unmap t h index))" "ast_rewrite t (snd (ast_release t h))"
  by (auto simp: ast_bind_root_def ast_map_def ast_unmap_def ast_release_def
      process_next_generation_wrapping split: sum.splits option.splits
      intro!: ast_rewrite.intros dest: ast_current_reserved)

lemma ast_step_generation:
  assumes "ast_step t t'"
  shows "ast_gen t' i = ast_gen t i \<and> (ast_live t i \<longrightarrow> ast_live t' i)
    \<or> ast_gen t' i = cyc_next (2 ^ 64) (ast_gen t i)"
proof (cases "t' = snd (ast_reserve t)")
  case True
  show ?thesis
    unfolding True
    by (cases t rule: ast_reserve_cases) (auto simp: ast_gen_def ast_live_def nth_list_update)
next
  case False
  with assms have "ast_rewrite t t'" by cases (auto simp: ast_ops_rewrite)
  then show ?thesis by cases (use ast_put_generation in auto)
qed

interpretation address_space_slots: generation_slots "2 ^ 64" ast_step ast_inv ast_gen ast_live
proof
  fix t t' :: address_space_table and i
  assume inv: "ast_inv t"
  show range: "0 < ast_gen t i \<and> ast_gen t i < 2 ^ 64"
    using inv u64_bound [of "as_generation (ast_slots t ! i)"]
    by (auto simp: ast_inv_def ast_gen_def as_slot_ok_def unat_gt_0)
  assume step: "ast_step t t'"
  then show "ast_inv t'" using inv by (rule ast_step_inv)
  show "ast_gen t' i = ast_gen t i \<or> ast_gen t' i = cyc_next (2 ^ 64) (ast_gen t i)"
    using ast_step_generation [OF step, of i] by blast
  show "ast_live t i \<Longrightarrow> \<not> ast_live t' i \<Longrightarrow> ast_gen t' i \<noteq> ast_gen t i"
    using ast_step_generation [OF step, of i] cyc_next_neq [of "2 ^ 64" "ast_gen t i"] range by auto
qed simp

section \<open>Properties\<close>

lemma ast_inv_reachable: "ast_step\<^sup>*\<^sup>* address_space_table_new t \<Longrightarrow> ast_inv t"
  by (induction rule: rtranclp_induct) (auto simp: ast_inv_new intro: ast_step_inv)

text \<open>The translation of the address space that a handle names: nothing for a stale handle.\<close>

definition ast_translate ::
    "address_space_table \<Rightarrow> address_space_handle \<Rightarrow> nat \<Rightarrow> (nat \<times> mapping_flags) option" where
  "ast_translate t h v =
     (case ast_current_mut t h of Inl e \<Rightarrow> None | Inr a \<Rightarrow> mappings_view (as_mappings a) v)"

lemma ash_eq_iff: "h = k \<longleftrightarrow> ash_slot h = ash_slot k \<and> ash_generation h = ash_generation k"
  for h k :: address_space_handle
  by (cases h, cases k) simp

lemma ast_translate_put:
  assumes "ast_current_mut t h = Ok a" and "as_generation a' = as_generation a" and "as_state a' = AsReserved"
  shows "ast_translate (ast_put t h a') k v =
    (if k = h then mappings_view (as_mappings a') v else ast_translate t k v)"
  using assms
  by (auto simp: ast_translate_def ast_current_mut_def ast_put_def slice_get_update ash_eq_iff slot_simps
      split: option.splits if_splits)

lemma ast_map_translation:
  assumes inv: "ast_inv t" and m: "vm_wf m" and map: "ast_map t h m = (Ok (), t')"
  shows "ast_translate t' k v = (if k = h \<and> v \<in> vm_range m
        then Some (unat (vm_physical_address m) + (v - unat (vm_virtual_address m)), vm_flags m)
        else ast_translate t k v)"
proof -
  from map obtain a i where a: "ast_current_mut t h = Ok a"
      "\<not> list_ex (\<lambda>existing. case existing of None \<Rightarrow> False | Some n \<Rightarrow> vm_overlaps n m) (as_mappings a)"
      "i < length (as_mappings a)" "as_mappings a ! i = None"
      "t' = ast_put t h (a\<lparr>as_mappings := (as_mappings a)[i := Some m]\<rparr>)"
    by (rule ast_map_Ok)
  have ok: "as_slot_ok a" using inv a(1) by (rule ast_current_ok)
  have "mappings_view ((as_mappings a)[i := Some m]) v =
      (if v \<in> vm_range m then vm_translate m v else mappings_view (as_mappings a) v)"
    using ok a(3,4) map_room [OF ok m a(2)] by (intro mappings_view_add) (auto simp: as_slot_ok_def)
  moreover have "ast_translate t h v = mappings_view (as_mappings a) v"
    by (simp add: ast_translate_def a(1))
  moreover have "v \<in> vm_range m \<Longrightarrow> vm_translate m v
      = Some (unat (vm_physical_address m) + (v - unat (vm_virtual_address m)), vm_flags m)"
    by (simp add: vm_translate_def vm_range_def)
  ultimately show ?thesis
    using a(1,5) ast_current_reserved [OF a(1)] by (simp add: ast_translate_put)
qed

lemma ast_unmap_translation:
  assumes inv: "ast_inv t" and unmap: "ast_unmap t h index = (Ok n, t')"
  shows "ast_mapping t h index = Some n
    \<and> ast_translate t' k v = (if k = h \<and> v \<in> vm_range n then None else ast_translate t k v)"
proof -
  from unmap obtain a where a: "ast_current_mut t h = Ok a" "index < length (as_mappings a)"
      "as_mappings a ! index = Some n" "t' = ast_put t h (a\<lparr>as_mappings := (as_mappings a)[index := None]\<rparr>)"
    by (rule ast_unmap_Ok)
  have "mappings_view ((as_mappings a)[index := None]) v =
      (if v \<in> vm_range n then None else mappings_view (as_mappings a) v)"
    using ast_current_ok [OF inv a(1)] a(2,3) by (intro mappings_view_remove) (auto simp: as_slot_ok_def)
  moreover have "ast_translate t h v = mappings_view (as_mappings a) v"
    by (simp add: ast_translate_def a(1))
  moreover have "ast_mapping t h index = Some n"
    using a by (simp add: ast_mapping_def ast_current_mut_Ok slice_get_def)
  ultimately show ?thesis
    using a(1,4) ast_current_reserved [OF a(1)] by (simp add: ast_translate_put)
qed


text \<open>A table with one address space whose root is bound, for the examples below.\<close>

definition ast_example :: address_space_table where
  "ast_example = snd (ast_bind_root (snd (ast_reserve address_space_table_new))
     \<lparr>ash_slot = 0, ash_generation = 1\<rparr> (AddressSpaceRoot 0x5000))"

definition vm_example :: virtual_mapping where
  "vm_example = \<lparr>vm_virtual_address = 0x400000, vm_physical_address = 0x9000, vm_pages = 2,
     vm_flags = flags_data\<rparr>"

lemma vm_example_built: "vm_built vm_example"
  unfolding vm_built_def
  by (intro exI [of _ "0x400000"] exI [of _ "0x9000"] exI [of _ 2] exI [of _ flags_data] exI [of _ 512])
    (simp add: vm_new_with_limit_def checked_mul_def checked_add_def vm_example_def flags_data_def mf_valid_def)

lemma ast_example_reachable: "ast_step\<^sup>*\<^sup>* address_space_table_new ast_example"
proof -
  have "ast_step\<^sup>*\<^sup>* address_space_table_new (snd (ast_reserve address_space_table_new))"
    using ast_step_reserve by (rule r_into_rtranclp)
  then show ?thesis
    unfolding ast_example_def using ast_step_bind_root by (rule rtranclp.rtrancl_into_rtrancl)
qed

lemma ast_reserve_new:
  "ast_reserve address_space_table_new = (Ok \<lparr>ash_slot = 0, ash_generation = 1\<rparr>,
     \<lparr>ast_slots = (replicate 16 address_space_slot_empty)
        [0 := address_space_slot_empty\<lparr>as_state := AsReserved\<rparr>]\<rparr>)"
  by (simp add: ast_reserve_def address_space_table_new_def position_replicate Let_def
      address_space_slot_empty_def)

lemma ast_example_slots:
  "ast_slots ast_example = (replicate 16 address_space_slot_empty)
     [0 := address_space_slot_empty\<lparr>as_state := AsReserved, as_root := Some (AddressSpaceRoot 0x5000)\<rparr>]"
  by (simp add: ast_example_def ast_reserve_new ast_bind_root_def ast_current_mut_def ast_put_def
      slice_get_def address_space_slot_empty_def)

lemma ast_example_current:
  "ast_current_mut ast_example \<lparr>ash_slot = 0, ash_generation = 1\<rparr> =
     Ok (address_space_slot_empty\<lparr>as_state := AsReserved, as_root := Some (AddressSpaceRoot 0x5000)\<rparr>)"
  by (simp add: ast_current_mut_def ast_example_slots slice_get_def address_space_slot_empty_def)

lemma ast_map_example:
  "ast_map ast_example \<lparr>ash_slot = 0, ash_generation = 1\<rparr> vm_example =
     (Ok (), ast_put ast_example \<lparr>ash_slot = 0, ash_generation = 1\<rparr>
       (address_space_slot_empty\<lparr>as_state := AsReserved, as_root := Some (AddressSpaceRoot 0x5000),
          as_mappings := (replicate 64 None)[0 := Some vm_example]\<rparr>))"
  by (simp add: ast_map_def ast_example_current address_space_slot_empty_def position_replicate list_ex_iff)


text \<open>
  C31: In every reachable address-space table, every address a user address space translates is a
  user address between \<open>0x1000\<close> and \<open>2 ^ 47\<close>, mapped for user access and never writable and
  executable at once; a mapping never exposes physical page zero; and the mappings of one address
  space never overlap.
\<close>

theorem address_spaces_are_safe:
  assumes "ast_step\<^sup>*\<^sup>* address_space_table_new t"
  shows "(ast_translate t h v = Some (p, f) \<longrightarrow> 4096 \<le> v \<and> v < 2 ^ 47 \<and> 4096 \<le> p \<and> p < 2 ^ 64
      \<and> mf_user f \<and> \<not> (mf_writable f \<and> mf_executable f))
    \<and> (ast_mapping t h i = Some m \<and> ast_mapping t h j = Some n \<and> i \<noteq> j \<longrightarrow> vm_range m \<inter> vm_range n = {})"
proof -
  have inv: "ast_inv t" using assms by (rule ast_inv_reachable)
  have safe: "4096 \<le> v \<and> v < 2 ^ 47 \<and> 4096 \<le> p \<and> p < 2 ^ 64 \<and> mf_user f \<and> \<not> (mf_writable f \<and> mf_executable f)"
    if "ast_translate t h v = Some (p, f)"
  proof -
    from that obtain a where a: "ast_current_mut t h = Ok a" "mappings_view (as_mappings a) v = Some (p, f)"
      by (auto simp: ast_translate_def split: sum.splits)
    then obtain m where m: "Some m \<in> set (as_mappings a)" "vm_translate m v = Some (p, f)"
      using mappings_view_SomeD by blast
    then have "vm_wf m" using ast_current_ok [OF inv a(1)] by (auto simp: as_slot_ok_def)
    moreover from this have "4096 \<le> unat (vm_virtual_address m)" "4096 \<le> unat (vm_physical_address m)"
      by (simp_all add: vm_wf_def dvd_imp_le mod_eq_0_iff_dvd)
    ultimately show ?thesis
      using m(2) by (auto simp: vm_wf_def vm_translate_def mf_valid_def split: if_splits)
  qed
  have "vm_range m \<inter> vm_range n = {}" if "ast_mapping t h i = Some m" "ast_mapping t h j = Some n" "i \<noteq> j"
  proof -
    from that obtain a where a: "ast_current_mut t h = Ok a" "i < length (as_mappings a)"
      "j < length (as_mappings a)" "as_mappings a ! i = Some m" "as_mappings a ! j = Some n"
      by (auto simp: ast_mapping_def ast_current_mut_def Option.bind_eq_Some_conv split: option.splits if_splits)
    then have "mappings_disjoint (as_mappings a)"
      using ast_current_ok [OF inv a(1)] by (simp add: as_slot_ok_def)
    then show ?thesis using a that(3) by (intro mappings_disjointD)
  qed
  with safe show ?thesis by blast
qed

theorem address_spaces_are_safe_witness:
  "let t = snd (ast_map ast_example \<lparr>ash_slot = 0, ash_generation = 1\<rparr> vm_example)
   in ast_mapping t \<lparr>ash_slot = 0, ash_generation = 1\<rparr> 0 = Some vm_example
      \<and> (\<forall>v p f. ast_translate t \<lparr>ash_slot = 0, ash_generation = 1\<rparr> v = Some (p, f)
           \<longrightarrow> 4096 \<le> v \<and> \<not> (mf_writable f \<and> mf_executable f))"
proof -
  let ?h = "\<lparr>ash_slot = 0, ash_generation = 1\<rparr> :: address_space_handle"
  let ?t = "snd (ast_map ast_example ?h vm_example)"
  have reach: "ast_step\<^sup>*\<^sup>* address_space_table_new ?t"
    using ast_example_reachable ast_step_map [OF vm_example_built] by (rule rtranclp.rtrancl_into_rtrancl)
  have "ast_mapping ?t ?h 0 = Some vm_example"
    by (simp add: ast_map_example ast_mapping_def ast_put_def slice_get_def ast_example_slots
        address_space_slot_empty_def)
  moreover have "ast_translate ?t ?h v = Some (p, f) \<longrightarrow> 4096 \<le> v \<and> \<not> (mf_writable f \<and> mf_executable f)" for v p f
    using address_spaces_are_safe [OF reach, where h = ?h and v = v and p = p and f = f] by blast
  ultimately show ?thesis unfolding Let_def by blast
qed

end
