(* ===== verification/Elf_Plan.thy ===== *)
theory Elf_Plan
  imports Address_Space
begin

text \<open>
  ELF admission, the second half of \<open>src/process.rs\<close>: parsing an image into a bounded load plan
  through an \<open>ImageReader\<close>. A reader is a state with a length and a read operation; the locales
  state what parsing needs of it, and the slice reader of the code is an instance. The theory
  shows that parsing never panics, that the plan it accepts is safe to load, and that the batched
  reading of program headers computes the same plan as reading each header alone.
\<close>

section \<open>Little-endian fields\<close>

abbreviation MAX_PROGRAM_HEADERS :: nat where "MAX_PROGRAM_HEADERS \<equiv> 16"

fun from_le_bytes :: "u8 list \<Rightarrow> 'a::len word" where
  "from_le_bytes [] = 0"
| "from_le_bytes (b # bs) = ucast b OR push_bit 8 (from_le_bytes bs)"

definition read_le_at :: "nat \<Rightarrow> u8 list \<Rightarrow> nat \<Rightarrow> 'a::len word option" where
  "read_le_at n bytes offset =
     (if offset + n \<le> length bytes then Some (from_le_bytes (take n (drop offset bytes))) else None)"

definition read_u16_at :: "u8 list \<Rightarrow> nat \<Rightarrow> u16 option" where
  "read_u16_at = read_le_at 2"

definition read_u32_at :: "u8 list \<Rightarrow> nat \<Rightarrow> u32 option" where
  "read_u32_at = read_le_at 4"

definition read_u64_at :: "u8 list \<Rightarrow> nat \<Rightarrow> u64 option" where
  "read_u64_at = read_le_at 8"

definition usize_from_u64 :: "u64 \<Rightarrow> process_error + usize" where
  "usize_from_u64 value = (if value \<le> - 1 then Ok value else Err PeInvalidImage)"

section \<open>Plans\<close>

record load_segment =
  seg_file_offset :: usize
  seg_virtual_address :: usize
  seg_file_size :: usize
  seg_memory_size :: usize
  seg_flags :: mapping_flags

definition seg_file_bytes :: "load_segment \<Rightarrow> u8 list \<Rightarrow> u8 list option" where
  "seg_file_bytes seg img =
     (let end = seg_file_offset seg + seg_file_size seg
      in if seg_file_offset seg \<le> end \<and> unat end \<le> length img
         then Some (take (unat end - unat (seg_file_offset seg)) (drop (unat (seg_file_offset seg)) img))
         else None)"

record elf_load_plan =
  ep_entry :: usize
  ep_segments :: "load_segment option list"
  ep_count :: usize
  ep_memory_bytes :: usize

definition ep_segment :: "elf_load_plan \<Rightarrow> usize \<Rightarrow> load_segment option" where
  "ep_segment plan index =
     (if index < ep_count plan then Option.bind (slice_get (ep_segments plan) (unat index)) (\<lambda>s. s)
      else None)"

section \<open>Parsing\<close>

type_synonym 'a elf_result = "process_error fault + 'a"

abbreviation invalid_image :: "process_error fault" where "invalid_image \<equiv> Failed PeInvalidImage"

text \<open>A field read with \<open>ok_or(InvalidImage)?\<close> and converted to \<open>usize\<close>.\<close>

definition usize_field :: "u8 list \<Rightarrow> nat \<Rightarrow> usize elf_result" where
  "usize_field bytes offset =
     result_bind (ok_or (read_u64_at bytes offset) invalid_image)
       (\<lambda>value. map_sum Failed id (usize_from_u64 value))"

text \<open>The checks on the 64-byte file header: entry, program-header offset, entry size and count.\<close>

definition elf_header :: "usize \<Rightarrow> u8 list \<Rightarrow> (usize \<times> usize \<times> usize \<times> usize) elf_result" where
  "elf_header len header =
     (if take 4 header \<noteq> [0x7f, 0x45, 0x4c, 0x46] \<or> slice_get header 4 \<noteq> Some 2
         \<or> slice_get header 5 \<noteq> Some 1 \<or> read_u16_at header 18 \<noteq> Some 0x3e
         \<or> read_u16_at header 16 \<noteq> Some 2
      then Err invalid_image
      else
        result_bind (usize_field header 24) (\<lambda>entry.
        result_bind (usize_field header 32) (\<lambda>ph_offset.
        result_bind (ok_or (read_u16_at header 54) invalid_image) (\<lambda>entry_size.
        result_bind (ok_or (read_u16_at header 56) invalid_image) (\<lambda>count.
        let ph_entry_size = ucast entry_size; ph_count = ucast count in
        result_bind (ok_or (checked_mul ph_entry_size ph_count) invalid_image) (\<lambda>ph_bytes.
        if entry = 0 \<or> ph_entry_size < 56 \<or> ph_count = 0 \<or> ph_count > of_nat MAX_PROGRAM_HEADERS
           \<or> checked_add ph_offset ph_bytes = None \<or> ph_offset + ph_bytes > len
        then Err invalid_image
        else Ok (entry, ph_offset, ph_entry_size, ph_count)))))))"

text \<open>One round of the program-header loop: the checks on a loadable segment, and the header's fields.\<close>

definition elf_admit ::
    "usize \<Rightarrow> u32 \<Rightarrow> usize \<Rightarrow> usize \<Rightarrow> usize \<Rightarrow> usize \<Rightarrow> elf_load_plan \<times> bool
      \<Rightarrow> (elf_load_plan \<times> bool) elf_result" where
  "elf_admit len flags file_offset virtual_address file_size memory_size = (\<lambda>(plan, entry_executable).
     result_bind (ok_or (checked_add file_offset file_size) invalid_image) (\<lambda>file_end.
     result_bind (ok_or (checked_add virtual_address memory_size) invalid_image) (\<lambda>virtual_end.
     if memory_size = 0 \<or> file_size > memory_size \<or> file_end > len \<or> virtual_address < 0x1000
        \<or> virtual_end > USER_SPACE_END \<or> memory_size > MAX_IMAGE_BYTES
        \<or> flags AND 1 \<noteq> 0 \<and> flags AND 2 \<noteq> 0
        \<or> checked_add (ep_memory_bytes plan) memory_size = None
        \<or> ep_memory_bytes plan + memory_size > MAX_IMAGE_BYTES
     then Err invalid_image
     else
       let segment = \<lparr>seg_file_offset = file_offset, seg_virtual_address = virtual_address,
             seg_file_size = file_size, seg_memory_size = memory_size,
             seg_flags = \<lparr>mf_user = True, mf_writable = flags AND 2 \<noteq> 0,
                          mf_executable = flags AND 1 \<noteq> 0\<rparr>\<rparr>
       in if ep_count plan = of_nat MAX_PROGRAM_HEADERS then Err invalid_image
          else if unat (ep_count plan) \<ge> length (ep_segments plan) then Err Panicked
          else Ok (plan\<lparr>ep_segments := (ep_segments plan)[unat (ep_count plan) := Some segment],
                       ep_count := ep_count plan + 1,
                       ep_memory_bytes := ep_memory_bytes plan + memory_size\<rparr>,
                   entry_executable \<or> (mf_executable (seg_flags segment)
                     \<and> virtual_address \<le> ep_entry plan \<and> ep_entry plan < virtual_end)))))"

definition elf_segment ::
    "usize \<Rightarrow> u8 list \<Rightarrow> elf_load_plan \<times> bool \<Rightarrow> (elf_load_plan \<times> bool) elf_result" where
  "elf_segment len program_header acc =
     result_bind (ok_or (read_u32_at program_header 0) invalid_image) (\<lambda>kind.
     if kind \<noteq> 1 then Ok acc
     else
       result_bind (ok_or (read_u32_at program_header 4) invalid_image) (\<lambda>flags.
       result_bind (usize_field program_header 8) (\<lambda>file_offset.
       result_bind (usize_field program_header 16) (\<lambda>virtual_address.
       result_bind (usize_field program_header 32) (\<lambda>file_size.
       result_bind (usize_field program_header 40) (\<lambda>memory_size.
       elf_admit len flags file_offset virtual_address file_size memory_size acc))))))"

definition elf_empty_plan :: "usize \<Rightarrow> elf_load_plan" where
  "elf_empty_plan entry = \<lparr>ep_entry = entry, ep_segments = replicate MAX_PROGRAM_HEADERS None,
     ep_count = 0, ep_memory_bytes = 0\<rparr>"

definition elf_finish :: "elf_load_plan \<times> bool \<Rightarrow> elf_load_plan elf_result" where
  "elf_finish = (\<lambda>(plan, entry_executable).
     if ep_count plan = 0 \<or> \<not> entry_executable then Err invalid_image else Ok plan)"

text \<open>
  The reader is its state with the two operations of the trait: \<open>len\<close>, and \<open>read\<close>, which
  returns the amount or an error together with the output buffer it leaves.
\<close>

type_synonym 's reader_len = "'s \<Rightarrow> usize"
type_synonym 's reader_read = "'s \<Rightarrow> usize \<Rightarrow> u8 list \<Rightarrow> (process_error + usize) \<times> u8 list \<times> 's"

definition read_exact ::
    "'s reader_len \<Rightarrow> 's reader_read \<Rightarrow> 's \<Rightarrow> usize \<Rightarrow> u8 list \<Rightarrow> u8 list elf_result \<times> 's" where
  "read_exact len read s offset output =
     (case checked_add offset (of_nat (length output)) of
        None \<Rightarrow> (Err invalid_image, s)
      | Some end \<Rightarrow>
          if end > len s then (Err invalid_image, s)
          else (case read s offset output of
                  (Inl e, output', s') \<Rightarrow> (Err (Failed e), s')
                | (Inr amount, output', s') \<Rightarrow>
                    if amount = of_nat (length output) then (Ok output', s')
                    else (Err (Failed PeReadFailure), s')))"

primrec elf_headers_loop ::
    "'s reader_len \<Rightarrow> 's reader_read \<Rightarrow> usize \<Rightarrow> usize \<Rightarrow> u8 list \<Rightarrow> nat list
      \<Rightarrow> elf_load_plan \<times> bool \<Rightarrow> 's \<Rightarrow> (elf_load_plan \<times> bool) elf_result \<times> 's" where
  "elf_headers_loop len read ph_offset ph_entry_size program_headers [] acc s = (Ok acc, s)"
| "elf_headers_loop len read ph_offset ph_entry_size program_headers (index # rest) acc s =
     state_bind
       (if ph_entry_size = 56 then (slice_range program_headers (index * 56) (index * 56 + 56), s)
        else read_exact len read s (ph_offset + of_nat index * ph_entry_size) (replicate 56 0))
       (\<lambda>program_header s.
          state_bind (elf_segment (len s) program_header acc, s)
            (elf_headers_loop len read ph_offset ph_entry_size program_headers rest))"

definition elf_parse_reader ::
    "'s reader_len \<Rightarrow> 's reader_read \<Rightarrow> 's \<Rightarrow> elf_load_plan elf_result \<times> 's" where
  "elf_parse_reader len read s =
     (if len s < 64 \<or> len s > MAX_IMAGE_BYTES then (Err invalid_image, s)
      else
        state_bind (read_exact len read s 0 (replicate 64 0)) (\<lambda>header s.
        state_bind (elf_header (len s) header, s) (\<lambda>(entry, ph_offset, ph_entry_size, ph_count) s.
        let ph_bytes = ph_entry_size * ph_count;
            program_headers = replicate (MAX_PROGRAM_HEADERS * 56) 0 in
        state_bind
          (if ph_entry_size = 56
           then state_bind (slice_range program_headers 0 (unat ph_bytes), s) (\<lambda>output s.
                state_bind (read_exact len read s ph_offset output) (\<lambda>output s.
                (Ok (output @ drop (unat ph_bytes) program_headers), s)))
           else (Ok program_headers, s))
          (\<lambda>program_headers s.
        state_bind
          (elf_headers_loop len read ph_offset ph_entry_size program_headers [0..<unat ph_count]
             (elf_empty_plan entry, False) s)
          (\<lambda>acc s. (elf_finish acc, s))))))"

section \<open>The slice reader\<close>

definition slice_reader_len :: "u8 list reader_len" where
  "slice_reader_len img = of_nat (length img)"

definition slice_reader_read :: "u8 list reader_read" where
  "slice_reader_read img offset output =
     (case checked_add offset (of_nat (length output)) of
        None \<Rightarrow> (Err PeReadFailure, output, img)
      | Some end \<Rightarrow>
          if unat end \<le> length img
          then (Ok (of_nat (length output)), take (length output) (drop (unat offset) img), img)
          else (Err PeReadFailure, output, img))"

definition elf_parse :: "u8 list \<Rightarrow> elf_load_plan elf_result" where
  "elf_parse img = fst (elf_parse_reader slice_reader_len slice_reader_read img)"

definition validate_elf :: "u8 list \<Rightarrow> u64 elf_result" where
  "validate_elf img = result_bind (elf_parse img) (\<lambda>plan. Ok (ep_entry plan))"

section \<open>Parsing without a reader\<close>

text \<open>The specification reads every program header straight from the bytes of the file.\<close>

primrec elf_spec_loop ::
    "u8 list \<Rightarrow> nat \<Rightarrow> nat \<Rightarrow> nat list \<Rightarrow> elf_load_plan \<times> bool \<Rightarrow> (elf_load_plan \<times> bool) elf_result" where
  "elf_spec_loop file off esz [] acc = Ok acc"
| "elf_spec_loop file off esz (i # is) acc =
     result_bind (elf_segment (of_nat (length file)) (take 56 (drop (off + i * esz) file)) acc)
       (elf_spec_loop file off esz is)"

definition elf_spec :: "u8 list \<Rightarrow> elf_load_plan elf_result" where
  "elf_spec file =
     (if length file < 64 \<or> length file > 2048 * 1024 then Err invalid_image
      else result_bind (elf_header (of_nat (length file)) (take 64 file)) (\<lambda>(entry, off, esz, cnt).
           result_bind (elf_spec_loop file (unat off) (unat esz) [0..<unat cnt] (elf_empty_plan entry, False))
             elf_finish))"

lemma elf_header_Ok:
  assumes "elf_header len header = Ok (entry, off, esz, cnt)"
  shows "entry \<noteq> 0" "56 \<le> unat esz" "0 < unat cnt" "unat cnt \<le> 16"
    "unat off + unat esz * unat cnt \<le> unat len" "unat (esz * cnt) = unat esz * unat cnt"
proof -
  from assms obtain ph_bytes where ph: "checked_mul esz cnt = Some ph_bytes"
    "\<not> (entry = 0 \<or> esz < 56 \<or> cnt = 0 \<or> cnt > of_nat MAX_PROGRAM_HEADERS
       \<or> checked_add off ph_bytes = None \<or> off + ph_bytes > len)"
    by (auto simp: elf_header_def Let_def result_bind_Ok ok_or_Ok split: if_splits)
  have bytes: "unat ph_bytes = unat esz * unat cnt" "ph_bytes = esz * cnt"
    using checked_mul_unat [OF ph(1)] ph(1) by (auto simp: checked_mul_def split: if_splits)
  from ph(2) have sum: "unat (off + ph_bytes) = unat off + unat ph_bytes" "off + ph_bytes \<le> len"
    by (auto simp: checked_add_def unat_add_no_overflow split: if_splits)
  show "entry \<noteq> 0" "56 \<le> unat esz" "0 < unat cnt" "unat cnt \<le> 16"
    using ph(2) by (auto simp: word_less_nat_alt word_le_nat_alt not_less unat_gt_0)
  show "unat off + unat esz * unat cnt \<le> unat len" "unat (esz * cnt) = unat esz * unat cnt"
    using sum bytes by (simp_all add: word_le_nat_alt)
qed

section \<open>Readers\<close>

text \<open>
  What parsing needs of a reader over a fixed file: it knows the length, and a read inside the
  file leaves the file as it is and either fills the output with the bytes at the offset or fails
  with one of the errors it may have.
\<close>

locale image_reader =
  fixes len :: "'s reader_len"
    and read :: "'s reader_read"
    and content :: "'s \<Rightarrow> u8 list"
    and fails :: "process_error set"
  assumes len_content: "length (content s) < 2 ^ 64 \<Longrightarrow> len s = of_nat (length (content s))"
    and read_in_range: "unat offset + length out \<le> length (content s) \<Longrightarrow> length (content s) < 2 ^ 64 \<Longrightarrow>
      (case read s offset out of
         (Inl e, out', s') \<Rightarrow> content s' = content s \<and> e \<in> fails
       | (Inr amount, out', s') \<Rightarrow> content s' = content s
           \<and> (if amount = of_nat (length out) then out' = take (length out) (drop (unat offset) (content s))
              else PeReadFailure \<in> fails))"
begin

lemma read_exact_in_range:
  assumes "unat offset + length out \<le> length (content s)" and "length (content s) < 2 ^ 64"
  obtains (bytes) s' where "read_exact len read s offset out
      = (Ok (take (length out) (drop (unat offset) (content s))), s')" "content s' = content s"
  | (failure) e s' where "read_exact len read s offset out = (Err (Failed e), s')" "e \<in> fails"
      "content s' = content s"
proof -
  have out: "unat (of_nat (length out) :: usize) = length out"
    using assms by (simp add: unat_of_nat)
  have fits: "unat offset + unat (of_nat (length out) :: usize) < 2 ^ LENGTH(64)"
    using assms out by simp
  then have add: "checked_add offset (of_nat (length out)) = Some (offset + of_nat (length out))"
    "unat (offset + of_nat (length out)) = unat offset + length out"
    using out unat_add_no_overflow [OF fits] by (simp_all add: checked_add_def)
  have "unat (len s) = length (content s)"
    using assms(2) by (simp add: len_content unat_of_nat)
  then have "\<not> offset + of_nat (length out) > len s"
    using add(2) assms(1) by (simp add: word_less_nat_alt)
  then have exact: "read_exact len read s offset out = (case read s offset out of
        (Inl e, output', s') \<Rightarrow> (Err (Failed e), s')
      | (Inr amount, output', s') \<Rightarrow>
          if amount = of_nat (length out) then (Ok output', s') else (Err (Failed PeReadFailure), s'))"
    using add(1) by (simp add: read_exact_def)
  obtain r out' s' where "read s offset out = (r, out', s')" by (cases "read s offset out")
  then show thesis
    using read_in_range [OF assms] exact bytes failure
    by (cases r) (auto split: if_splits)
qed

text \<open>Parsing gives what the specification gives, or one of the reader's own errors.\<close>

definition agrees :: "'a elf_result \<Rightarrow> 'a elf_result \<Rightarrow> bool" where
  "agrees r spec \<longleftrightarrow> r = spec \<or> (\<exists>e \<in> fails. r = Err (Failed e))"

lemma loop_agrees:
  assumes "length (content s) < 2 ^ 64" and "56 \<le> unat esz"
    and "\<forall>i \<in> set is. unat off + i * unat esz + unat esz \<le> length (content s)"
    and "esz = 56 \<longrightarrow> (\<forall>i \<in> set is. i * 56 + 56 \<le> length headers
           \<and> take 56 (drop (i * 56) headers) = take 56 (drop (unat off + i * 56) (content s)))"
  shows "agrees (fst (elf_headers_loop len read off esz headers is acc s))
    (elf_spec_loop (content s) (unat off) (unat esz) is acc)"
  using assms
proof (induction "is" arbitrary: acc s)
  case Nil
  then show ?case by (simp add: agrees_def)
next
  case (Cons i "is")
  have inside: "unat off + i * unat esz + 56 \<le> length (content s)" using Cons.prems by auto
  have offset: "unat (off + of_nat i * esz) = unat off + i * unat esz"
    using inside Cons.prems(1) by (intro unat_affine) simp
  let ?fetch = "if esz = 56 then (slice_range headers (i * 56) (i * 56 + 56), s)
      else read_exact len read s (off + of_nat i * esz) (replicate 56 0)"
  consider (bytes) s' where "?fetch = (Ok (take 56 (drop (unat off + i * unat esz) (content s))), s')"
      "content s' = content s"
    | (failure) e s' where "?fetch = (Err (Failed e), s')" "e \<in> fails"
  proof (cases "esz = 56")
    case True
    then have "slice_range headers (i * 56) (i * 56 + 56) = Ok (take 56 (drop (unat off + i * 56) (content s)))"
      using Cons.prems(4) by (simp add: slice_range_def)
    with True that(1) [of s] show ?thesis by simp
  next
    case False
    show ?thesis
      by (rule read_exact_in_range [of "off + of_nat i * esz" "replicate 56 0" s])
        (use False offset inside Cons.prems(1) that in auto)
  qed
  then show ?case
  proof cases
    case (bytes s')
    have "len s' = of_nat (length (content s))" using bytes(2) Cons.prems(1) by (simp add: len_content)
    then show ?thesis
      using bytes Cons.IH [of s'] Cons.prems
      by (cases "elf_segment (of_nat (length (content s)))
            (take 56 (drop (unat off + i * unat esz) (content s))) acc")
        (auto simp: agrees_def)
  next
    case (failure e s')
    then show ?thesis by (simp add: agrees_def)
  qed
qed

lemma headers_agree:
  assumes small: "length (content s) < 2 ^ 64" and "56 \<le> unat esz" and "unat cnt \<le> 16"
    and fit: "unat off + unat esz * unat cnt \<le> length (content s)"
    and headers: "esz = 56 \<Longrightarrow> headers = take (unat cnt * 56) (drop (unat off) (content s)) @ pad"
  shows "agrees (fst (state_bind
        (elf_headers_loop len read off esz headers [0..<unat cnt] (elf_empty_plan entry, False) s)
        (\<lambda>acc s. (elf_finish acc, s))))
    (result_bind (elf_spec_loop (content s) (unat off) (unat esz) [0..<unat cnt] (elf_empty_plan entry, False))
       elf_finish)"
proof -
  have room: "unat off + i * unat esz + unat esz \<le> length (content s)" if "i < unat cnt" for i
  proof -
    have "Suc i * unat esz \<le> unat cnt * unat esz" using that by (intro mult_le_mono1) simp
    with fit show ?thesis by (simp add: mult.commute)
  qed
  have batch: "i * 56 + 56 \<le> length headers
      \<and> take 56 (drop (i * 56) headers) = take 56 (drop (unat off + i * 56) (content s))"
    if "i < unat cnt" "esz = 56" for i
  proof -
    have len: "length (take (unat cnt * 56) (drop (unat off) (content s))) = unat cnt * 56"
      using fit that(2) by simp
    moreover have "i * 56 + 56 \<le> unat cnt * 56" using that(1) by simp
    ultimately have "take 56 (drop (i * 56) headers)
        = take 56 (drop (i * 56) (take (unat cnt * 56) (drop (unat off) (content s))))"
      and "i * 56 + 56 \<le> length headers"
      using that(2) by (simp_all add: headers)
    moreover have "take 56 (drop (i * 56) (take (unat cnt * 56) (drop (unat off) (content s))))
        = take 56 (drop (unat off + i * 56) (content s))"
      using \<open>i * 56 + 56 \<le> unat cnt * 56\<close> by (simp add: drop_take take_take min_def add.commute)
    ultimately show ?thesis by simp
  qed
  have "agrees (fst (elf_headers_loop len read off esz headers [0..<unat cnt] (elf_empty_plan entry, False) s))
      (elf_spec_loop (content s) (unat off) (unat esz) [0..<unat cnt] (elf_empty_plan entry, False))"
    using assms(2) small room batch by (intro loop_agrees) auto
  then show ?thesis
    by (cases "elf_headers_loop len read off esz headers [0..<unat cnt] (elf_empty_plan entry, False) s")
      (auto simp: agrees_def state_bind_def split: sum.splits)
qed

text \<open>Fetching the program headers, in one batch or one by one, and the loop over them.\<close>

definition fetch_and_load :: "usize \<Rightarrow> usize \<Rightarrow> usize \<Rightarrow> usize \<Rightarrow> 's \<Rightarrow> elf_load_plan elf_result \<times> 's" where
  "fetch_and_load entry off esz cnt s =
     (let zeros = replicate (MAX_PROGRAM_HEADERS * 56) 0 in
      state_bind
        (if esz = 56
         then state_bind (slice_range zeros 0 (unat (esz * cnt)), s) (\<lambda>output s.
              state_bind (read_exact len read s off output) (\<lambda>output s.
              (Ok (output @ drop (unat (esz * cnt)) zeros), s)))
         else (Ok zeros, s))
        (\<lambda>program_headers s. state_bind
          (elf_headers_loop len read off esz program_headers [0..<unat cnt] (elf_empty_plan entry, False) s)
          (\<lambda>acc s. (elf_finish acc, s))))"

lemma fetch_and_load_agrees:
  assumes small: "length (content s) < 2 ^ 64" and esz: "56 \<le> unat esz" and cnt: "unat cnt \<le> 16"
    and fit: "unat off + unat esz * unat cnt \<le> length (content s)"
    and bytes: "unat (esz * cnt) = unat esz * unat cnt"
  shows "agrees (fst (fetch_and_load entry off esz cnt s))
    (result_bind (elf_spec_loop (content s) (unat off) (unat esz) [0..<unat cnt] (elf_empty_plan entry, False))
       elf_finish)"
proof (cases "esz = 56")
  case False
  then show ?thesis
    using headers_agree [OF small esz cnt fit] by (simp add: fetch_and_load_def)
next
  case True
  let ?zeros = "replicate (MAX_PROGRAM_HEADERS * 56) (0 :: u8)"
  have slice: "slice_range ?zeros 0 (unat (esz * cnt)) = (Ok (replicate (unat cnt * 56) 0) :: u8 list elf_result)"
    using bytes cnt True by (simp add: slice_range_def)
  have "unat off + length (replicate (unat cnt * 56) (0 :: u8)) \<le> length (content s)"
    using fit True by (simp add: mult.commute)
  then show ?thesis
  proof (rule read_exact_in_range [OF _ small])
    fix e s'
    assume "read_exact len read s off (replicate (unat cnt * 56) 0) = (Err (Failed e), s')" "e \<in> fails"
    with True slice show ?thesis by (simp add: fetch_and_load_def agrees_def)
  next
    fix s2
    assume read: "read_exact len read s off (replicate (unat cnt * 56) 0)
        = (Ok (take (length (replicate (unat cnt * 56) (0 :: u8))) (drop (unat off) (content s))), s2)"
      and s2: "content s2 = content s"
    let ?headers = "take (unat cnt * 56) (drop (unat off) (content s2)) @ drop (unat (esz * cnt)) ?zeros"
    have "agrees (fst (state_bind
        (elf_headers_loop len read off esz ?headers [0..<unat cnt] (elf_empty_plan entry, False) s2)
        (\<lambda>acc s. (elf_finish acc, s))))
      (result_bind (elf_spec_loop (content s2) (unat off) (unat esz) [0..<unat cnt] (elf_empty_plan entry, False))
         elf_finish)"
      using small esz cnt fit s2 by (intro headers_agree) simp_all
    with True slice read s2 show ?thesis by (simp add: fetch_and_load_def)
  qed
qed

lemma parse_agrees:
  assumes small: "length (content s) < 2 ^ 64"
  shows "agrees (fst (elf_parse_reader len read s)) (elf_spec (content s))"
proof (cases "length (content s) < 64 \<or> length (content s) > 2048 * 1024")
  case True
  then have "len s < 64 \<or> len s > MAX_IMAGE_BYTES"
    using small by (simp add: len_content word_less_nat_alt unat_of_nat)
  with True show ?thesis by (simp add: elf_parse_reader_def elf_spec_def agrees_def)
next
  case False
  then have range: "\<not> (len s < 64 \<or> len s > MAX_IMAGE_BYTES)" "64 \<le> length (content s)"
    using small by (simp_all add: len_content word_less_nat_alt unat_of_nat)
  then have "unat (0 :: usize) + length (replicate 64 (0 :: u8)) \<le> length (content s)" by simp
  then show ?thesis
  proof (rule read_exact_in_range [OF _ small])
    fix e s'
    assume "read_exact len read s 0 (replicate 64 0) = (Err (Failed e), s')" "e \<in> fails"
    with range show ?thesis by (simp add: elf_parse_reader_def agrees_def)
  next
    fix s1
    assume header: "read_exact len read s 0 (replicate 64 0)
        = (Ok (take (length (replicate 64 (0 :: u8))) (drop (unat (0 :: usize)) (content s))), s1)"
      and s1: "content s1 = content s"
    have len1: "len s1 = of_nat (length (content s))" using s1 small by (simp add: len_content)
    show ?thesis
    proof (cases "elf_header (of_nat (length (content s))) (take 64 (content s))")
      case (Inl e)
      then show ?thesis
        using range header False len1 by (simp add: elf_parse_reader_def elf_spec_def agrees_def)
    next
      case (Inr h)
      obtain entry off esz cnt where h: "h = (entry, off, esz, cnt)" by (cases h)
      note ok = elf_header_Ok [OF Inr [unfolded h]]
      have "fst (elf_parse_reader len read s) = fst (fetch_and_load entry off esz cnt s1)"
        using range header Inr h len1 by (simp add: elf_parse_reader_def fetch_and_load_def Let_def)
      moreover have "elf_spec (content s) = result_bind (elf_spec_loop (content s1) (unat off) (unat esz)
          [0..<unat cnt] (elf_empty_plan entry, False)) elf_finish"
        using False Inr h s1 by (simp add: elf_spec_def)
      ultimately show ?thesis
        using fetch_and_load_agrees [of s1 esz cnt off entry] ok s1 small by (simp add: unat_of_nat)
    qed
  qed
qed

end

interpretation slice_reader:
  image_reader slice_reader_len slice_reader_read "\<lambda>img. img" "{}"
proof
  fix img out :: "u8 list" and offset :: usize
  assume range: "unat offset + length out \<le> length img" and small: "length img < 2 ^ 64"
  then have out: "unat (of_nat (length out) :: usize) = length out" by (simp add: unat_of_nat)
  have fits: "unat offset + unat (of_nat (length out) :: usize) < 2 ^ LENGTH(64)"
    using range small out by simp
  show "case slice_reader_read img offset out of
      (Inl e, out', s') \<Rightarrow> s' = img \<and> e \<in> {}
    | (Inr amount, out', s') \<Rightarrow> s' = img
        \<and> (if amount = of_nat (length out) then out' = take (length out) (drop (unat offset) img)
           else PeReadFailure \<in> {})"
    using range out unat_add_no_overflow [OF fits] fits
    by (simp add: slice_reader_read_def checked_add_def)
qed (simp add: slice_reader_len_def)

lemma elf_parse_spec: "length img < 2 ^ 64 \<Longrightarrow> elf_parse img = elf_spec img"
  using slice_reader.parse_agrees [of img] by (simp add: elf_parse_def slice_reader.agrees_def)

section \<open>Accepted plans\<close>

text \<open>What a loader may assume of a segment of a file of the given length.\<close>

definition seg_safe :: "nat \<Rightarrow> load_segment \<Rightarrow> bool" where
  "seg_safe n seg \<longleftrightarrow> 0 < unat (seg_memory_size seg)
     \<and> unat (seg_file_size seg) \<le> unat (seg_memory_size seg)
     \<and> unat (seg_file_offset seg) + unat (seg_file_size seg) \<le> n
     \<and> 0x1000 \<le> unat (seg_virtual_address seg)
     \<and> unat (seg_virtual_address seg) + unat (seg_memory_size seg) \<le> 2 ^ 47
     \<and> mf_valid (seg_flags seg)"

definition seg_covers :: "load_segment \<Rightarrow> usize \<Rightarrow> bool" where
  "seg_covers seg a \<longleftrightarrow> mf_executable (seg_flags seg) \<and> unat (seg_virtual_address seg) \<le> unat a
     \<and> unat a < unat (seg_virtual_address seg) + unat (seg_memory_size seg)"

definition plan_safe :: "nat \<Rightarrow> elf_load_plan \<Rightarrow> load_segment list \<Rightarrow> bool" where
  "plan_safe n plan segs \<longleftrightarrow> length segs \<le> MAX_PROGRAM_HEADERS
     \<and> ep_segments plan = map Some segs @ replicate (MAX_PROGRAM_HEADERS - length segs) None
     \<and> unat (ep_count plan) = length segs
     \<and> list_all (seg_safe n) segs
     \<and> unat (ep_memory_bytes plan) = sum_list (map (unat \<circ> seg_memory_size) segs)
     \<and> unat (ep_memory_bytes plan) \<le> 2048 * 1024"

lemma usize_field_Ok: "usize_field bytes i = Ok v \<longleftrightarrow> read_u64_at bytes i = Some v"
  by (auto simp: usize_field_def usize_from_u64_def result_bind_Ok ok_or_Ok)

lemma usize_field_Err: "usize_field bytes i = Err f \<Longrightarrow> f = invalid_image"
  by (auto simp: usize_field_def usize_from_u64_def result_bind_Err ok_or_Err)

lemma append_slot:
  assumes "length segs < n"
  shows "(map Some segs @ replicate (n - length segs) None)[length segs := Some seg]
    = map Some (segs @ [seg]) @ replicate (n - length (segs @ [seg])) None"
proof -
  from assms obtain k where "n - length segs = Suc k" by (metis Suc_diff_Suc)
  then show ?thesis by (simp add: list_update_append)
qed

lemma refused_if_not_Ok: "(if c then Err e else r) = Ok x \<Longrightarrow> \<not> c"
  by (simp split: if_splits)

text \<open>The fields of an admitted segment, and the plan that results.\<close>

lemma elf_admit_Ok:
  assumes "elf_admit len flags fo va fs ms (plan, ex) = Ok (plan', ex')"
  obtains seg where "seg_safe (unat len) seg"
    "unat (ep_memory_bytes plan) + unat (seg_memory_size seg) \<le> 2048 * 1024"
    "unat (ep_count plan) < length (ep_segments plan)" "ep_count plan \<noteq> of_nat MAX_PROGRAM_HEADERS"
    "plan' = plan\<lparr>ep_segments := (ep_segments plan)[unat (ep_count plan) := Some seg],
       ep_count := ep_count plan + 1, ep_memory_bytes := ep_memory_bytes plan + seg_memory_size seg\<rparr>"
    "ex' \<longleftrightarrow> ex \<or> seg_covers seg (ep_entry plan)"
proof -
  let ?seg = "\<lparr>seg_file_offset = fo, seg_virtual_address = va, seg_file_size = fs, seg_memory_size = ms,
      seg_flags = \<lparr>mf_user = True, mf_writable = flags AND 2 \<noteq> 0, mf_executable = flags AND 1 \<noteq> 0\<rparr>\<rparr>"
  obtain fe ve where ends: "checked_add fo fs = Some fe" "checked_add va ms = Some ve"
    using assms by (auto simp: elf_admit_def result_bind_Ok ok_or_Ok)
  then have "unat fe = unat fo + unat fs" "unat ve = unat va + unat ms"
    by (simp_all add: checked_add_unat)
  moreover have checks: "\<not> (ms = 0 \<or> fs > ms \<or> fe > len \<or> va < 0x1000 \<or> ve > USER_SPACE_END
      \<or> ms > MAX_IMAGE_BYTES \<or> flags AND 1 \<noteq> 0 \<and> flags AND 2 \<noteq> 0
      \<or> checked_add (ep_memory_bytes plan) ms = None \<or> ep_memory_bytes plan + ms > MAX_IMAGE_BYTES)"
    using assms unfolding elf_admit_def prod.case ends ok_or_simps result_bind_simps Let_def
    by (rule refused_if_not_Ok)
  ultimately have safe: "seg_safe (unat len) ?seg"
    by (auto simp: seg_safe_def mf_valid_def word_less_nat_alt not_less unat_gt_0)
  have total: "unat (ep_memory_bytes plan) + unat ms \<le> 2048 * 1024"
    using checks by (auto simp: checked_add_def word_less_nat_alt not_less unat_add_no_overflow split: if_splits)
  have rest: "(if ep_count plan = of_nat MAX_PROGRAM_HEADERS then Err invalid_image
      else if unat (ep_count plan) \<ge> length (ep_segments plan) then Err Panicked
      else Ok (plan\<lparr>ep_segments := (ep_segments plan)[unat (ep_count plan) := Some ?seg],
                   ep_count := ep_count plan + 1, ep_memory_bytes := ep_memory_bytes plan + ms\<rparr>,
               ex \<or> (mf_executable (seg_flags ?seg) \<and> va \<le> ep_entry plan \<and> ep_entry plan < ve)))
    = Ok (plan', ex')"
    using assms checks unfolding elf_admit_def prod.case ends ok_or_simps result_bind_simps Let_def
    by (simp only: if_False)
  have "ex' \<longleftrightarrow> ex \<or> seg_covers ?seg (ep_entry plan)"
    using rest \<open>unat ve = unat va + unat ms\<close>
    by (auto simp: seg_covers_def word_less_nat_alt word_le_nat_alt split: if_splits)
  with safe total rest show thesis by (intro that [of ?seg]) (auto split: if_splits)
qed

lemma elf_segment_Ok:
  assumes "elf_segment len ph acc = Ok acc'"
  shows "acc' = acc \<or> (\<exists>flags fo va fs ms. elf_admit len flags fo va fs ms acc = Ok acc')"
  using assms by (auto simp: elf_segment_def result_bind_Ok split: if_splits)

lemma plan_safe_segment:
  assumes plan: "plan_safe n plan segs" and ex: "ex \<longleftrightarrow> (\<exists>seg \<in> set segs. seg_covers seg (ep_entry plan))"
    and seg: "elf_segment len ph (plan, ex) = Ok (plan', ex')" and n: "n = unat len"
  shows "\<exists>segs'. plan_safe n plan' segs' \<and> ep_entry plan' = ep_entry plan
    \<and> (ex' \<longleftrightarrow> (\<exists>seg \<in> set segs'. seg_covers seg (ep_entry plan')))"
proof (cases "(plan', ex') = (plan, ex)")
  case True
  with plan ex show ?thesis by auto
next
  case False
  with elf_segment_Ok [OF seg] obtain flags fo va fs ms
    where "elf_admit len flags fo va fs ms (plan, ex) = Ok (plan', ex')" by auto
  then obtain g where g: "seg_safe (unat len) g"
      "unat (ep_memory_bytes plan) + unat (seg_memory_size g) \<le> 2048 * 1024"
      "unat (ep_count plan) < length (ep_segments plan)" "ep_count plan \<noteq> of_nat MAX_PROGRAM_HEADERS"
      "plan' = plan\<lparr>ep_segments := (ep_segments plan)[unat (ep_count plan) := Some g],
         ep_count := ep_count plan + 1, ep_memory_bytes := ep_memory_bytes plan + seg_memory_size g\<rparr>"
      "ex' \<longleftrightarrow> ex \<or> seg_covers g (ep_entry plan)"
    by (rule elf_admit_Ok)
  have room: "length segs < MAX_PROGRAM_HEADERS"
    using plan g(3) by (auto simp: plan_safe_def)
  have "unat (ep_memory_bytes plan + seg_memory_size g)
      = unat (ep_memory_bytes plan) + unat (seg_memory_size g)"
    using g(2) by (intro unat_add_no_overflow) simp
  moreover have "unat (ep_count plan + 1) = length segs + 1"
    using plan room by (simp add: plan_safe_def unat_add_no_overflow)
  ultimately have "plan_safe n plan' (segs @ [g])"
    using plan g room n append_slot [OF room, of g] by (simp add: plan_safe_def list_all_iff)
  moreover have "ex' \<longleftrightarrow> (\<exists>seg \<in> set (segs @ [g]). seg_covers seg (ep_entry plan'))"
    using ex g(5,6) by auto
  ultimately show ?thesis using g(5) by (intro exI [of _ "segs @ [g]"]) simp
qed

lemma elf_admit_Err:
  assumes "plan_safe n plan segs" and "elf_admit len flags fo va fs ms (plan, ex) = Err f"
  shows "f = invalid_image"
proof -
  have "\<not> (unat (ep_count plan) \<ge> length (ep_segments plan) \<and> ep_count plan \<noteq> of_nat MAX_PROGRAM_HEADERS)"
  proof
    assume *: "unat (ep_count plan) \<ge> length (ep_segments plan) \<and> ep_count plan \<noteq> of_nat MAX_PROGRAM_HEADERS"
    then have "unat (ep_count plan) = 16" using assms(1) by (auto simp: plan_safe_def)
    then have "ep_count plan = 16" by (simp add: word_unat_eq_iff)
    with * show False by simp
  qed
  with assms(2) show ?thesis
    by (auto simp: elf_admit_def Let_def result_bind_Err ok_or_Err split: if_splits)
qed

lemma elf_segment_Err:
  assumes "plan_safe n plan segs" and "elf_segment len ph (plan, ex) = Err f"
  shows "f = invalid_image"
  using assms(2) elf_admit_Err [OF assms(1)]
  by (auto simp: elf_segment_def result_bind_Err ok_or_Err dest: usize_field_Err split: if_splits)

lemma elf_spec_loop_safe:
  assumes "plan_safe (length file) plan segs" and "length file < 2 ^ 64"
    and "ex \<longleftrightarrow> (\<exists>seg \<in> set segs. seg_covers seg (ep_entry plan))"
  shows "case elf_spec_loop file off esz is (plan, ex) of
      Inl f \<Rightarrow> f = invalid_image
    | Inr (plan', ex') \<Rightarrow> \<exists>segs'. plan_safe (length file) plan' segs' \<and> ep_entry plan' = ep_entry plan
        \<and> (ex' \<longleftrightarrow> (\<exists>seg \<in> set segs'. seg_covers seg (ep_entry plan')))"
  using assms
proof (induction "is" arbitrary: plan segs ex)
  case Nil
  then show ?case by auto
next
  case (Cons i "is")
  let ?r = "elf_segment (of_nat (length file)) (take 56 (drop (off + i * esz) file)) (plan, ex)"
  show ?case
  proof (cases ?r)
    case (Inl f)
    then show ?thesis using elf_segment_Err [OF Cons.prems(1)] by simp
  next
    case (Inr acc)
    obtain plan1 ex1 where acc: "acc = (plan1, ex1)" by (cases acc)
    have n: "length file = unat (of_nat (length file) :: usize)" using Cons.prems(2) by (simp add: unat_of_nat)
    from plan_safe_segment [OF Cons.prems(1,3) Inr [unfolded acc] n]
    obtain segs1 where "plan_safe (length file) plan1 segs1" and entry: "ep_entry plan1 = ep_entry plan"
      and "ex1 \<longleftrightarrow> (\<exists>seg \<in> set segs1. seg_covers seg (ep_entry plan1))" by blast
    from Cons.IH [OF this(1) Cons.prems(2) this(3), unfolded entry] show ?thesis
      using Inr acc by simp
  qed
qed

lemma elf_header_Err: "elf_header len header = Err f \<Longrightarrow> f = invalid_image"
  by (auto simp: elf_header_def Let_def result_bind_Err ok_or_Err dest: usize_field_Err split: if_splits)

lemma elf_empty_plan_entry: "ep_entry (elf_empty_plan entry) = entry"
  by (simp add: elf_empty_plan_def)

lemma plan_safe_empty: "plan_safe n (elf_empty_plan entry) []"
  by (simp add: plan_safe_def elf_empty_plan_def)

section \<open>Properties\<close>

text \<open>
  C2: Parsing an ELF image never panics: on every byte string it returns a plan or reports an
  invalid image. A plan it returns has between 1 and 16 segments, stored in order; each segment's
  file bytes lie inside the image and fill at most its memory, its memory lies between \<open>0x1000\<close>
  and \<open>2 ^ 47\<close> and is not writable and executable at once; the segments' memory sums to the plan's
  byte count, at most 2 MiB; and the entry point is not zero and lies in an executable segment.
\<close>

theorem elf_parse_safe:
  assumes "length img < 2 ^ 63"
  shows "case elf_parse img of
      Inl f \<Rightarrow> f = Failed PeInvalidImage
    | Inr plan \<Rightarrow> \<exists>segs. plan_safe (length img) plan segs \<and> segs \<noteq> [] \<and> ep_entry plan \<noteq> 0
        \<and> (\<exists>seg \<in> set segs. seg_covers seg (ep_entry plan))"
proof -
  have small: "length img < 2 ^ 64" using assms by simp
  show ?thesis
  proof (cases "length img < 64 \<or> length img > 2048 * 1024")
    case True
    then show ?thesis by (simp add: elf_parse_spec [OF small] elf_spec_def)
  next
    case False
    show ?thesis
    proof (cases "elf_header (of_nat (length img)) (take 64 img)")
      case (Inl f)
      then show ?thesis
        using False elf_header_Err by (simp add: elf_parse_spec [OF small] elf_spec_def)
    next
      case (Inr h)
      obtain entry off esz cnt where h: "h = (entry, off, esz, cnt)" by (cases h)
      then have entry: "entry \<noteq> 0" using elf_header_Ok(1) Inr by blast
      let ?loop = "elf_spec_loop img (unat off) (unat esz) [0..<unat cnt] (elf_empty_plan entry, False)"
      have parse: "elf_parse img = result_bind ?loop elf_finish"
        using False Inr h by (simp add: elf_parse_spec [OF small] elf_spec_def)
      have loop: "case ?loop of Inl f \<Rightarrow> f = invalid_image
          | Inr (plan', ex') \<Rightarrow> \<exists>segs'. plan_safe (length img) plan' segs' \<and> ep_entry plan' = entry
            \<and> (ex' \<longleftrightarrow> (\<exists>seg \<in> set segs'. seg_covers seg (ep_entry plan')))"
        using elf_spec_loop_safe [OF plan_safe_empty small, of False entry, unfolded elf_empty_plan_entry]
        by simp
      show ?thesis
        using loop entry unfolding parse
        by (cases ?loop) (auto simp: elf_finish_def plan_safe_def split: prod.splits)
    qed
  qed
qed

text \<open>
  A small image with one executable segment: the 64-byte file header, one program header that
  loads the whole file at \<open>0x400000\<close>, entry point \<open>0x400078\<close>.
\<close>

definition elf_example :: "u8 list" where
  "elf_example =
     [0x7f, 0x45, 0x4c, 0x46, 2, 1, 1, 0, 0, 0, 0, 0, 0, 0, 0, 0,
      2, 0, 0x3e, 0, 1, 0, 0, 0, 0x78, 0, 0x40, 0, 0, 0, 0, 0,
      64, 0, 0, 0, 0, 0, 0, 0, 0, 0, 0, 0, 0, 0, 0, 0,
      0, 0, 0, 0, 64, 0, 56, 0, 1, 0, 0, 0, 0, 0, 0, 0,
      1, 0, 0, 0, 5, 0, 0, 0, 0, 0, 0, 0, 0, 0, 0, 0,
      0, 0, 0x40, 0, 0, 0, 0, 0, 0, 0, 0, 0, 0, 0, 0, 0,
      120, 0, 0, 0, 0, 0, 0, 0, 128, 0, 0, 0, 0, 0, 0, 0,
      0, 16, 0, 0, 0, 0, 0, 0]"

lemmas elf_fields = read_u16_at_def read_u32_at_def read_u64_at_def read_le_at_def usize_field_def
  usize_from_u64_def checked_mul_def checked_add_def slice_get_def

lemma elf_example_header:
  "elf_header 120 (take 64 elf_example) = Ok (0x400078, 64, 56, 1)"
  by (simp add: elf_header_def elf_example_def elf_fields)

lemma elf_example_segment:
  "result_is_ok (result_bind (elf_segment 120 (take 56 (drop 64 elf_example)) (elf_empty_plan 0x400078, False))
     elf_finish)"
  by (simp add: elf_segment_def elf_admit_def elf_finish_def elf_empty_plan_def elf_example_def elf_fields Let_def)

lemma elf_example_length: "length elf_example = 120"
  by (simp add: elf_example_def)

lemma elf_example_parses: "result_is_ok (elf_parse elf_example)"
proof -
  have "elf_spec_loop elf_example 64 56 [] = Ok" by (rule ext) simp
  with elf_example_segment show ?thesis
    by (simp add: elf_parse_spec elf_spec_def elf_example_length elf_example_header)
qed

theorem elf_parse_safe_witness:
  "\<exists>plan segs. elf_parse elf_example = Ok plan \<and> plan_safe 120 plan segs \<and> segs \<noteq> []"
proof -
  obtain plan where "elf_parse elf_example = Ok plan"
    using elf_example_parses by (cases "elf_parse elf_example") simp_all
  then show ?thesis
    using elf_parse_safe [of elf_example] by (auto simp: elf_example_length)
qed

text \<open>
  C30: Parsing through any reader that meets the reader contract (it knows the length of a fixed
  file, and a read inside the file returns the file's bytes or fails with one of its own errors)
  returns exactly the plan or error that parsing the file's bytes returns, or one of the reader's
  own errors. In particular reading all program headers in one batch, which the code does when
  they are 56 bytes apart, gives the same plan as reading them one at a time.
\<close>

theorem elf_parse_reader_independent:
  assumes "image_reader len read content fails" and "length (content s) < 2 ^ 63"
  shows "fst (elf_parse_reader len read s) = elf_parse (content s)
    \<or> (\<exists>e \<in> fails. fst (elf_parse_reader len read s) = Err (Failed e))"
proof -
  have small: "length (content s) < 2 ^ 64" using assms(2) by simp
  show ?thesis
    using image_reader.parse_agrees [OF assms(1) small]
    by (simp add: image_reader.agrees_def [OF assms(1)] elf_parse_spec [OF small])
qed

text \<open>A reader that counts its reads and fails after a number of them, as a storage reader may.\<close>

definition failing_read :: "(u8 list \<times> nat) reader_read" where
  "failing_read = (\<lambda>(file, budget) offset out.
     if budget = 0 then (Err PeReadFailure, out, (file, 0))
     else (Ok (of_nat (length out)), take (length out) (drop (unat offset) file), (file, budget - 1)))"

interpretation failing_reader:
  image_reader "\<lambda>(file, budget). of_nat (length file)" failing_read fst "{PeReadFailure}"
  by unfold_locales (auto simp: failing_read_def split: if_splits)

theorem elf_parse_reader_independent_witness:
  "fst (elf_parse_reader (\<lambda>(file, budget). of_nat (length file)) failing_read (elf_example, 0))
     = Err (Failed PeReadFailure)
   \<and> fst (elf_parse_reader slice_reader_len slice_reader_read elf_example) = elf_parse elf_example"
proof -
  let ?len = "\<lambda>(file, budget). of_nat (length file)"
  have "\<not> result_is_ok (fst (elf_parse_reader ?len failing_read (elf_example, 0)))"
    by (simp add: elf_parse_reader_def read_exact_def failing_read_def elf_example_length checked_add_def)
  moreover have "fst (elf_parse_reader ?len failing_read (elf_example, 0)) = elf_parse elf_example
      \<or> (\<exists>e \<in> {PeReadFailure}. fst (elf_parse_reader ?len failing_read (elf_example, 0)) = Err (Failed e))"
    using elf_parse_reader_independent [OF failing_reader.image_reader_axioms, of "(elf_example, 0)"]
    by (simp add: elf_example_length)
  moreover have "fst (elf_parse_reader slice_reader_len slice_reader_read elf_example) = elf_parse elf_example"
    using elf_parse_reader_independent [OF slice_reader.image_reader_axioms, of elf_example]
    by (simp add: elf_example_length)
  ultimately show ?thesis using elf_example_parses by auto
qed

end
