(* ===== verification/Process_Table.thy ===== *)
theory Process_Table
  imports Elf_Plan
begin

text \<open>
  The user-process table of \<open>src/process.rs\<close>: sixteen generation-stamped process slots over the
  address-space table. The theory models every method of \<open>ProcessTable\<close> and shows that live
  processes and reserved address spaces correspond one to one, so that no two processes share an
  address space, none is leaked, and starting and reclaiming a process fail only for the reasons
  their callers can see.
\<close>

section \<open>Data\<close>

abbreviation MAX_USER_PROCESSES :: nat where "MAX_USER_PROCESSES \<equiv> 16"

datatype process_state = PsVacant | PsStarting | PsRunning | PsExited u8 | PsFaulted u8

record process_handle =
  ph_slot :: u8
  ph_generation :: u64

definition process_handle_raw :: "process_handle \<Rightarrow> u64" where
  "process_handle_raw h = push_bit 8 (ph_generation h) OR ucast (ph_slot h)"

definition process_handle_from_raw :: "u64 \<Rightarrow> process_handle" where
  "process_handle_from_raw r = \<lparr>ph_slot = ucast r, ph_generation = drop_bit 8 r\<rparr>"

record user_launch =
  ul_entry :: usize
  ul_stack_top :: usize
  ul_address_space_root :: address_space_root

definition user_launch_new :: "usize \<Rightarrow> usize \<Rightarrow> address_space_root \<Rightarrow> user_launch option" where
  "user_launch_new entry stack_top root =
     (if entry = 0 \<or> entry \<ge> USER_SPACE_END \<or> stack_top = 0 \<or> stack_top AND 0xfff \<noteq> 0
         \<or> stack_top > USER_SPACE_END then None
      else Some \<lparr>ul_entry = entry, ul_stack_top = stack_top, ul_address_space_root = root\<rparr>)"

record process_slot =
  ps_generation :: u64
  ps_state :: process_state
  ps_entry :: u64
  ps_address_space :: "address_space_handle option"

definition process_slot_empty :: process_slot where
  "process_slot_empty =
     \<lparr>ps_generation = 1, ps_state = PsVacant, ps_entry = 0, ps_address_space = None\<rparr>"

record process_table =
  pt_slots :: "process_slot list"
  pt_address_spaces :: address_space_table

definition process_table_new :: process_table where
  "process_table_new = \<lparr>pt_slots = replicate MAX_USER_PROCESSES process_slot_empty,
     pt_address_spaces = address_space_table_new\<rparr>"

section \<open>Operations\<close>

definition pt_current_mut :: "process_table \<Rightarrow> process_handle \<Rightarrow> process_error + process_slot" where
  "pt_current_mut t h =
     (case slice_get (pt_slots t) (unat (ph_slot h)) of
        None \<Rightarrow> Err PeInvalidHandle
      | Some process \<Rightarrow>
          if ps_generation process \<noteq> ph_generation h then Err PeInvalidHandle else Ok process)"

definition pt_put :: "process_table \<Rightarrow> process_handle \<Rightarrow> process_slot \<Rightarrow> process_table" where
  "pt_put t h process = t\<lparr>pt_slots := (pt_slots t)[unat (ph_slot h) := process]\<rparr>"

definition pt_start_plan ::
    "process_table \<Rightarrow> elf_load_plan \<Rightarrow> (process_error + process_handle) \<times> process_table" where
  "pt_start_plan t plan =
     (case position (\<lambda>process. ps_state process = PsVacant) (pt_slots t) of
        None \<Rightarrow> (Err PeCapacity, t)
      | Some slot \<Rightarrow>
          (case ast_reserve (pt_address_spaces t) of
             (Inl e, spaces) \<Rightarrow> (Err e, t\<lparr>pt_address_spaces := spaces\<rparr>)
           | (Inr address_space, spaces) \<Rightarrow>
               (let process = pt_slots t ! slot
                in (Ok \<lparr>ph_slot = of_nat slot, ph_generation = ps_generation process\<rparr>,
                    t\<lparr>pt_address_spaces := spaces,
                      pt_slots := (pt_slots t)[slot := process\<lparr>ps_entry := ep_entry plan,
                        ps_address_space := Some address_space, ps_state := PsRunning\<rparr>]\<rparr>))))"

definition pt_start ::
    "process_table \<Rightarrow> u8 list \<Rightarrow> (process_error fault + process_handle) \<times> process_table" where
  "pt_start t img =
     (case elf_parse img of
        Inl f \<Rightarrow> (Err f, t)
      | Inr plan \<Rightarrow> (case pt_start_plan t plan of (r, t') \<Rightarrow> (map_sum Failed id r, t')))"

definition pt_state :: "process_table \<Rightarrow> process_handle \<Rightarrow> process_state option" where
  "pt_state t h =
     (case slice_get (pt_slots t) (unat (ph_slot h)) of
        None \<Rightarrow> None
      | Some process \<Rightarrow> if ps_generation process = ph_generation h then Some (ps_state process) else None)"

definition pt_address_space :: "process_table \<Rightarrow> process_handle \<Rightarrow> address_space_handle option" where
  "pt_address_space t h =
     (case slice_get (pt_slots t) (unat (ph_slot h)) of
        None \<Rightarrow> None
      | Some process \<Rightarrow> if ps_generation process = ph_generation h then ps_address_space process else None)"

text \<open>The common head of the operations on a running process's address space.\<close>

definition pt_running :: "process_table \<Rightarrow> process_handle \<Rightarrow> process_error + process_slot" where
  "pt_running t h =
     result_bind (pt_current_mut t h) (\<lambda>process.
     if ps_state process \<noteq> PsRunning then Err PeNotRunning else Ok process)"

definition pt_running_space :: "process_table \<Rightarrow> process_handle \<Rightarrow> process_error + address_space_handle" where
  "pt_running_space t h =
     result_bind (pt_running t h) (\<lambda>process. ok_or (ps_address_space process) PeAddressSpace)"

definition pt_bind_address_space_root ::
    "process_table \<Rightarrow> process_handle \<Rightarrow> address_space_root \<Rightarrow> (process_error + unit) \<times> process_table" where
  "pt_bind_address_space_root t h root =
     (case pt_running_space t h of
        Inl e \<Rightarrow> (Err e, t)
      | Inr address_space \<Rightarrow>
          (case ast_bind_root (pt_address_spaces t) address_space root of
             (r, spaces) \<Rightarrow> (r, t\<lparr>pt_address_spaces := spaces\<rparr>)))"

definition pt_address_space_root :: "process_table \<Rightarrow> process_handle \<Rightarrow> address_space_root option" where
  "pt_address_space_root t h =
     Option.bind (pt_address_space t h) (ast_root (pt_address_spaces t))"

definition pt_user_launch ::
    "process_table \<Rightarrow> process_handle \<Rightarrow> usize \<Rightarrow> usize \<Rightarrow> process_error + user_launch" where
  "pt_user_launch t h entry stack_top =
     result_bind (pt_running t h) (\<lambda>_.
     result_bind (ok_or (pt_address_space_root t h) PeAddressSpace) (\<lambda>root.
     ok_or (user_launch_new entry stack_top root) PeAddressSpace))"

definition pt_map ::
    "process_table \<Rightarrow> process_handle \<Rightarrow> virtual_mapping \<Rightarrow> (process_error + unit) \<times> process_table" where
  "pt_map t h mapping =
     (case pt_running_space t h of
        Inl e \<Rightarrow> (Err e, t)
      | Inr address_space \<Rightarrow>
          (case ast_map (pt_address_spaces t) address_space mapping of
             (r, spaces) \<Rightarrow> (r, t\<lparr>pt_address_spaces := spaces\<rparr>)))"

definition pt_mapping :: "process_table \<Rightarrow> process_handle \<Rightarrow> nat \<Rightarrow> virtual_mapping option" where
  "pt_mapping t h index =
     Option.bind (pt_address_space t h) (\<lambda>address_space. ast_mapping (pt_address_spaces t) address_space index)"

definition pt_unmap ::
    "process_table \<Rightarrow> process_handle \<Rightarrow> nat \<Rightarrow> (process_error + virtual_mapping) \<times> process_table" where
  "pt_unmap t h index =
     (case pt_running_space t h of
        Inl e \<Rightarrow> (Err e, t)
      | Inr address_space \<Rightarrow>
          (case ast_unmap (pt_address_spaces t) address_space index of
             (r, spaces) \<Rightarrow> (r, t\<lparr>pt_address_spaces := spaces\<rparr>)))"

definition pt_exit :: "process_table \<Rightarrow> process_handle \<Rightarrow> u8 \<Rightarrow> (process_error + unit) \<times> process_table" where
  "pt_exit t h status =
     (case pt_running t h of
        Inl e \<Rightarrow> (Err e, t)
      | Inr process \<Rightarrow> (Ok (), pt_put t h (process\<lparr>ps_state := PsExited status\<rparr>)))"

definition pt_fault :: "process_table \<Rightarrow> process_handle \<Rightarrow> u8 \<Rightarrow> (process_error + unit) \<times> process_table" where
  "pt_fault t h vector =
     (case pt_running t h of
        Inl e \<Rightarrow> (Err e, t)
      | Inr process \<Rightarrow> (Ok (), pt_put t h (process\<lparr>ps_state := PsFaulted vector\<rparr>)))"

fun process_ended :: "process_state \<Rightarrow> bool" where
  "process_ended (PsExited _) = True"
| "process_ended (PsFaulted _) = True"
| "process_ended _ = False"

definition pt_ended :: "process_table \<Rightarrow> process_handle \<Rightarrow> process_error + process_slot" where
  "pt_ended t h =
     result_bind (pt_current_mut t h) (\<lambda>process.
     if \<not> process_ended (ps_state process) then Err PeNotRunning else Ok process)"

definition pt_reclaim :: "process_table \<Rightarrow> process_handle \<Rightarrow> (process_error + unit) \<times> process_table" where
  "pt_reclaim t h =
     (case pt_ended t h of
        Inl e \<Rightarrow> (Err e, t)
      | Inr process \<Rightarrow>
          (case (case ps_address_space process of
                   None \<Rightarrow> (Ok (), pt_address_spaces t)
                 | Some address_space \<Rightarrow> ast_release (pt_address_spaces t) address_space) of
             (Inl e, spaces) \<Rightarrow> (Err e, t\<lparr>pt_address_spaces := spaces\<rparr>)
           | (Inr _, spaces) \<Rightarrow>
               (let t = t\<lparr>pt_address_spaces := spaces\<rparr>
                in case pt_ended t h of
                     Inl e \<Rightarrow> (Err e, t)
                   | Inr process \<Rightarrow>
                       (Ok (), pt_put t h
                          (process\<lparr>ps_state := PsVacant, ps_entry := 0, ps_address_space := None,
                             ps_generation := process_next_generation (ps_generation process)\<rparr>)))))"

section \<open>Ownership of address spaces\<close>

text \<open>
  What the operations on an address space's contents leave alone: the generation and the state
  of every slot.
\<close>

definition ast_frame :: "address_space_slot list \<Rightarrow> address_space_slot list \<Rightarrow> bool" where
  "ast_frame as as' \<longleftrightarrow> length as' = length as \<and> (\<forall>k < length as.
     as_generation (as' ! k) = as_generation (as ! k) \<and> as_state (as' ! k) = as_state (as ! k))"

lemma ast_frame_refl [simp]: "ast_frame as as"
  by (simp add: ast_frame_def)

lemma ast_frame_put:
  "\<lbrakk>ast_current_mut t h = Ok a; as_generation a' = as_generation a; as_state a' = as_state a\<rbrakk>
    \<Longrightarrow> ast_frame (ast_slots t) (ast_slots (ast_put t h a'))"
  by (auto simp: ast_frame_def ast_put_def ast_current_mut_Ok nth_list_update)

lemma ast_content_ops_frame:
  "ast_frame (ast_slots t) (ast_slots (snd (ast_bind_root t h root)))"
  "ast_frame (ast_slots t) (ast_slots (snd (ast_map t h m)))"
  "ast_frame (ast_slots t) (ast_slots (snd (ast_unmap t h index)))"
  by (auto simp: ast_bind_root_def ast_map_def ast_unmap_def intro!: ast_frame_put
      split: sum.splits option.splits)

text \<open>The handles that processes hold and the reserved slots correspond one to one.\<close>

definition owns :: "address_space_handle option list \<Rightarrow> address_space_slot list \<Rightarrow> bool" where
  "owns hs as \<longleftrightarrow>
     (\<forall>i < length hs. \<forall>h. hs ! i = Some h \<longrightarrow> unat (ash_slot h) < length as
        \<and> as_generation (as ! unat (ash_slot h)) = ash_generation h
        \<and> as_state (as ! unat (ash_slot h)) = AsReserved)
     \<and> (\<forall>i < length hs. \<forall>j < length hs. \<forall>h k. i \<noteq> j \<longrightarrow> hs ! i = Some h \<longrightarrow> hs ! j = Some k
          \<longrightarrow> ash_slot h \<noteq> ash_slot k)
     \<and> (\<forall>k < length as. as_state (as ! k) = AsReserved \<longrightarrow>
          (\<exists>i < length hs. \<exists>h. hs ! i = Some h \<and> unat (ash_slot h) = k))"

lemma ownsI:
  assumes "\<And>i h. \<lbrakk>i < length hs; hs ! i = Some h\<rbrakk> \<Longrightarrow> unat (ash_slot h) < length as
        \<and> as_generation (as ! unat (ash_slot h)) = ash_generation h
        \<and> as_state (as ! unat (ash_slot h)) = AsReserved"
    and "\<And>i j h k. \<lbrakk>i < length hs; j < length hs; i \<noteq> j; hs ! i = Some h; hs ! j = Some k\<rbrakk>
        \<Longrightarrow> ash_slot h \<noteq> ash_slot k"
    and "\<And>k. \<lbrakk>k < length as; as_state (as ! k) = AsReserved\<rbrakk>
        \<Longrightarrow> \<exists>i < length hs. \<exists>h. hs ! i = Some h \<and> unat (ash_slot h) = k"
  shows "owns hs as"
  using assms unfolding owns_def by blast

lemma ownsD:
  assumes "owns hs as"
  shows "\<lbrakk>i < length hs; hs ! i = Some h\<rbrakk> \<Longrightarrow> unat (ash_slot h) < length as"
    "\<lbrakk>i < length hs; hs ! i = Some h\<rbrakk> \<Longrightarrow> as_generation (as ! unat (ash_slot h)) = ash_generation h"
    "\<lbrakk>i < length hs; hs ! i = Some h\<rbrakk> \<Longrightarrow> as_state (as ! unat (ash_slot h)) = AsReserved"
    "\<lbrakk>i < length hs; j < length hs; i \<noteq> j; hs ! i = Some h; hs ! j = Some k\<rbrakk> \<Longrightarrow> ash_slot h \<noteq> ash_slot k"
    "\<lbrakk>n < length as; as_state (as ! n) = AsReserved\<rbrakk>
        \<Longrightarrow> \<exists>i < length hs. \<exists>h. hs ! i = Some h \<and> unat (ash_slot h) = n"
  using assms unfolding owns_def by blast+

definition process_ok :: "process_slot \<Rightarrow> bool" where
  "process_ok p \<longleftrightarrow> ps_generation p \<noteq> 0 \<and> ps_state p \<noteq> PsStarting
     \<and> (ps_state p = PsVacant \<longleftrightarrow> ps_address_space p = None)"

definition pt_inv :: "process_table \<Rightarrow> bool" where
  "pt_inv t \<longleftrightarrow> length (pt_slots t) = MAX_USER_PROCESSES \<and> ast_inv (pt_address_spaces t)
     \<and> (\<forall>p \<in> set (pt_slots t). process_ok p)
     \<and> owns (map ps_address_space (pt_slots t)) (ast_slots (pt_address_spaces t))"

lemma owns_frame: "\<lbrakk>owns hs as; ast_frame as as'\<rbrakk> \<Longrightarrow> owns hs as'"
  unfolding owns_def ast_frame_def by auto

lemma owns_start:
  assumes owns: "owns hs as" and i: "i < length hs" "hs ! i = None"
    and k: "k < length as" "as_state (as ! k) = AsVacant" and small: "length as \<le> 256"
    and a: "as_generation a = as_generation (as ! k)" "as_state a = AsReserved"
  shows "owns (hs[i := Some \<lparr>ash_slot = of_nat k, ash_generation = as_generation (as ! k)\<rparr>]) (as[k := a])"
    (is "owns (hs[i := Some ?h]) _")
proof (rule ownsI)
  have uk: "unat (ash_slot ?h) = k" using k(1) small by (simp add: unat_of_nat_u8)
  have other: "unat (ash_slot h) \<noteq> k" if "j < length hs" "hs ! j = Some h" for j h
    using ownsD(3) [OF owns that] k(2) by auto
  fix j l h g n
  show "unat (ash_slot h) < length (as[k := a])
      \<and> as_generation (as[k := a] ! unat (ash_slot h)) = ash_generation h
      \<and> as_state (as[k := a] ! unat (ash_slot h)) = AsReserved"
    if "j < length (hs[i := Some ?h])" "hs[i := Some ?h] ! j = Some h"
    using that ownsD(1-3) [OF owns, of j h] other [of j h] uk k(1) a
    by (cases "j = i") auto
  show "ash_slot h \<noteq> ash_slot g"
    if "j < length (hs[i := Some ?h])" "l < length (hs[i := Some ?h])" "j \<noteq> l"
      "hs[i := Some ?h] ! j = Some h" "hs[i := Some ?h] ! l = Some g"
    using that ownsD(4) [OF owns, of j l h g] other [of j h] other [of l g] uk
    by (cases "j = i"; cases "l = i") auto
  show "\<exists>j < length (hs[i := Some ?h]). \<exists>h. hs[i := Some ?h] ! j = Some h \<and> unat (ash_slot h) = n"
    if "n < length (as[k := a])" "as_state (as[k := a] ! n) = AsReserved"
  proof (cases "n = k")
    case True
    then show ?thesis using i(1) uk by (intro exI [of _ i]) simp
  next
    case False
    with that ownsD(5) [OF owns, of n] obtain j h where "j < length hs" "hs ! j = Some h" "unat (ash_slot h) = n"
      by auto
    moreover from this i have "j \<noteq> i" by auto
    ultimately show ?thesis by (intro exI [of _ j]) simp
  qed
qed

lemma owns_release:
  assumes owns: "owns hs as" and i: "i < length hs" "hs ! i = Some h" and a: "as_state a = AsVacant"
  shows "owns (hs[i := None]) (as[unat (ash_slot h) := a])"
proof (rule ownsI)
  have other: "unat (ash_slot g) \<noteq> unat (ash_slot h)" if "j < length hs" "j \<noteq> i" "hs ! j = Some g" for j g
    using ownsD(4) [OF owns that(1) i(1) that(2,3) i(2)] by (simp add: slot_simps)
  fix j l g g' n
  show "unat (ash_slot g) < length (as[unat (ash_slot h) := a])
      \<and> as_generation (as[unat (ash_slot h) := a] ! unat (ash_slot g)) = ash_generation g
      \<and> as_state (as[unat (ash_slot h) := a] ! unat (ash_slot g)) = AsReserved"
    if "j < length (hs[i := None])" "hs[i := None] ! j = Some g"
    using that ownsD(1-3) [OF owns, of j g] other [of j g] by (cases "j = i") auto
  show "ash_slot g \<noteq> ash_slot g'"
    if "j < length (hs[i := None])" "l < length (hs[i := None])" "j \<noteq> l"
      "hs[i := None] ! j = Some g" "hs[i := None] ! l = Some g'"
    using that ownsD(4) [OF owns, of j l g g'] by (cases "j = i"; cases "l = i") auto
  show "\<exists>j < length (hs[i := None]). \<exists>g. hs[i := None] ! j = Some g \<and> unat (ash_slot g) = n"
    if n: "n < length (as[unat (ash_slot h) := a])" "as_state (as[unat (ash_slot h) := a] ! n) = AsReserved"
  proof -
    have "n \<noteq> unat (ash_slot h)" using n a by auto
    with n ownsD(5) [OF owns, of n] obtain j g where j: "j < length hs" "hs ! j = Some g" "unat (ash_slot g) = n"
      by auto
    with i \<open>n \<noteq> unat (ash_slot h)\<close> have "j \<noteq> i" by auto
    with j show ?thesis by (intro exI [of _ j]) simp
  qed
qed

text \<open>If every address space is reserved then so is every process slot.\<close>

lemma owns_full:
  assumes owns: "owns hs as" and "length hs \<le> length as"
    and full: "\<forall>k < length as. as_state (as ! k) = AsReserved"
  shows "\<forall>i < length hs. hs ! i \<noteq> None"
proof (rule ccontr)
  let ?used = "{i. i < length hs \<and> hs ! i \<noteq> None}"
  assume "\<not> (\<forall>i < length hs. hs ! i \<noteq> None)"
  then obtain i where i: "i < length hs" "hs ! i = None" by blast
  then have "?used \<subseteq> {..<length hs} - {i}" by auto
  then have "card ?used \<le> card ({..<length hs} - {i})" by (intro card_mono) simp_all
  then have "card ?used < length hs" using i(1) by simp
  moreover have "{..<length as} \<subseteq> (\<lambda>i. unat (ash_slot (the (hs ! i)))) ` ?used"
  proof
    fix k assume "k \<in> {..<length as}"
    then have "k < length as" "as_state (as ! k) = AsReserved" using full by simp_all
    then obtain i h where "i < length hs" "hs ! i = Some h" "unat (ash_slot h) = k"
      using ownsD(5) [OF owns] by blast
    then show "k \<in> (\<lambda>i. unat (ash_slot (the (hs ! i)))) ` ?used" by (intro image_eqI [of _ _ i]) simp_all
  qed
  then have "card {..<length as} \<le> card ((\<lambda>i. unat (ash_slot (the (hs ! i)))) ` ?used)"
    by (intro card_mono) simp_all
  moreover have "card ((\<lambda>i. unat (ash_slot (the (hs ! i)))) ` ?used) \<le> card ?used"
    by (rule card_image_le) simp
  ultimately show False using assms(2) by (simp only: card_lessThan)
qed

section \<open>Every operation keeps the invariant\<close>

lemma pt_current_mut_Ok:
  "pt_current_mut t h = Ok p \<longleftrightarrow> unat (ph_slot h) < length (pt_slots t)
     \<and> pt_slots t ! unat (ph_slot h) = p \<and> ps_generation p = ph_generation h"
  by (auto simp: pt_current_mut_def split: option.splits if_splits)

lemma pt_running_Ok: "pt_running t h = Ok p \<longleftrightarrow> pt_current_mut t h = Ok p \<and> ps_state p = PsRunning"
  by (auto simp: pt_running_def result_bind_Ok split: if_splits)

lemma pt_ended_Ok: "pt_ended t h = Ok p \<longleftrightarrow> pt_current_mut t h = Ok p \<and> process_ended (ps_state p)"
  by (auto simp: pt_ended_def result_bind_Ok split: if_splits)

lemma pt_inv_new: "pt_inv process_table_new"
proof -
  have "owns (replicate 16 None) (replicate 16 address_space_slot_empty)"
    by (rule ownsI) (auto simp: address_space_slot_empty_def)
  then show ?thesis
    using ast_inv_new by (simp add: pt_inv_def process_table_new_def process_ok_def process_slot_empty_def
        address_space_table_new_def)
qed

lemma pt_inv_content:
  assumes "pt_inv t" and "ast_inv as" and "ast_frame (ast_slots (pt_address_spaces t)) (ast_slots as)"
  shows "pt_inv (t\<lparr>pt_address_spaces := as\<rparr>)"
  using assms owns_frame by (auto simp: pt_inv_def)

text \<open>Changing the state of a live process between its live states.\<close>

lemma pt_inv_put_state:
  assumes inv: "pt_inv t" and p: "pt_current_mut t h = Ok p" "ps_state p \<noteq> PsVacant"
    and st: "st \<noteq> PsVacant" "st \<noteq> PsStarting"
  shows "pt_inv (pt_put t h (p\<lparr>ps_state := st\<rparr>))"
proof -
  let ?i = "unat (ph_slot h)"
  have i: "?i < length (pt_slots t)" "pt_slots t ! ?i = p" using p(1) by (simp_all add: pt_current_mut_Ok)
  then have "process_ok p" using inv by (auto simp: pt_inv_def)
  then have "process_ok (p\<lparr>ps_state := st\<rparr>)" using p(2) st by (simp add: process_ok_def)
  moreover have "map ps_address_space ((pt_slots t)[?i := p\<lparr>ps_state := st\<rparr>]) = map ps_address_space (pt_slots t)"
    using i by (intro nth_equalityI) (auto simp: nth_list_update)
  ultimately show ?thesis
    using inv unfolding pt_inv_def pt_put_def by (auto dest: set_updateD)
qed

lemma pt_start_plan_cases:
  assumes inv: "pt_inv t"
  obtains (full) "\<forall>p \<in> set (pt_slots t). ps_state p \<noteq> PsVacant" "pt_start_plan t plan = (Err PeCapacity, t)"
  | (slot) i k a where "i < length (pt_slots t)" "ps_state (pt_slots t ! i) = PsVacant"
      "k < length (ast_slots (pt_address_spaces t))" "as_state (ast_slots (pt_address_spaces t) ! k) = AsVacant"
      "as_generation a = as_generation (ast_slots (pt_address_spaces t) ! k)" "as_state a = AsReserved"
      "as_root a = None" "as_mappings a = replicate MAX_MAPPINGS_PER_ADDRESS_SPACE None"
      "snd (ast_reserve (pt_address_spaces t))
        = (pt_address_spaces t)\<lparr>ast_slots := (ast_slots (pt_address_spaces t))[k := a]\<rparr>"
      "pt_start_plan t plan = (Ok \<lparr>ph_slot = of_nat i, ph_generation = ps_generation (pt_slots t ! i)\<rparr>,
         t\<lparr>pt_address_spaces := snd (ast_reserve (pt_address_spaces t)),
           pt_slots := (pt_slots t)[i := (pt_slots t ! i)\<lparr>ps_entry := ep_entry plan,
             ps_address_space := Some \<lparr>ash_slot = of_nat k,
               ash_generation = as_generation (ast_slots (pt_address_spaces t) ! k)\<rparr>,
             ps_state := PsRunning\<rparr>]\<rparr>)"
proof (cases "position (\<lambda>process. ps_state process = PsVacant) (pt_slots t)")
  case None
  then have "pt_start_plan t plan = (Err PeCapacity, t)" by (simp only: pt_start_plan_def option.case)
  with None show ?thesis by (intro full) simp_all
next
  case (Some i)
  note i = position_SomeD [OF Some]
  show ?thesis
  proof (cases "pt_address_spaces t" rule: ast_reserve_cases)
    case full
    have "hs ! j \<noteq> None" if "hs = map ps_address_space (pt_slots t)" "j < length hs" for hs j
      using owns_full [of "map ps_address_space (pt_slots t)" "ast_slots (pt_address_spaces t)"] inv full(1) that
      by (auto simp: pt_inv_def ast_inv_def)
    then have "ps_address_space (pt_slots t ! i) \<noteq> None" using i(1) by auto
    then show ?thesis using inv i by (auto simp: pt_inv_def process_ok_def)
  next
    case (slot k)
    show ?thesis
    proof (rule that(2) [OF i slot(1,2)])
      show "snd (ast_reserve (pt_address_spaces t))
          = (pt_address_spaces t)\<lparr>ast_slots := (ast_slots (pt_address_spaces t))
              [k := (ast_slots (pt_address_spaces t) ! k)\<lparr>as_state := AsReserved, as_root := None,
                 as_mappings := replicate MAX_MAPPINGS_PER_ADDRESS_SPACE None\<rparr>]\<rparr>"
        using slot(3) by simp
      show "pt_start_plan t plan = (Ok \<lparr>ph_slot = of_nat i, ph_generation = ps_generation (pt_slots t ! i)\<rparr>,
         t\<lparr>pt_address_spaces := snd (ast_reserve (pt_address_spaces t)),
           pt_slots := (pt_slots t)[i := (pt_slots t ! i)\<lparr>ps_entry := ep_entry plan,
             ps_address_space := Some \<lparr>ash_slot = of_nat k,
               ash_generation = as_generation (ast_slots (pt_address_spaces t) ! k)\<rparr>,
             ps_state := PsRunning\<rparr>]\<rparr>)"
        unfolding pt_start_plan_def Some option.case slot(3) by (simp add: Let_def)
    qed simp_all
  qed
qed

lemma pt_start_plan_inv:
  assumes inv: "pt_inv t"
  shows "pt_inv (snd (pt_start_plan t plan))"
proof (cases plan rule: pt_start_plan_cases [OF inv])
  case 1
  then show ?thesis using inv by simp
next
  case (2 i k a)
  let ?as = "ast_slots (pt_address_spaces t)"
  let ?h = "\<lparr>ash_slot = of_nat k, ash_generation = as_generation (?as ! k)\<rparr>"
  let ?p = "(pt_slots t ! i)\<lparr>ps_entry := ep_entry plan, ps_address_space := Some ?h, ps_state := PsRunning\<rparr>"
  have ok: "process_ok (pt_slots t ! i)" using inv 2(1) by (simp add: pt_inv_def)
  then have "ps_address_space (pt_slots t ! i) = None" using 2(2) by (simp add: process_ok_def)
  then have "owns ((map ps_address_space (pt_slots t))[i := Some ?h]) (?as[k := a])"
    using inv 2 by (intro owns_start) (auto simp: pt_inv_def ast_inv_def)
  moreover have "ast_inv (snd (ast_reserve (pt_address_spaces t)))"
    using inv by (simp add: pt_inv_def invariant_intros)
  moreover have "process_ok ?p" using ok by (simp add: process_ok_def)
  ultimately show ?thesis
    using inv 2(9,10) by (auto simp: pt_inv_def map_update dest: set_updateD)
qed

lemma pt_content_op_inv:
  assumes "pt_inv t"
  shows "pt_inv (snd (pt_bind_address_space_root t h root))"
    "vm_wf m \<Longrightarrow> pt_inv (snd (pt_map t h m))" "pt_inv (snd (pt_unmap t h index))"
proof -
  have as: "ast_inv (pt_address_spaces t)" using assms by (simp add: pt_inv_def)
  show "pt_inv (snd (pt_bind_address_space_root t h root))"
    using assms pt_inv_content [OF assms ast_bind_root_inv [OF as] ast_content_ops_frame(1)]
    by (simp add: pt_bind_address_space_root_def case_prod_beta split: sum.splits)
  show "pt_inv (snd (pt_unmap t h index))"
    using assms pt_inv_content [OF assms ast_unmap_inv [OF as] ast_content_ops_frame(3)]
    by (simp add: pt_unmap_def case_prod_beta split: sum.splits)
  assume "vm_wf m"
  then show "pt_inv (snd (pt_map t h m))"
    using assms pt_inv_content [OF assms ast_map_inv [OF as] ast_content_ops_frame(2)]
    by (simp add: pt_map_def case_prod_beta split: sum.splits)
qed

lemma pt_end_op_inv:
  assumes "pt_inv t"
  shows "pt_inv (snd (pt_exit t h status))" "pt_inv (snd (pt_fault t h vector))"
  using assms pt_inv_put_state [OF assms]
  by (auto simp: pt_exit_def pt_fault_def pt_running_Ok split: sum.splits)

lemma live_process_space:
  assumes inv: "pt_inv t" and p: "pt_current_mut t h = Ok p" "ps_state p \<noteq> PsVacant"
  obtains s a where "ps_address_space p = Some s" "ast_current_mut (pt_address_spaces t) s = Ok a"
proof -
  let ?i = "unat (ph_slot h)"
  have i: "?i < length (pt_slots t)" "pt_slots t ! ?i = p" using p(1) by (simp_all add: pt_current_mut_Ok)
  then have "process_ok p" using inv by (auto simp: pt_inv_def)
  with p(2) obtain s where s: "ps_address_space p = Some s" by (auto simp: process_ok_def)
  have owns: "owns (map ps_address_space (pt_slots t)) (ast_slots (pt_address_spaces t))"
    using inv by (simp add: pt_inv_def)
  have "\<exists>a. ast_current_mut (pt_address_spaces t) s = Ok a"
    using ownsD(1-3) [OF owns, of ?i s] i s by (simp add: ast_current_mut_Ok)
  with s that show thesis by blast
qed

lemma pt_reclaim_ended:
  assumes inv: "pt_inv t" and p: "pt_ended t h = Ok p"
  obtains s a where "ps_address_space p = Some s" "ast_current_mut (pt_address_spaces t) s = Ok a"
    "pt_reclaim t h = (Ok (), pt_put (t\<lparr>pt_address_spaces := snd (ast_release (pt_address_spaces t) s)\<rparr>) h
       (p\<lparr>ps_state := PsVacant, ps_entry := 0, ps_address_space := None,
          ps_generation := process_next_generation (ps_generation p)\<rparr>))"
proof -
  have "pt_current_mut t h = Ok p" "ps_state p \<noteq> PsVacant" using p by (auto simp: pt_ended_Ok)
  then obtain s a where s: "ps_address_space p = Some s" "ast_current_mut (pt_address_spaces t) s = Ok a"
    by (rule live_process_space [OF inv])
  have same: "pt_ended (t\<lparr>pt_address_spaces := as\<rparr>) h = pt_ended t h" for as
    by (simp add: pt_ended_def pt_current_mut_def)
  obtain as' where release: "ast_release (pt_address_spaces t) s = (Ok (), as')"
    using s(2) by (simp add: ast_release_def)
  then have "pt_reclaim t h = (Ok (), pt_put (t\<lparr>pt_address_spaces := snd (ast_release (pt_address_spaces t) s)\<rparr>) h
       (p\<lparr>ps_state := PsVacant, ps_entry := 0, ps_address_space := None,
          ps_generation := process_next_generation (ps_generation p)\<rparr>))"
    using p s by (simp add: pt_reclaim_def same Let_def)
  with s that show thesis by blast
qed

lemma pt_reclaim_inv:
  assumes inv: "pt_inv t"
  shows "pt_inv (snd (pt_reclaim t h))"
proof (cases "pt_ended t h")
  case (Inl e)
  then show ?thesis using inv by (simp add: pt_reclaim_def)
next
  case (Inr p)
  let ?i = "unat (ph_slot h)" and ?as = "pt_address_spaces t"
  from inv Inr obtain s a where s: "ps_address_space p = Some s" "ast_current_mut ?as s = Ok a"
    "pt_reclaim t h = (Ok (), pt_put (t\<lparr>pt_address_spaces := snd (ast_release ?as s)\<rparr>) h
       (p\<lparr>ps_state := PsVacant, ps_entry := 0, ps_address_space := None,
          ps_generation := process_next_generation (ps_generation p)\<rparr>))"
    by (rule pt_reclaim_ended)
  have i: "?i < length (pt_slots t)" "pt_slots t ! ?i = p" using Inr by (simp_all add: pt_ended_Ok pt_current_mut_Ok)
  define a' where "a' = a\<lparr>as_state := AsVacant, as_root := None,
    as_mappings := replicate MAX_MAPPINGS_PER_ADDRESS_SPACE None,
    as_generation := process_next_generation (as_generation a)\<rparr>"
  have a': "as_state a' = AsVacant"
    "ast_slots (snd (ast_release ?as s)) = (ast_slots ?as)[unat (ash_slot s) := a']"
    using s(2) by (simp_all add: ast_release_def ast_put_def a'_def)
  have "owns ((map ps_address_space (pt_slots t))[?i := None]) ((ast_slots ?as)[unat (ash_slot s) := a'])"
    using inv i s(1) a'(1) by (intro owns_release) (auto simp: pt_inv_def)
  moreover have "ast_inv (snd (ast_release ?as s))" using inv by (simp add: pt_inv_def invariant_intros)
  moreover have "process_ok (p\<lparr>ps_state := PsVacant, ps_entry := 0, ps_address_space := None,
      ps_generation := process_next_generation (ps_generation p)\<rparr>)"
    by (simp add: process_ok_def process_next_generation_wrapping)
  ultimately show ?thesis
    using inv a'(2) s(3) by (auto simp: pt_inv_def pt_put_def map_update dest: set_updateD)
qed

section \<open>The slot contract\<close>

inductive pt_step :: "process_table \<Rightarrow> process_table \<Rightarrow> bool" where
  pt_step_start: "pt_step t (snd (pt_start_plan t plan))"
| pt_step_bind: "pt_step t (snd (pt_bind_address_space_root t h root))"
| pt_step_map: "vm_built m \<Longrightarrow> pt_step t (snd (pt_map t h m))"
| pt_step_unmap: "pt_step t (snd (pt_unmap t h index))"
| pt_step_exit: "pt_step t (snd (pt_exit t h status))"
| pt_step_fault: "pt_step t (snd (pt_fault t h vector))"
| pt_step_reclaim: "pt_step t (snd (pt_reclaim t h))"

lemma pt_step_inv: "pt_step t t' \<Longrightarrow> pt_inv t \<Longrightarrow> pt_inv t'"
  by (induction rule: pt_step.induct)
    (simp_all add: pt_start_plan_inv pt_content_op_inv pt_end_op_inv pt_reclaim_inv vm_built_wf)

lemma pt_inv_reachable: "pt_step\<^sup>*\<^sup>* process_table_new t \<Longrightarrow> pt_inv t"
  by (induction rule: rtranclp_induct) (auto simp: pt_inv_new intro: pt_step_inv)

definition pt_gen :: "process_table \<Rightarrow> nat \<Rightarrow> nat" where
  "pt_gen t i = (if i < length (pt_slots t) then unat (ps_generation (pt_slots t ! i)) else 1)"

definition pt_live :: "process_table \<Rightarrow> nat \<Rightarrow> bool" where
  "pt_live t i \<longleftrightarrow> i < length (pt_slots t) \<and> ps_state (pt_slots t ! i) \<noteq> PsVacant"

definition pt_retires :: "process_table \<Rightarrow> process_table \<Rightarrow> nat \<Rightarrow> bool" where
  "pt_retires t t' i \<longleftrightarrow> pt_gen t' i = pt_gen t i \<and> (pt_live t i \<longrightarrow> pt_live t' i)
     \<or> pt_gen t' i = cyc_next (2 ^ 64) (pt_gen t i)"

lemma pt_retires_same [simp]: "pt_slots t' = pt_slots t \<Longrightarrow> pt_retires t t' i"
  by (simp add: pt_retires_def pt_gen_def pt_live_def)

lemma pt_retires_put:
  assumes "pt_current_mut t h = Ok p" and "pt_slots t' = (pt_slots t)[unat (ph_slot h) := p']"
    and "ps_generation p' = ps_generation p \<and> ps_state p' \<noteq> PsVacant
      \<or> ps_generation p' = wrapping_next (ps_generation p)"
  shows "pt_retires t t' i"
  using assms
  by (auto simp: pt_retires_def pt_gen_def pt_live_def pt_current_mut_Ok nth_list_update unat_wrapping_next)

lemma pt_step_generation:
  assumes inv: "pt_inv t" and step: "pt_step t t'"
  shows "pt_retires t t' i"
  using step
proof cases
  case (pt_step_start plan)
  show ?thesis
    unfolding pt_step_start
    by (cases plan rule: pt_start_plan_cases [OF inv])
      (auto simp: pt_retires_def pt_gen_def pt_live_def nth_list_update)
next
  case (pt_step_exit h status)
  then show ?thesis
    by (auto simp: pt_exit_def pt_running_Ok pt_put_def intro!: pt_retires_put split: sum.splits)
next
  case (pt_step_fault h vector)
  then show ?thesis
    by (auto simp: pt_fault_def pt_running_Ok pt_put_def intro!: pt_retires_put split: sum.splits)
next
  case (pt_step_reclaim h)
  show ?thesis
  proof (cases "pt_ended t h")
    case (Inl e)
    then show ?thesis using pt_step_reclaim by (simp add: pt_reclaim_def)
  next
    case (Inr p)
    then have p: "pt_current_mut t h = Ok p" by (simp add: pt_ended_Ok)
    from inv Inr show ?thesis
    proof (rule pt_reclaim_ended)
      fix s a
      assume "pt_reclaim t h = (Ok (), pt_put (t\<lparr>pt_address_spaces := snd (ast_release (pt_address_spaces t) s)\<rparr>) h
          (p\<lparr>ps_state := PsVacant, ps_entry := 0, ps_address_space := None,
             ps_generation := process_next_generation (ps_generation p)\<rparr>))"
      with pt_step_reclaim p show ?thesis
        by (intro pt_retires_put [OF p, where p' = "p\<lparr>ps_state := PsVacant, ps_entry := 0,
              ps_address_space := None, ps_generation := process_next_generation (ps_generation p)\<rparr>"])
          (simp_all add: pt_put_def process_next_generation_wrapping)
    qed
  qed
qed (auto simp: pt_bind_address_space_root_def pt_map_def pt_unmap_def case_prod_beta split: sum.splits)

interpretation process_slots: generation_slots "2 ^ 64" pt_step pt_inv pt_gen pt_live
proof
  fix t t' :: process_table and i
  assume inv: "pt_inv t"
  show range: "0 < pt_gen t i \<and> pt_gen t i < 2 ^ 64"
    using inv u64_bound [of "ps_generation (pt_slots t ! i)"]
    by (auto simp: pt_inv_def pt_gen_def process_ok_def unat_gt_0)
  assume step: "pt_step t t'"
  then show "pt_inv t'" using inv by (rule pt_step_inv)
  show "pt_gen t' i = pt_gen t i \<or> pt_gen t' i = cyc_next (2 ^ 64) (pt_gen t i)"
    using pt_step_generation [OF inv step, of i] by (auto simp: pt_retires_def)
  show "pt_live t i \<Longrightarrow> \<not> pt_live t' i \<Longrightarrow> pt_gen t' i \<noteq> pt_gen t i"
    using pt_step_generation [OF inv step, of i] cyc_next_neq [of "2 ^ 64" "pt_gen t i"] range
    by (auto simp: pt_retires_def)
qed simp

section \<open>Properties\<close>

lemma ph_eq_iff: "h = k \<longleftrightarrow> ph_slot h = ph_slot k \<and> ph_generation h = ph_generation k"
  for h k :: process_handle
  by (cases h, cases k) simp

lemma ast_current_root: "ast_current_mut t h = Ok a \<Longrightarrow> ast_root t h = as_root a"
  by (auto simp: ast_current_mut_Ok ast_root_def slice_get_def)

lemma pt_address_space_Some:
  "pt_address_space t h = Some s \<longleftrightarrow> (\<exists>p. pt_current_mut t h = Ok p \<and> ps_address_space p = Some s)"
  by (auto simp: pt_address_space_def pt_current_mut_def split: option.splits if_splits)

lemma pt_state_Some:
  "pt_state t h = Some st \<longleftrightarrow> (\<exists>p. pt_current_mut t h = Ok p \<and> ps_state p = st)"
  by (auto simp: pt_state_def pt_current_mut_def split: option.splits if_splits)

text \<open>
  C1: In every reachable process table the processes and the reserved address spaces correspond
  one to one: two different process handles never name the same address space, every process that
  is not vacant has a current address space, and every reserved address space belongs to such a
  process, so none is leaked.
\<close>

theorem processes_own_address_spaces:
  assumes "pt_step\<^sup>*\<^sup>* process_table_new t"
  shows "(pt_address_space t h = Some s \<and> pt_address_space t k = Some s' \<and> h \<noteq> k \<longrightarrow> ash_slot s \<noteq> ash_slot s')
    \<and> (pt_state t h = Some st \<and> st \<noteq> PsVacant \<longrightarrow>
         (\<exists>s a. pt_address_space t h = Some s \<and> ast_current_mut (pt_address_spaces t) s = Ok a))
    \<and> (ast_current_mut (pt_address_spaces t) s = Ok a \<longrightarrow>
         (\<exists>h st. pt_address_space t h = Some s \<and> pt_state t h = Some st \<and> st \<noteq> PsVacant))"
proof -
  have inv: "pt_inv t" using assms by (rule pt_inv_reachable)
  then have owns: "owns (map ps_address_space (pt_slots t)) (ast_slots (pt_address_spaces t))"
    by (simp add: pt_inv_def)
  have "ash_slot s \<noteq> ash_slot s'"
    if "pt_address_space t h = Some s" "pt_address_space t k = Some s'" "h \<noteq> k"
  proof -
    have "unat (ph_slot h) \<noteq> unat (ph_slot k)"
      using that by (auto simp: pt_address_space_Some pt_current_mut_Ok ph_eq_iff slot_simps)
    with that show ?thesis
      using ownsD(4) [OF owns, of "unat (ph_slot h)" "unat (ph_slot k)" s s']
      by (auto simp: pt_address_space_Some pt_current_mut_Ok)
  qed
  moreover have "\<exists>s a. pt_address_space t h = Some s \<and> ast_current_mut (pt_address_spaces t) s = Ok a"
    if "pt_state t h = Some st" "st \<noteq> PsVacant"
  proof -
    from that obtain p where p: "pt_current_mut t h = Ok p" "ps_state p \<noteq> PsVacant"
      by (auto simp: pt_state_Some)
    then show ?thesis
      by (rule live_process_space [OF inv]) (use p in \<open>auto simp: pt_address_space_Some\<close>)
  qed
  moreover have "\<exists>h st. pt_address_space t h = Some s \<and> pt_state t h = Some st \<and> st \<noteq> PsVacant"
    if "ast_current_mut (pt_address_spaces t) s = Ok a"
  proof -
    from that have "unat (ash_slot s) < length (ast_slots (pt_address_spaces t))"
      "as_state (ast_slots (pt_address_spaces t) ! unat (ash_slot s)) = AsReserved"
      "as_generation (ast_slots (pt_address_spaces t) ! unat (ash_slot s)) = ash_generation s"
      by (auto simp: ast_current_mut_Ok)
    moreover from ownsD(5) [OF owns this(1,2)] obtain i s' where i: "i < length (pt_slots t)"
      "ps_address_space (pt_slots t ! i) = Some s'" "unat (ash_slot s') = unat (ash_slot s)"
      by auto
    moreover have "as_generation (ast_slots (pt_address_spaces t) ! unat (ash_slot s')) = ash_generation s'"
      using ownsD(2) [OF owns, of i s'] i by simp
    ultimately have "s' = s" by (simp add: ash_eq_iff slot_simps)
    have "i < 256" using i(1) inv by (simp add: pt_inv_def)
    then have "pt_current_mut t \<lparr>ph_slot = of_nat i, ph_generation = ps_generation (pt_slots t ! i)\<rparr>
        = Ok (pt_slots t ! i)"
      using i(1) by (simp add: pt_current_mut_Ok unat_of_nat_u8)
    moreover have "process_ok (pt_slots t ! i)" using inv i(1) by (simp add: pt_inv_def)
    ultimately show ?thesis
      using i(2) \<open>s' = s\<close> unfolding pt_address_space_Some pt_state_Some
      by (intro exI [of _ "\<lparr>ph_slot = of_nat i, ph_generation = ps_generation (pt_slots t ! i)\<rparr>"])
        (auto simp: process_ok_def)
  qed
  ultimately show ?thesis by blast
qed

text \<open>One started process, for the examples.\<close>

definition pt_example :: process_table where
  "pt_example = snd (pt_start_plan process_table_new (elf_empty_plan 0x400000))"

lemma pt_example_start:
  "pt_start_plan process_table_new (elf_empty_plan 0x400000)
     = (Ok \<lparr>ph_slot = 0, ph_generation = 1\<rparr>, pt_example)"
  by (simp add: pt_example_def pt_start_plan_def process_table_new_def process_slot_empty_def
      position_replicate ast_reserve_new)

lemma pt_example_slots:
  "pt_slots pt_example = (replicate 16 process_slot_empty)[0 := \<lparr>ps_generation = 1, ps_state = PsRunning,
     ps_entry = 0x400000, ps_address_space = Some \<lparr>ash_slot = 0, ash_generation = 1\<rparr>\<rparr>]"
  by (simp add: pt_example_def pt_start_plan_def process_table_new_def process_slot_empty_def
      position_replicate ast_reserve_new elf_empty_plan_def)

lemma pt_example_reachable: "pt_step\<^sup>*\<^sup>* process_table_new pt_example"
  unfolding pt_example_def using pt_step_start by (rule r_into_rtranclp)

theorem processes_own_address_spaces_witness:
  "\<exists>s a. pt_address_space pt_example \<lparr>ph_slot = 0, ph_generation = 1\<rparr> = Some s
     \<and> ast_current_mut (pt_address_spaces pt_example) s = Ok a"
proof -
  have "pt_state pt_example \<lparr>ph_slot = 0, ph_generation = 1\<rparr> = Some PsRunning"
    by (simp add: pt_state_def slice_get_def pt_example_slots)
  then show ?thesis
    using processes_own_address_spaces [OF pt_example_reachable,
        where h = "\<lparr>ph_slot = 0, ph_generation = 1\<rparr>" and st = PsRunning] by blast
qed

text \<open>
  Starting a process in a reachable table fails exactly when all sixteen process slots are in
  use, and then changes nothing: the address-space table never runs out first. Otherwise the
  handle returned named a vacant slot, now names a running process, and its address space has no
  root and translates no address.
\<close>

theorem start_plan_outcome:
  assumes "pt_step\<^sup>*\<^sup>* process_table_new t"
  shows "case pt_start_plan t plan of
      (Inl e, t') \<Rightarrow> e = PeCapacity \<and> t' = t \<and> list_all (\<lambda>p. ps_state p \<noteq> PsVacant) (pt_slots t)
    | (Inr h, t') \<Rightarrow> pt_state t h = Some PsVacant \<and> pt_state t' h = Some PsRunning
        \<and> (\<exists>s. pt_address_space t' h = Some s \<and> ast_root (pt_address_spaces t') s = None
             \<and> ast_translate (pt_address_spaces t') s v = None)"
proof -
  have inv: "pt_inv t" using assms by (rule pt_inv_reachable)
  show ?thesis
  proof (cases plan rule: pt_start_plan_cases [OF inv])
    case 1
    then show ?thesis by (simp add: list_all_iff)
  next
    case (2 i k a)
    let ?s = "\<lparr>ash_slot = of_nat k, ash_generation = as_generation (ast_slots (pt_address_spaces t) ! k)\<rparr>"
    let ?h = "\<lparr>ph_slot = of_nat i, ph_generation = ps_generation (pt_slots t ! i)\<rparr>"
    have small: "i < 256" "k < 256" using 2(1,3) inv by (simp_all add: pt_inv_def ast_inv_def)
    have as: "ast_slots (snd (ast_reserve (pt_address_spaces t))) = (ast_slots (pt_address_spaces t))[k := a]"
      using 2(9) by simp
    have reserved: "ast_current_mut (snd (ast_reserve (pt_address_spaces t))) ?s = Ok a"
      using 2(3,5,6) small as by (simp add: ast_current_mut_Ok unat_of_nat_u8)
    have "mappings_view (replicate n None) v = None" for n by (simp add: mappings_view_None)
    with reserved 2(7,8) have "ast_root (snd (ast_reserve (pt_address_spaces t))) ?s = None"
      "ast_translate (snd (ast_reserve (pt_address_spaces t))) ?s v = None"
      by (simp_all add: ast_current_root ast_translate_def)
    with 2 small show ?thesis
      by (simp add: pt_state_def pt_address_space_def slice_get_def unat_of_nat_u8)
  qed
qed

theorem start_plan_outcome_witness:
  "\<exists>s. pt_address_space pt_example \<lparr>ph_slot = 0, ph_generation = 1\<rparr> = Some s
     \<and> ast_translate (pt_address_spaces pt_example) s 0x400000 = None"
  using start_plan_outcome [OF rtranclp.rtrancl_refl, of "0x400000" "elf_empty_plan 0x400000"]
  by (auto simp: pt_example_start)

text \<open>
  Reclaiming a process that exited or faulted always succeeds in a reachable table. Its handle
  and its address-space handle are then dead, and the process handle stays dead through every later
  sequence of calls, until its slot was reclaimed \<open>2 ^ 64 - 2\<close> more times.
\<close>

theorem reclaim_outcome:
  assumes "pt_step\<^sup>*\<^sup>* process_table_new t" and "pt_state t h = Some st" and "process_ended st"
    and "retire_run pt_step (\<lambda>t. pt_gen t (unat (ph_slot h))) (snd (pt_reclaim t h)) k t'" and "k < 2 ^ 64 - 2"
  shows "fst (pt_reclaim t h) = Ok () \<and> pt_state t' h = None
    \<and> (\<exists>s. pt_address_space t h = Some s
         \<and> ast_current_mut (pt_address_spaces (snd (pt_reclaim t h))) s = Err PeInvalidHandle)"
proof -
  let ?i = "unat (ph_slot h)" and ?t1 = "snd (pt_reclaim t h)" and ?as = "pt_address_spaces t"
  have inv: "pt_inv t" using assms(1) by (rule pt_inv_reachable)
  from assms(2,3) obtain p where p: "pt_ended t h = Ok p" by (auto simp: pt_ended_Ok pt_state_Some)
  from inv p obtain s a where s: "ps_address_space p = Some s" "ast_current_mut ?as s = Ok a"
    "pt_reclaim t h = (Ok (), pt_put (t\<lparr>pt_address_spaces := snd (ast_release ?as s)\<rparr>) h
       (p\<lparr>ps_state := PsVacant, ps_entry := 0, ps_address_space := None,
          ps_generation := process_next_generation (ps_generation p)\<rparr>))"
    by (rule pt_reclaim_ended)
  have cur: "pt_current_mut t h = Ok p" using p by (simp add: pt_ended_Ok)
  have gen: "pt_gen t ?i = unat (ph_generation h)" using cur by (simp add: pt_gen_def pt_current_mut_Ok)
  have live: "pt_live t ?i" "\<not> pt_live ?t1 ?i"
    using p s(3) by (auto simp: pt_live_def pt_ended_Ok pt_current_mut_Ok pt_put_def)
  have "pt_gen t' ?i \<noteq> pt_gen t ?i"
    by (rule process_slots.freed_handle_dead [OF inv pt_step_reclaim live assms(4,5)])
  then have "pt_state t' h = None"
    using gen by (auto simp: pt_state_def pt_gen_def split: option.splits)
  moreover have "ast_current_mut (pt_address_spaces ?t1) s = Err PeInvalidHandle"
    using s(2,3) by (simp add: pt_put_def ast_release_def ast_put_def ast_current_mut_def slice_get_def
        split: option.splits if_splits)
  moreover have "pt_address_space t h = Some s" using cur s(1) by (auto simp: pt_address_space_Some)
  ultimately show ?thesis using s(3) by auto
qed

theorem reclaim_outcome_witness:
  "let h = \<lparr>ph_slot = 0, ph_generation = 1\<rparr>; t = snd (pt_exit pt_example h 7)
   in pt_state t h = Some (PsExited 7) \<and> fst (pt_reclaim t h) = Ok ()
      \<and> pt_state (snd (pt_reclaim t h)) h = None"
proof -
  let ?h = "\<lparr>ph_slot = 0, ph_generation = 1\<rparr> :: process_handle"
  let ?t = "snd (pt_exit pt_example ?h 7)"
  have reach: "pt_step\<^sup>*\<^sup>* process_table_new ?t"
    using pt_example_reachable pt_step_exit by (rule rtranclp.rtrancl_into_rtrancl)
  have state: "pt_state ?t ?h = Some (PsExited 7)"
    by (simp add: pt_exit_def pt_running_def pt_current_mut_def pt_put_def pt_state_def slice_get_def pt_example_slots)
  from reclaim_outcome [OF reach this _ run_refl] state show ?thesis by (simp add: Let_def)
qed

end
