(* ===== verification/Live_Supervisor.thy ===== *)
theory Live_Supervisor
  imports Runtime_ABI Process_Table
begin

text \<open>
  The health and restart policy of the live service graph, \<open>src/supervisor.rs\<close>. Records are
  indexed by the slot index of the service handle. The theory models every method of
  \<open>LiveSupervisor\<close>: it shows what one poll detects, that recovery mode latches, that the restart
  cap holds for a service that keeps its handle, and that it does not hold across restarts of the
  graph, which give every service a new generation. \<open>Vec::try_reserve\<close> is a parameter of
  \<open>ensure\<close>: whether the reservation of that many entries succeeds.
\<close>

section \<open>Data\<close>

abbreviation HEARTBEAT_INTERVAL :: u64 where "HEARTBEAT_INTERVAL \<equiv> 100"
abbreviation MISSED_HEARTBEATS :: u8 where "MISSED_HEARTBEATS \<equiv> 3"
abbreviation MAX_RESTARTS :: u8 where "MAX_RESTARTS \<equiv> 3"
abbreviation STARTUP_GRACE_TICKS :: u64 where "STARTUP_GRACE_TICKS \<equiv> 2000"

datatype service_state = SvStopped | SvRunning | SvUnhealthy

record service_record =
  sr_handle :: service_handle
  sr_state :: service_state
  sr_last_heartbeat :: u64
  sr_missed_heartbeats :: u8
  sr_restarts :: u8
  sr_startup_grace_until :: u64

definition service_record_empty :: service_record where
  "service_record_empty =
     \<lparr>sr_handle = handle_empty, sr_state = SvStopped, sr_last_heartbeat = 0,
      sr_missed_heartbeats = 0, sr_restarts = 0, sr_startup_grace_until = 0\<rparr>"

record live_supervisor =
  ls_records :: "service_record option list"
  ls_recovery :: bool
  ls_startup_grace_armed :: bool

definition live_supervisor_new :: live_supervisor where
  "live_supervisor_new = \<lparr>ls_records = [], ls_recovery = False, ls_startup_grace_armed = False\<rparr>"

section \<open>Registration\<close>

definition slot_index :: "service_handle \<Rightarrow> nat" where
  "slot_index h = unat (handle_index h)"

definition ls_ensure :: "(nat \<Rightarrow> bool) \<Rightarrow> live_supervisor \<Rightarrow> service_handle \<Rightarrow> bool \<times> live_supervisor" where
  "ls_ensure reserve s h =
     (let index = slot_index h; n = length (ls_records s)
      in if \<not> handle_is_valid h then (False, s)
         else if index \<ge> n \<and> \<not> reserve (index + 1 - n) then (False, s)
         else
           (let s = (if index \<ge> n
                     then s\<lparr>ls_records := ls_records s @ replicate (index + 1 - n) None\<rparr> else s)
            in case ls_records s ! index of
                 None \<Rightarrow> (True, s)
               | Some r \<Rightarrow>
                   if sr_handle r = h then (True, s)
                   else if sr_state r = SvStopped
                   then (True, s\<lparr>ls_records := (ls_records s)[index := None]\<rparr>)
                   else (False, s)))"

definition ls_register ::
    "(nat \<Rightarrow> bool) \<Rightarrow> live_supervisor \<Rightarrow> service_handle \<Rightarrow> u64 \<Rightarrow> bool \<times> live_supervisor" where
  "ls_register reserve s h now =
     (case ls_ensure reserve s h of
        (False, s) \<Rightarrow> (False, s)
      | (True, s) \<Rightarrow>
          (let r = (case ls_records s ! slot_index h of None \<Rightarrow> service_record_empty | Some r \<Rightarrow> r);
               r = r\<lparr>sr_handle := h, sr_state := SvRunning, sr_last_heartbeat := now,
                     sr_missed_heartbeats := 0,
                     sr_startup_grace_until :=
                       (if ls_startup_grace_armed s then saturating_add now STARTUP_GRACE_TICKS else 0)\<rparr>
           in (True, s\<lparr>ls_records := (ls_records s)[slot_index h := Some r]\<rparr>)))"

definition ls_unregister :: "live_supervisor \<Rightarrow> service_handle \<Rightarrow> live_supervisor" where
  "ls_unregister s h =
     (case slice_get (ls_records s) (slot_index h) of
        Some (Some r) \<Rightarrow>
          if sr_handle r = h then s\<lparr>ls_records := (ls_records s)[slot_index h := None]\<rparr> else s
      | _ \<Rightarrow> s)"

definition ls_retain_slots :: "live_supervisor \<Rightarrow> service_handle list \<Rightarrow> live_supervisor" where
  "ls_retain_slots s handles =
     s\<lparr>ls_records := map (\<lambda>slot. case slot of
          None \<Rightarrow> None
        | Some r \<Rightarrow>
            if list_ex (\<lambda>h. handle_index h = handle_index (sr_handle r)) handles then Some r else None)
        (ls_records s)\<rparr>"

section \<open>Polling\<close>

fun process_down :: "process_state option option \<Rightarrow> bool" where
  "process_down (Some (Some st)) = (st \<noteq> PsRunning)"
| "process_down _ = False"

text \<open>
  One running record: the updated record, and whether the service was found unhealthy. Reading
  \<open>heartbeats[index]\<close> out of range is the panic of the slice index.
\<close>

definition ls_poll_record ::
    "u64 \<Rightarrow> u64 option \<Rightarrow> process_state option option \<Rightarrow> service_record
      \<Rightarrow> unit fault + (service_record \<times> bool)" where
  "ls_poll_record now heartbeat st r =
     (if process_down st then Ok (r\<lparr>sr_state := SvUnhealthy\<rparr>, True)
      else result_bind (ok_or heartbeat Panicked) (\<lambda>beat.
        let r = (if beat > sr_last_heartbeat r
                 then r\<lparr>sr_last_heartbeat := beat, sr_missed_heartbeats := 0, sr_startup_grace_until := 0\<rparr>
                 else r)
        in if now < sr_startup_grace_until r then Ok (r, False)
           else if saturating_sub now (sr_last_heartbeat r) < HEARTBEAT_INTERVAL then Ok (r, False)
           else
             let missed = ucast (min (saturating_sub now (sr_last_heartbeat r) div HEARTBEAT_INTERVAL) 255);
                 r = r\<lparr>sr_missed_heartbeats := saturating_add (sr_missed_heartbeats r) (max missed 1),
                       sr_last_heartbeat := now\<rparr>
             in if sr_missed_heartbeats r \<ge> MISSED_HEARTBEATS
                then Ok (r\<lparr>sr_state := SvUnhealthy\<rparr>, True) else Ok (r, False)))"

primrec ls_poll_loop ::
    "u64 \<Rightarrow> u64 list \<Rightarrow> process_state option list \<Rightarrow> nat \<Rightarrow> service_record option list
      \<Rightarrow> unit fault + (service_handle option \<times> service_record option list)" where
  "ls_poll_loop now heartbeats states index [] = Ok (None, [])"
| "ls_poll_loop now heartbeats states index (slot # rest) =
     (let continue = result_bind (ls_poll_loop now heartbeats states (Suc index) rest)
            (\<lambda>(found, rest'). Ok (found, slot # rest'))
      in case slot of
           None \<Rightarrow> continue
         | Some r \<Rightarrow>
             if sr_state r \<noteq> SvRunning then continue
             else result_bind (ls_poll_record now (slice_get heartbeats index) (slice_get states index) r)
               (\<lambda>(r', unhealthy).
                  if unhealthy then Ok (Some (sr_handle r'), Some r' # rest)
                  else result_bind (ls_poll_loop now heartbeats states (Suc index) rest)
                         (\<lambda>(found, rest'). Ok (found, Some r' # rest'))))"

definition ls_poll ::
    "live_supervisor \<Rightarrow> u64 \<Rightarrow> u64 list \<Rightarrow> process_state option list
      \<Rightarrow> unit fault + (service_handle option \<times> live_supervisor)" where
  "ls_poll s now heartbeats states =
     result_bind (ls_poll_loop now heartbeats states 0 (ls_records s))
       (\<lambda>(found, records). Ok (found, s\<lparr>ls_records := records\<rparr>))"

section \<open>Restarts\<close>

definition record_restarted :: "service_record \<Rightarrow> service_record" where
  "record_restarted r = r\<lparr>sr_state := SvStopped, sr_last_heartbeat := 0, sr_missed_heartbeats := 0,
     sr_restarts := sr_restarts r + 1\<rparr>"

definition ls_prepare_restart :: "live_supervisor \<Rightarrow> bool \<times> live_supervisor" where
  "ls_prepare_restart s =
     (if ls_recovery s
         \<or> list_ex (\<lambda>slot. case slot of None \<Rightarrow> False | Some r \<Rightarrow> sr_restarts r \<ge> MAX_RESTARTS) (ls_records s)
      then (False, s\<lparr>ls_recovery := True\<rparr>)
      else (True, s\<lparr>ls_records := map (map_option record_restarted) (ls_records s),
                    ls_startup_grace_armed := True\<rparr>))"

definition ls_prepare_targeted_restart :: "live_supervisor \<Rightarrow> service_handle \<Rightarrow> bool \<times> live_supervisor" where
  "ls_prepare_targeted_restart s h =
     (case slice_get (ls_records s) (slot_index h) of
        Some (Some r) \<Rightarrow>
          if sr_handle r \<noteq> h then (False, s)
          else if sr_restarts r \<ge> MAX_RESTARTS then (False, s\<lparr>ls_recovery := True\<rparr>)
          else (True, s\<lparr>ls_records := (ls_records s)[slot_index h := Some (record_restarted r)],
                        ls_startup_grace_armed := True\<rparr>)
      | _ \<Rightarrow> (False, s))"

definition ls_clear_startup_grace :: "live_supervisor \<Rightarrow> live_supervisor" where
  "ls_clear_startup_grace s = s\<lparr>ls_startup_grace_armed := False\<rparr>"

definition ls_arm_startup_grace :: "live_supervisor \<Rightarrow> live_supervisor" where
  "ls_arm_startup_grace s = s\<lparr>ls_startup_grace_armed := True\<rparr>"

section \<open>What one poll detects\<close>

text \<open>
  A running service is overdue when its process is down, or when neither a newer heartbeat nor
  the startup grace excuses it and three intervals have passed since the last one.
\<close>

definition overdue :: "u64 \<Rightarrow> u64 option \<Rightarrow> process_state option option \<Rightarrow> service_record \<Rightarrow> bool" where
  "overdue now heartbeat st r \<longleftrightarrow> process_down st
     \<or> (\<exists>beat. heartbeat = Some beat \<and> \<not> sr_last_heartbeat r < beat \<and> \<not> now < sr_startup_grace_until r
          \<and> unat (sr_last_heartbeat r) + 300 \<le> unat now)"

lemma missed_intervals:
  assumes "unat beat + 300 \<le> unat now"
  shows "3 \<le> unat (ucast (min (saturating_sub now beat div HEARTBEAT_INTERVAL) 255 :: u64) :: u8)"
proof -
  let ?q = "saturating_sub now beat div HEARTBEAT_INTERVAL"
  have "unat ?q = (unat now - unat beat) div 100" by (simp add: unat_div saturating_sub_unat)
  moreover have "3 \<le> (unat now - unat beat) div 100" using assms by simp
  ultimately have "3 \<le> unat (min ?q 255)" "unat (min ?q 255) \<le> 255"
    by (simp_all add: min_def word_le_nat_alt)
  then show ?thesis by (simp add: unat_ucast)
qed

lemma saturating_add_ge: "3 \<le> unat b \<Longrightarrow> 3 \<le> unat (saturating_add a b)" for a b :: u8
  by (simp add: saturating_add_unat)

lemma ls_poll_record_overdue:
  assumes "ls_poll_record now heartbeat st r = Ok (r', unhealthy)" and "overdue now heartbeat st r"
  shows "unhealthy"
proof (cases "process_down st")
  case True
  then show ?thesis using assms(1) by (simp add: ls_poll_record_def)
next
  case False
  then obtain beat where late: "heartbeat = Some beat" "\<not> sr_last_heartbeat r < beat"
    "\<not> now < sr_startup_grace_until r" "unat (sr_last_heartbeat r) + 300 \<le> unat now"
    using assms(2) by (auto simp: overdue_def)
  let ?missed = "ucast (min (saturating_sub now (sr_last_heartbeat r) div HEARTBEAT_INTERVAL) 255) :: u8"
  have m: "3 \<le> unat ?missed" using late(4) by (rule missed_intervals)
  then have "3 \<le> unat (max ?missed 1)" by (auto simp: max_def word_le_nat_alt)
  then have "MISSED_HEARTBEATS \<le> saturating_add (sr_missed_heartbeats r) (max ?missed 1)"
    by (simp add: word_le_nat_alt saturating_add_ge)
  moreover have "\<not> saturating_sub now (sr_last_heartbeat r) < HEARTBEAT_INTERVAL"
    using late(4) by (simp add: word_less_nat_alt saturating_sub_unat)
  ultimately show ?thesis
    using assms(1) False late by (simp add: ls_poll_record_def Let_def)
qed

lemma ls_poll_record_verdict:
  assumes "ls_poll_record now heartbeat st r = Ok (r', unhealthy)"
  shows "sr_handle r' = sr_handle r \<and> (unhealthy \<longrightarrow> sr_state r' = SvUnhealthy
      \<and> (process_down st \<or> unat now \<ge> unat (sr_last_heartbeat r) + 100))
    \<and> (\<not> unhealthy \<longrightarrow> sr_state r' = sr_state r)"
  using assms
  by (auto simp: ls_poll_record_def Let_def result_bind_Ok ok_or_Ok word_less_nat_alt saturating_sub_unat
      split: if_splits)

lemma ls_poll_loop_None:
  assumes "ls_poll_loop now hb st index slots = Ok (None, slots')" "i < length slots"
    "slots ! i = Some r" "sr_state r = SvRunning"
  shows "\<not> overdue now (slice_get hb (index + i)) (slice_get st (index + i)) r"
  using assms
proof (induction slots arbitrary: index i slots')
  case (Cons slot rest)
  obtain rest' where loop: "i \<noteq> 0 \<Longrightarrow> ls_poll_loop now hb st (Suc index) rest = Ok (None, rest')"
    using Cons.prems(1)
    by (auto simp: Let_def result_bind_Ok split: option.splits if_splits prod.splits)
  show ?case
  proof (cases i)
    case 0
    then obtain r' where "ls_poll_record now (slice_get hb index) (slice_get st index) r = Ok (r', False)"
      using Cons.prems by (auto simp: Let_def result_bind_Ok split: if_splits)
    then show ?thesis using 0 ls_poll_record_overdue by fastforce
  next
    case (Suc j)
    then show ?thesis using Cons.IH [OF loop, of j] Cons.prems by simp
  qed
qed simp

lemma ls_poll_loop_Some:
  assumes "ls_poll_loop now hb st index slots = Ok (Some h, slots')"
  shows "\<exists>i r r'. i < length slots \<and> slots ! i = Some r \<and> sr_handle r = h \<and> sr_state r = SvRunning
    \<and> length slots' = length slots \<and> slots' ! i = Some r' \<and> sr_handle r' = h \<and> sr_state r' = SvUnhealthy
    \<and> (process_down (slice_get st (index + i)) \<or> unat (sr_last_heartbeat r) + 100 \<le> unat now)"
    (is "\<exists>i r r'. ?P index slots slots' i r r'")
  using assms
proof (induction slots arbitrary: index slots')
  case (Cons slot rest)
  have later: "\<exists>i r r'. ?P index (slot # rest) slots' i r r'"
    if found: "ls_poll_loop now hb st (Suc index) rest = Ok (Some h, rest')" "slots' = x # rest'" for rest' x
  proof -
    obtain i r r' where "?P (Suc index) rest rest' i r r'" using Cons.IH [OF found(1)] by blast
    then have "?P index (slot # rest) slots' (Suc i) r r'" using found(2) by simp
    then show ?thesis by blast
  qed
  show ?case
  proof (cases "\<exists>r. slot = Some r \<and> sr_state r = SvRunning")
    case True
    then obtain r where r: "slot = Some r" "sr_state r = SvRunning" by blast
    then obtain r' u where step: "ls_poll_record now (slice_get hb index) (slice_get st index) r = Ok (r', u)"
      using Cons.prems by (auto simp: Let_def result_bind_Ok)
    show ?thesis
    proof (cases u)
      case True
      then have "sr_handle r' = h \<and> slots' = Some r' # rest"
        using Cons.prems r step by simp
      then have "?P index (slot # rest) slots' 0 r r'"
        using r ls_poll_record_verdict [OF step] True by simp
      then show ?thesis by blast
    next
      case False
      then show ?thesis using Cons.prems r step later by (auto simp: result_bind_Ok)
    qed
  next
    case False
    then show ?thesis using Cons.prems later
      by (auto simp: Let_def result_bind_Ok split: option.splits if_splits)
  qed
qed simp

lemma ls_poll_record_total: "\<exists>r' u. ls_poll_record now (Some beat) st r = Ok (r', u)"
  by (auto simp: ls_poll_record_def Let_def)

lemma ls_poll_loop_total:
  "index + length slots \<le> length hb \<Longrightarrow> \<exists>found slots'. ls_poll_loop now hb st index slots = Ok (found, slots')"
proof (induction slots arbitrary: index)
  case (Cons slot rest)
  obtain f rest' where rest: "ls_poll_loop now hb st (Suc index) rest = Ok (f, rest')"
    using Cons.IH [of "Suc index"] Cons.prems by auto
  have beat: "slice_get hb index = Some (hb ! index)" using Cons.prems by (simp add: slice_get_def)
  show ?case
  proof (cases slot)
    case (Some r)
    obtain r' u where "ls_poll_record now (slice_get hb index) (slice_get st index) r = Ok (r', u)"
      unfolding beat using ls_poll_record_total by blast
    then show ?thesis using rest Some by (auto simp: Let_def)
  qed (simp add: rest)
qed simp

section \<open>The restart cap\<close>

text \<open>
  One restart of the graph as \<open>RestartCoordinator::run\<close> drives the supervisor for one service:
  prepare, keep the slots of the new handles, then register the handle of the new registry.
\<close>

definition restart_round ::
    "(nat \<Rightarrow> bool) \<Rightarrow> service_handle \<Rightarrow> u64 \<Rightarrow> live_supervisor \<Rightarrow> live_supervisor option" where
  "restart_round reserve h now s =
     (case ls_prepare_restart s of
        (False, _) \<Rightarrow> None
      | (True, s) \<Rightarrow>
          (case ls_register reserve (ls_retain_slots s [h]) h now of
             (False, _) \<Rightarrow> None
           | (True, s) \<Rightarrow> Some s))"

primrec restart_rounds ::
    "(nat \<Rightarrow> bool) \<Rightarrow> (service_handle \<times> u64) list \<Rightarrow> live_supervisor \<Rightarrow> live_supervisor option" where
  "restart_rounds reserve [] s = Some s"
| "restart_rounds reserve (x # xs) s =
     Option.bind (restart_round reserve (fst x) (snd x) s) (restart_rounds reserve xs)"

definition holds_record :: "live_supervisor \<Rightarrow> service_handle \<Rightarrow> service_record \<Rightarrow> bool" where
  "holds_record s h r \<longleftrightarrow> slice_get (ls_records s) (slot_index h) = Some (Some r) \<and> sr_handle r = h"

lemma restart_cap_reached:
  assumes "holds_record s h r" "MAX_RESTARTS \<le> sr_restarts r"
  shows "\<not> fst (ls_prepare_restart s)"
proof -
  have "Some r \<in> set (ls_records s)" using assms(1) by (auto simp: holds_record_def in_set_conv_nth)
  then have "list_ex (\<lambda>slot. case slot of None \<Rightarrow> False | Some r \<Rightarrow> sr_restarts r \<ge> MAX_RESTARTS) (ls_records s)"
    using assms(2) unfolding list_ex_iff by (intro bexI [of _ "Some r"]) simp_all
  then show ?thesis by (simp add: ls_prepare_restart_def)
qed

lemma prepare_restart_record:
  assumes "ls_prepare_restart s = (True, s')" "holds_record s h r"
  shows "holds_record s' h (record_restarted r)"
  using assms by (auto simp: holds_record_def ls_prepare_restart_def record_restarted_def split: if_splits)

lemma retain_slots_record:
  "holds_record s h r \<Longrightarrow> holds_record (ls_retain_slots s [h]) h r"
  by (auto simp: holds_record_def ls_retain_slots_def)

lemma register_same_handle:
  assumes "ls_register reserve s h now = (True, s')" "holds_record s h r"
  shows "\<exists>r'. holds_record s' h r' \<and> sr_restarts r' = sr_restarts r"
  using assms
  by (auto simp: holds_record_def ls_register_def ls_ensure_def Let_def split: if_splits)

lemma restart_round_same_handle:
  assumes "restart_round reserve h now s = Some s'" "holds_record s h r"
  shows "\<exists>r'. holds_record s' h r' \<and> unat (sr_restarts r') = unat (sr_restarts r) + 1"
    and "unat (sr_restarts r) < 3"
proof -
  obtain s1 where prep: "ls_prepare_restart s = (True, s1)"
    and reg: "ls_register reserve (ls_retain_slots s1 [h]) h now = (True, s')"
    using assms(1) by (auto simp: restart_round_def split: prod.splits bool.splits)
  have "\<not> MAX_RESTARTS \<le> sr_restarts r" using restart_cap_reached [OF assms(2)] prep by auto
  then show below: "unat (sr_restarts r) < 3" by (simp add: word_le_nat_alt)
  have "unat (sr_restarts (record_restarted r)) = unat (sr_restarts r) + 1"
    using below by (simp add: record_restarted_def unat_add_no_overflow)
  moreover obtain r' where "holds_record s' h r'" "sr_restarts r' = sr_restarts (record_restarted r)"
    using register_same_handle [OF reg] retain_slots_record prepare_restart_record [OF prep assms(2)] by blast
  ultimately show "\<exists>r'. holds_record s' h r' \<and> unat (sr_restarts r') = unat (sr_restarts r) + 1" by auto
qed

text \<open>A supervisor whose only record is a fresh one: no restarts counted yet.\<close>

definition sole_fresh :: "live_supervisor \<Rightarrow> service_handle \<Rightarrow> bool" where
  "sole_fresh s h \<longleftrightarrow> \<not> ls_recovery s \<and> (\<exists>r. holds_record s h r \<and> sr_restarts r = 0)
     \<and> (\<forall>j < length (ls_records s). j \<noteq> slot_index h \<longrightarrow> ls_records s ! j = None)"

lemma register_new_sole_fresh:
  assumes "ls_register reserve live_supervisor_new h now = (True, s)"
  shows "sole_fresh s h"
  using assms
  by (auto simp: sole_fresh_def holds_record_def ls_register_def ls_ensure_def live_supervisor_new_def
      service_record_empty_def Let_def nth_list_update simp del: replicate_Suc split: if_splits)

lemma sole_fresh_prepare:
  assumes "sole_fresh s h"
  shows "ls_prepare_restart s = (True, s\<lparr>ls_records := map (map_option record_restarted) (ls_records s),
    ls_startup_grace_armed := True\<rparr>)"
proof -
  have "sr_restarts x = 0" if mem: "Some x \<in> set (ls_records s)" for x
  proof -
    obtain j where j: "j < length (ls_records s)" "ls_records s ! j = Some x"
      using mem unfolding in_set_conv_nth by blast
    then have "j = slot_index h" using assms by (auto simp: sole_fresh_def)
    then show ?thesis using assms j by (auto simp: sole_fresh_def holds_record_def)
  qed
  then have "\<not> list_ex (\<lambda>slot. case slot of None \<Rightarrow> False | Some r \<Rightarrow> sr_restarts r \<ge> MAX_RESTARTS) (ls_records s)"
    by (force simp: list_ex_iff split: option.splits)
  then show ?thesis using assms by (simp add: ls_prepare_restart_def sole_fresh_def)
qed

text \<open>Registering a new handle over a stopped record starts from the empty record.\<close>

lemma register_over_stopped:
  assumes "slice_get (ls_records s) (slot_index h) = Some (Some r)" "sr_handle r \<noteq> h"
    "sr_state r = SvStopped" "handle_is_valid h"
  shows "\<exists>r'. ls_register reserve s h now = (True, s\<lparr>ls_records := (ls_records s)[slot_index h := Some r']\<rparr>)
    \<and> sr_handle r' = h \<and> sr_restarts r' = 0"
proof -
  let ?grace = "if ls_startup_grace_armed s then saturating_add now STARTUP_GRACE_TICKS else 0"
  let ?r = "service_record_empty\<lparr>sr_handle := h, sr_state := SvRunning, sr_last_heartbeat := now,
    sr_missed_heartbeats := 0, sr_startup_grace_until := ?grace\<rparr>"
  have "ls_register reserve s h now = (True, s\<lparr>ls_records := (ls_records s)[slot_index h := Some ?r]\<rparr>)"
    using assms by (simp add: ls_register_def ls_ensure_def Let_def)
  moreover have "sr_handle ?r = h" "sr_restarts ?r = 0" by (simp_all add: service_record_empty_def)
  ultimately show ?thesis by blast
qed

lemma restart_round_new_handle:
  assumes "sole_fresh s h" "handle_is_valid h'" "slot_index h' = slot_index h" "h' \<noteq> h"
  shows "\<exists>s'. restart_round reserve h' now s = Some s' \<and> sole_fresh s' h'"
proof -
  define p where "p = ls_retain_slots (snd (ls_prepare_restart s)) [h']"
  obtain r where r: "holds_record s h r" using assms(1) by (auto simp: sole_fresh_def)
  have index: "handle_index h' = handle_index h" using assms(3) by (simp add: slot_index_def word_unat_eq_iff)
  have p_slot: "slice_get (ls_records p) (slot_index h') = Some (Some (record_restarted r))"
    using r assms(3) index by (simp add: p_def sole_fresh_prepare [OF assms(1)] ls_retain_slots_def
        holds_record_def record_restarted_def)
  have p_rest: "\<not> ls_recovery p" "length (ls_records p) = length (ls_records s)"
    "\<forall>j < length (ls_records s). j \<noteq> slot_index h' \<longrightarrow> ls_records p ! j = None"
    using assms(1,3) by (simp_all add: p_def sole_fresh_prepare [OF assms(1)] ls_retain_slots_def sole_fresh_def)
  have "sr_handle (record_restarted r) \<noteq> h'" "sr_state (record_restarted r) = SvStopped"
    using r assms(4) by (simp_all add: record_restarted_def holds_record_def)
  from register_over_stopped [OF p_slot this assms(2), of reserve now]
  obtain r' where reg: "ls_register reserve p h' now = (True, p\<lparr>ls_records := (ls_records p)[slot_index h' := Some r']\<rparr>)"
    and r': "sr_handle r' = h'" "sr_restarts r' = 0" by blast
  have "sole_fresh (p\<lparr>ls_records := (ls_records p)[slot_index h' := Some r']\<rparr>) h'"
    using p_slot p_rest r' by (simp add: sole_fresh_def holds_record_def nth_list_update)
  moreover have "restart_round reserve h' now s = Some (p\<lparr>ls_records := (ls_records p)[slot_index h' := Some r']\<rparr>)"
    using reg by (simp add: restart_round_def p_def sole_fresh_prepare [OF assms(1)])
  ultimately show ?thesis by blast
qed

section \<open>A concrete supervisor\<close>

definition demo_record :: service_record where
  "demo_record = \<lparr>sr_handle = Handle 0x100000000, sr_state = SvRunning, sr_last_heartbeat = 100,
     sr_missed_heartbeats = 0, sr_restarts = 1, sr_startup_grace_until = 0\<rparr>"

definition demo_supervisor :: live_supervisor where
  "demo_supervisor = \<lparr>ls_records = [Some demo_record], ls_recovery = False, ls_startup_grace_armed = False\<rparr>"

lemma demo_handles [simp]:
  "handle_is_valid (Handle 0x100000000)" "slot_index (Handle 0x100000000) = 0"
  "handle_is_valid (Handle 0x200000000)" "slot_index (Handle 0x200000000) = 0"
  "handle_is_valid (Handle 0x300000000)" "slot_index (Handle 0x300000000) = 0"
  "handle_is_valid (Handle 0x400000000)" "slot_index (Handle 0x400000000) = 0"
  "handle_is_valid (Handle 0x500000000)" "slot_index (Handle 0x500000000) = 0"
  "handle_is_valid (Handle 0x600000000)" "slot_index (Handle 0x600000000) = 0"
  by (simp_all add: handle_is_valid_def handle_generation_def slot_index_def handle_index_def)

section \<open>Properties\<close>



text \<open>
  C28: The restart cap holds for a service that keeps its handle: any number of graph restarts
  that all succeed and register the same handle again stays within \<open>MAX_RESTARTS\<close>, counting the
  restarts the record already has.
\<close>

theorem restart_cap_same_handle:
  assumes "restart_rounds reserve (map (Pair h) ts) s = Some s'" "holds_record s h r"
    "unat (sr_restarts r) \<le> 3"
  shows "unat (sr_restarts r) + length ts \<le> 3"
  using assms
proof (induction ts arbitrary: s r)
  case (Cons t ts)
  then obtain s1 where s1: "restart_round reserve h t s = Some s1"
    and rest: "restart_rounds reserve (map (Pair h) ts) s1 = Some s'"
    by (auto simp: bind_eq_Some_conv)
  then show ?case using restart_round_same_handle [OF s1 Cons.prems(2)] Cons.IH [OF rest] by fastforce
qed simp

theorem restart_cap_same_handle_witness:
  "unat (sr_restarts demo_record) + length [7, 9 :: u64] \<le> 3"
proof -
  obtain s' where "restart_rounds (\<lambda>_. True) (map (Pair (Handle 0x100000000)) [7, 9]) demo_supervisor = Some s'"
    by (simp add: restart_round_def ls_prepare_restart_def ls_retain_slots_def ls_register_def ls_ensure_def
        demo_supervisor_def demo_record_def record_restarted_def Let_def word_le_nat_alt)
  moreover have "holds_record demo_supervisor (Handle 0x100000000) demo_record" "unat (sr_restarts demo_record) \<le> 3"
    by (simp_all add: holds_record_def demo_supervisor_def demo_record_def)
  ultimately show ?thesis by (rule restart_cap_same_handle)
qed

text \<open>
  C29: The cap does not hold across restarts of the graph, in which the registry gives the service
  a new generation: whenever consecutive handles of one slot differ, every one of the restarts
  succeeds, however many there are.
\<close>

theorem restart_cap_lost_with_new_handles:
  assumes "ls_register reserve live_supervisor_new h now = (True, s)" "distinct_adj (h # map fst rounds)"
    "\<forall>x \<in> set rounds. handle_is_valid (fst x) \<and> slot_index (fst x) = slot_index h"
  shows "\<exists>s'. restart_rounds reserve rounds s = Some s'"
proof -
  have "sole_fresh s g \<Longrightarrow> slot_index g = slot_index h \<Longrightarrow> distinct_adj (g # map fst rounds) \<Longrightarrow>
    \<exists>s'. restart_rounds reserve rounds s = Some s'" for g
    using assms(3)
  proof (induction rounds arbitrary: s g)
    case (Cons x xs)
    obtain s1 where "restart_round reserve (fst x) (snd x) s = Some s1" "sole_fresh s1 (fst x)"
      using restart_round_new_handle [of s g "fst x" reserve "snd x"] Cons.prems by auto
    then show ?case using Cons.IH [of s1 "fst x"] Cons.prems by simp
  qed simp
  then show ?thesis using register_new_sole_fresh [OF assms(1)] assms(2) by blast
qed

theorem restart_cap_lost_with_new_handles_witness:
  "\<exists>s'. restart_rounds (\<lambda>_. True)
     [(Handle 0x200000000, 10), (Handle 0x300000000, 20), (Handle 0x400000000, 30),
      (Handle 0x500000000, 40), (Handle 0x600000000, 50)]
     (snd (ls_register (\<lambda>_. True) live_supervisor_new (Handle 0x100000000) 1)) = Some s'"
proof (rule restart_cap_lost_with_new_handles)
  show "ls_register (\<lambda>_. True) live_supervisor_new (Handle 0x100000000) 1
      = (True, snd (ls_register (\<lambda>_. True) live_supervisor_new (Handle 0x100000000) 1))"
    by (simp add: ls_register_def ls_ensure_def live_supervisor_new_def Let_def)
qed simp_all

end
