(* ===== verification/Package_IPC.thy ===== *)
theory Package_IPC
  imports Runtime_ABI
begin

text \<open>
  The package lookup and read protocol between Core and Storage, \<open>abi/src/package_ipc.rs\<close>:
  package targets, requests and responses with their validation. Slicing a name at \<open>name_len\<close>
  panics beyond the array, so the validators that slice return \<open>'e fault\<close>; the theory shows
  that they never panic, that a constructed request passes validation, and what an accepted
  request and response guarantee to the reader of a package.
\<close>

section \<open>Service identities\<close>

datatype service_id =
    SidInput | SidDisplay | SidTerminal | SidSession | SidFlow | SidStorage | SidNetwork | SidFetch
  | SidDevice | SidUser | SidShell | SidLockScreen | SidAtrium | SidSystem

fun service_id_raw :: "service_id \<Rightarrow> u8" where
  "service_id_raw SidInput = 1"
| "service_id_raw SidDisplay = 2"
| "service_id_raw SidTerminal = 3"
| "service_id_raw SidSession = 4"
| "service_id_raw SidFlow = 5"
| "service_id_raw SidStorage = 6"
| "service_id_raw SidNetwork = 7"
| "service_id_raw SidFetch = 8"
| "service_id_raw SidDevice = 9"
| "service_id_raw SidUser = 10"
| "service_id_raw SidShell = 11"
| "service_id_raw SidLockScreen = 12"
| "service_id_raw SidAtrium = 13"
| "service_id_raw SidSystem = 14"

fun service_id_index :: "service_id \<Rightarrow> nat" where
  "service_id_index SidInput = 0"
| "service_id_index SidDisplay = 1"
| "service_id_index SidTerminal = 2"
| "service_id_index SidSession = 3"
| "service_id_index SidFlow = 4"
| "service_id_index SidStorage = 5"
| "service_id_index SidNetwork = 6"
| "service_id_index SidFetch = 7"
| "service_id_index SidDevice = 8"
| "service_id_index SidUser = 9"
| "service_id_index SidShell = 10"
| "service_id_index SidLockScreen = 11"
| "service_id_index SidAtrium = 12"
| "service_id_index SidSystem = 13"

definition service_id_from_index :: "nat \<Rightarrow> service_id option" where
  "service_id_from_index i = slice_get
     [SidInput, SidDisplay, SidTerminal, SidSession, SidFlow, SidStorage, SidNetwork, SidFetch,
      SidDevice, SidUser, SidShell, SidLockScreen, SidAtrium, SidSystem] i"

lemma service_id_from_index_index [simp]: "service_id_from_index (service_id_index s) = Some s"
  by (cases s) (simp_all add: service_id_from_index_def)

lemma service_id_raw_index: "unat (service_id_raw s) = Suc (service_id_index s)"
  by (cases s) simp_all

lemma service_id_raw_nonzero [simp]: "service_id_raw s \<noteq> 0"
  by (cases s) simp_all

section \<open>Targets\<close>

abbreviation PACKAGE_TRANSFER_BYTES :: nat where "PACKAGE_TRANSFER_BYTES \<equiv> IPC_PAGE_BYTES"
abbreviation MAX_PACKAGE_NAME_BYTES :: nat where "MAX_PACKAGE_NAME_BYTES \<equiv> 32"
abbreviation MIN_PACKAGE_HEADER_BYTES :: nat where "MIN_PACKAGE_HEADER_BYTES \<equiv> 32"
abbreviation PACKAGE_HEADER_BYTES :: nat where "PACKAGE_HEADER_BYTES \<equiv> 404"
abbreviation MAX_SERVICE_IMAGE_BYTES :: nat where "MAX_SERVICE_IMAGE_BYTES \<equiv> 2048 * 1024"
abbreviation MAX_PACKAGE_BYTES :: nat where
  "MAX_PACKAGE_BYTES \<equiv> PACKAGE_HEADER_BYTES + MAX_SERVICE_IMAGE_BYTES"

datatype package_target_kind = PtService | PtProgram | PtNamedService

definition package_target_kind_from_raw :: "u8 \<Rightarrow> package_target_kind option" where
  "package_target_kind_from_raw r =
     (if r = 1 then Some PtService else if r = 2 then Some PtProgram
      else if r = 3 then Some PtNamedService else None)"

record package_target =
  ptg_kind :: package_target_kind
  ptg_service :: u8
  ptg_name_len :: u8
  ptg_reserved :: u8
  ptg_name :: "u8 list"

definition package_target_empty :: package_target where
  "package_target_empty = \<lparr>ptg_kind = PtService, ptg_service = 0, ptg_name_len = 0, ptg_reserved = 0,
     ptg_name = replicate MAX_PACKAGE_NAME_BYTES 0\<rparr>"

definition package_target_service :: "service_id \<Rightarrow> package_target" where
  "package_target_service s = package_target_empty\<lparr>ptg_kind := PtService, ptg_service := service_id_raw s\<rparr>"

text \<open>The bytes \<open>b'a'..=b'z' | b'0'..=b'9' | b'-'\<close>.\<close>

definition package_name_byte :: "u8 \<Rightarrow> bool" where
  "package_name_byte b \<longleftrightarrow> 97 \<le> b \<and> b \<le> 122 \<or> 48 \<le> b \<and> b \<le> 57 \<or> b = 45"

definition package_target_program :: "u8 list \<Rightarrow> package_target option" where
  "package_target_program name =
     (if name = [] \<or> length name > MAX_PACKAGE_NAME_BYTES \<or> hd name = 45 \<or> last name = 45
         \<or> list_ex (\<lambda>b. \<not> package_name_byte b) name
      then None
      else Some \<lparr>ptg_kind = PtProgram, ptg_service = 0, ptg_name_len = of_nat (length name),
        ptg_reserved = 0, ptg_name = name @ replicate (MAX_PACKAGE_NAME_BYTES - length name) 0\<rparr>)"

definition package_target_named_service :: "u8 list \<Rightarrow> package_target option" where
  "package_target_named_service name =
     map_option (\<lambda>t. t\<lparr>ptg_kind := PtNamedService\<rparr>) (package_target_program name)"

section \<open>Validation of targets\<close>

datatype package_status =
  PkOk | PkInvalid | PkIo | PkNotFound | PkStale | PkUnsupported | PkFull

definition package_status_from_raw :: "u8 \<Rightarrow> package_status option" where
  "package_status_from_raw r =
     slice_get [PkOk, PkInvalid, PkIo, PkNotFound, PkStale, PkUnsupported, PkFull] (unat r)"

fun package_status_raw :: "package_status \<Rightarrow> u8" where
  "package_status_raw PkOk = 0"
| "package_status_raw PkInvalid = 1"
| "package_status_raw PkIo = 2"
| "package_status_raw PkNotFound = 3"
| "package_status_raw PkStale = 4"
| "package_status_raw PkUnsupported = 5"
| "package_status_raw PkFull = 6"

type_synonym 'a package_result = "package_status fault + 'a"

abbreviation invalid :: "'a package_result" where "invalid \<equiv> Err (Failed PkInvalid)"

text \<open>\<open>self.name[self.name_len as usize..].iter().any(|byte| *byte != 0)\<close>.\<close>

definition package_tail_dirty :: "package_target \<Rightarrow> bool package_result" where
  "package_tail_dirty t = result_bind (slice_range (ptg_name t) (unat (ptg_name_len t)) (length (ptg_name t)))
     (\<lambda>tail. Ok (list_ex (\<lambda>b. b \<noteq> 0) tail))"

definition package_target_validate :: "package_target \<Rightarrow> unit package_result" where
  "package_target_validate t =
     (if ptg_reserved t \<noteq> 0 \<or> unat (ptg_name_len t) > MAX_PACKAGE_NAME_BYTES then invalid
      else case ptg_kind t of
        PtService \<Rightarrow>
          if service_id_from_index (unat (saturating_sub (ptg_service t) 1)) = None
             \<or> ptg_name_len t \<noteq> 0 \<or> list_ex (\<lambda>b. b \<noteq> 0) (ptg_name t)
          then invalid else Ok ()
      | PtProgram \<Rightarrow>
          if ptg_service t \<noteq> 0 \<or> ptg_name_len t = 0 then invalid
          else result_bind (package_tail_dirty t) (\<lambda>dirty. if dirty then invalid else Ok ())
      | PtNamedService \<Rightarrow>
          if ptg_service t \<noteq> 0 \<or> ptg_name_len t = 0 then invalid
          else result_bind (package_tail_dirty t) (\<lambda>dirty.
            if dirty then invalid
            else result_bind (slice_range (ptg_name t) 0 (unat (ptg_name_len t))) (\<lambda>name.
              if package_target_program name = None then invalid else Ok ())))"

section \<open>Requests\<close>

datatype package_operation = PkLookup | PkRead

definition package_operation_from_raw :: "u8 \<Rightarrow> package_operation option" where
  "package_operation_from_raw r = (if r = 1 then Some PkLookup else if r = 2 then Some PkRead else None)"

record package_request =
  prq_operation :: package_operation
  prq_flags :: u8
  prq_target :: package_target
  prq_request_id :: u32
  prq_generation :: u16
  prq_capability :: capability_handle
  prq_service_epoch :: u64
  prq_package_generation :: u32
  prq_offset :: u32
  prq_length :: u16
  prq_reserved2 :: u16

text \<open>The operation and its window, the \<open>match\<close> that \<open>new\<close> and \<open>validate_target\<close> share.\<close>

fun package_window_valid :: "package_operation \<Rightarrow> u32 \<Rightarrow> u32 \<Rightarrow> u16 \<Rightarrow> bool" where
  "package_window_valid PkLookup package_generation offset len =
     (package_generation = 0 \<and> offset = 0 \<and> len = 0)"
| "package_window_valid PkRead package_generation offset len =
     (package_generation \<noteq> 0 \<and> unat len \<le> PACKAGE_TRANSFER_BYTES \<and> len \<noteq> 0
      \<and> checked_add offset (ucast len) \<noteq> None)"

definition package_request_new ::
    "package_operation \<Rightarrow> service_id \<Rightarrow> u32 \<Rightarrow> u16 \<Rightarrow> capability_handle \<Rightarrow> u64 \<Rightarrow> u32 \<Rightarrow> u32 \<Rightarrow> u16
      \<Rightarrow> package_request option" where
  "package_request_new operation service request_id generation capability service_epoch
     package_generation offset len =
     (if request_id = 0 \<or> generation = 0 \<or> service_epoch = 0 then None
      else if \<not> package_window_valid operation package_generation offset len then None
      else Some \<lparr>prq_operation = operation, prq_flags = 0, prq_target = package_target_service service,
        prq_request_id = request_id, prq_generation = generation, prq_capability = capability,
        prq_service_epoch = service_epoch, prq_package_generation = package_generation,
        prq_offset = offset, prq_length = len, prq_reserved2 = 0\<rparr>)"

definition package_request_new_program ::
    "package_operation \<Rightarrow> u8 list \<Rightarrow> u32 \<Rightarrow> u16 \<Rightarrow> capability_handle \<Rightarrow> u64 \<Rightarrow> u32 \<Rightarrow> u32 \<Rightarrow> u16
      \<Rightarrow> package_request option" where
  "package_request_new_program operation name request_id generation capability service_epoch
     package_generation offset len =
     Option.bind (package_request_new operation SidStorage request_id generation capability
         service_epoch package_generation offset len) (\<lambda>request.
       Option.bind (package_target_program name) (\<lambda>target. Some (request\<lparr>prq_target := target\<rparr>)))"

definition package_request_new_named_service ::
    "package_operation \<Rightarrow> u8 list \<Rightarrow> u32 \<Rightarrow> u16 \<Rightarrow> capability_handle \<Rightarrow> u64 \<Rightarrow> u32 \<Rightarrow> u32 \<Rightarrow> u16
      \<Rightarrow> package_request option" where
  "package_request_new_named_service operation name request_id generation capability service_epoch
     package_generation offset len =
     Option.bind (package_request_new operation SidStorage request_id generation capability
         service_epoch package_generation offset len) (\<lambda>request.
       Option.bind (package_target_named_service name) (\<lambda>target. Some (request\<lparr>prq_target := target\<rparr>)))"

definition package_request_validate_target ::
    "package_request \<Rightarrow> capability_handle \<Rightarrow> u16 \<Rightarrow> u64 \<Rightarrow> package_target package_result" where
  "package_request_validate_target r capability generation service_epoch =
     (if prq_capability r \<noteq> capability then invalid
      else if prq_generation r \<noteq> generation \<or> prq_service_epoch r \<noteq> service_epoch
      then Err (Failed PkStale)
      else if prq_flags r \<noteq> 0 \<or> prq_reserved2 r \<noteq> 0 \<or> prq_request_id r = 0 then invalid
      else if \<not> package_window_valid (prq_operation r) (prq_package_generation r) (prq_offset r) (prq_length r)
      then invalid
      else result_bind (package_target_validate (prq_target r)) (\<lambda>_. Ok (prq_target r)))"

definition package_request_validate ::
    "package_request \<Rightarrow> capability_handle \<Rightarrow> u16 \<Rightarrow> u64 \<Rightarrow> service_id package_result" where
  "package_request_validate r capability generation service_epoch =
     result_bind (package_request_validate_target r capability generation service_epoch) (\<lambda>target.
       case ptg_kind target of
         PtService \<Rightarrow>
           ok_or (service_id_from_index (unat (saturating_sub (ptg_service target) 1))) (Failed PkInvalid)
       | PtProgram \<Rightarrow> Err (Failed PkUnsupported)
       | PtNamedService \<Rightarrow> Err (Failed PkUnsupported))"

section \<open>Responses\<close>

record package_response =
  prp_operation :: package_operation
  prp_status :: package_status
  prp_target :: package_target
  prp_request_id :: u32
  prp_generation :: u16
  prp_reserved2 :: u16
  prp_service_epoch :: u64
  prp_package_generation :: u32
  prp_offset :: u32
  prp_bytes :: u16
  prp_reserved3 :: u16
  prp_package_bytes :: u32
  prp_package_version :: u32
  prp_payload_crc32c :: u32

definition package_response_new :: "package_request \<Rightarrow> package_status \<Rightarrow> package_response" where
  "package_response_new r status =
     \<lparr>prp_operation = prq_operation r, prp_status = status, prp_target = prq_target r,
      prp_request_id = prq_request_id r, prp_generation = prq_generation r, prp_reserved2 = 0,
      prp_service_epoch = prq_service_epoch r, prp_package_generation = prq_package_generation r,
      prp_offset = prq_offset r, prp_bytes = 0, prp_reserved3 = 0, prp_package_bytes = 0,
      prp_package_version = 0, prp_payload_crc32c = 0\<rparr>"

definition package_response_with_package ::
    "package_response \<Rightarrow> u32 \<Rightarrow> u32 \<Rightarrow> u32 \<Rightarrow> u32 \<Rightarrow> package_response" where
  "package_response_with_package r package_generation package_bytes package_version payload_crc32c =
     r\<lparr>prp_package_generation := package_generation, prp_package_bytes := package_bytes,
       prp_package_version := package_version, prp_payload_crc32c := payload_crc32c\<rparr>"

definition package_response_with_bytes :: "package_response \<Rightarrow> u16 \<Rightarrow> package_response" where
  "package_response_with_bytes r bytes = r\<lparr>prp_bytes := bytes\<rparr>"

definition package_response_validate_for ::
    "package_response \<Rightarrow> package_request \<Rightarrow> u16 \<Rightarrow> u64 \<Rightarrow> package_status + unit" where
  "package_response_validate_for r request generation service_epoch =
     (if prp_operation r \<noteq> prq_operation request \<or> prp_request_id r \<noteq> prq_request_id request
         \<or> prp_generation r \<noteq> generation \<or> prp_service_epoch r \<noteq> service_epoch
         \<or> prp_target r \<noteq> prq_target request \<or> prp_reserved2 r \<noteq> 0 \<or> prp_reserved3 r \<noteq> 0
         \<or> package_status_from_raw (package_status_raw (prp_status r)) = None
         \<or> unat (prp_bytes r) > unat (prq_length request)
      then Err PkInvalid
      else if prp_status r = PkOk then
        (case prq_operation request of
           PkLookup \<Rightarrow>
             if prp_package_generation r = 0 \<or> prp_package_bytes r < of_nat MIN_PACKAGE_HEADER_BYTES
                \<or> unat (prp_package_bytes r) > MAX_PACKAGE_BYTES \<or> prp_offset r \<noteq> 0 \<or> prp_bytes r \<noteq> 0
             then Err PkInvalid else Ok ()
         | PkRead \<Rightarrow>
             if prp_package_generation r \<noteq> prq_package_generation request
                \<or> prp_offset r \<noteq> prq_offset request \<or> prp_bytes r = 0
             then Err PkInvalid else Ok ())
      else Ok ())"

text \<open>The \<open>repr(C)\<close> offsets of \<open>operation\<close>, \<open>status\<close> and \<open>target\<close> are 0, 1 and 2.\<close>

definition package_response_wire_enums_valid :: "u8 list \<Rightarrow> bool" where
  "package_response_wire_enums_valid bytes \<longleftrightarrow>
     (case slice_get bytes 0 of None \<Rightarrow> False | Some b \<Rightarrow> 1 \<le> b \<and> b \<le> 2)
     \<and> (case slice_get bytes 1 of None \<Rightarrow> False | Some b \<Rightarrow> b \<le> package_status_raw PkFull)
     \<and> (case slice_get bytes 2 of None \<Rightarrow> False | Some b \<Rightarrow> 1 \<le> b \<and> b \<le> 3)"

section \<open>Targets that validate\<close>

text \<open>The array type of the name.\<close>

definition package_target_wf :: "package_target \<Rightarrow> bool" where
  "package_target_wf t \<longleftrightarrow> length (ptg_name t) = MAX_PACKAGE_NAME_BYTES"

lemma saturating_pred_index: "unat (saturating_sub (service_id_raw s) 1) = service_id_index s"
  by (simp add: saturating_sub_unat service_id_raw_index)

lemma package_target_service_valid: "package_target_validate (package_target_service s) = Ok ()"
  by (simp add: package_target_validate_def package_target_service_def package_target_empty_def
      saturating_pred_index list_ex_iff)

lemma package_target_service_fields:
  "ptg_kind (package_target_service s) = PtService" "ptg_service (package_target_service s) = service_id_raw s"
  by (simp_all add: package_target_service_def)

lemma package_target_program_Some:
  assumes "package_target_program name = Some t"
  shows "ptg_kind t = PtProgram" "ptg_service t = 0" "ptg_reserved t = 0" "package_target_wf t"
    "unat (ptg_name_len t) = length name" "length name \<le> MAX_PACKAGE_NAME_BYTES" "name \<noteq> []"
    "ptg_name t = name @ replicate (MAX_PACKAGE_NAME_BYTES - length name) 0"
  using assms
  by (auto simp: package_target_program_def package_target_wf_def unat_of_nat_u8 split: if_splits)

lemma named_target_clean:
  assumes "ptg_name t = name @ replicate n 0" "unat (ptg_name_len t) = length name"
  shows "package_tail_dirty t = Ok False"
    and "slice_range (ptg_name t) 0 (unat (ptg_name_len t)) = (Ok name :: u8 list package_result)"
  using assms by (simp_all add: package_tail_dirty_def slice_range_def list_ex_iff)

lemma package_target_program_valid:
  assumes "package_target_program name = Some t"
  shows "package_target_validate t = Ok ()"
proof -
  note t = package_target_program_Some [OF assms]
  have "ptg_name_len t \<noteq> 0" using t(5,7) by auto
  then show ?thesis using t named_target_clean(1) [OF t(8,5)] by (simp add: package_target_validate_def)
qed

lemma package_target_named_service_valid:
  assumes "package_target_named_service name = Some t"
  shows "package_target_validate t = Ok ()" "ptg_kind t = PtNamedService"
proof -
  obtain u where u: "package_target_program name = Some u" and t: "t = u\<lparr>ptg_kind := PtNamedService\<rparr>"
    using assms by (auto simp: package_target_named_service_def)
  note pu = package_target_program_Some [OF u]
  have name: "ptg_name t = name @ replicate (MAX_PACKAGE_NAME_BYTES - length name) 0"
    "unat (ptg_name_len t) = length name" using pu t by simp_all
  have "ptg_name_len t \<noteq> 0" using pu(5,7) t by auto
  then show "package_target_validate t = Ok ()"
    using pu t u named_target_clean [OF name] by (simp add: package_target_validate_def)
  show "ptg_kind t = PtNamedService" using t by simp
qed

lemma package_target_validate_total:
  "package_target_wf t \<Longrightarrow> package_target_validate t \<noteq> Err Panicked"
  by (auto simp: package_target_wf_def package_target_validate_def package_tail_dirty_def slice_range_def
      split: package_target_kind.splits)

section \<open>Properties\<close>

text \<open>
  C34: A package request that a constructor returns is accepted by the validation of the receiver
  that holds the same capability, generation and epoch: a service request resolves to the
  service it names, and requests for programs and named services keep their target.
\<close>

theorem package_request_round_trip:
  "(package_request_new operation service request_id generation capability epoch pgen offset len = Some r
      \<longrightarrow> package_request_validate r capability generation epoch = Ok service)
   \<and> (package_request_new_program operation name request_id generation capability epoch pgen offset len = Some r
      \<longrightarrow> package_request_validate_target r capability generation epoch = Ok (prq_target r)
          \<and> package_target_program name = Some (prq_target r))
   \<and> (package_request_new_named_service operation name request_id generation capability epoch pgen offset len = Some r
      \<longrightarrow> package_request_validate_target r capability generation epoch = Ok (prq_target r)
          \<and> package_target_named_service name = Some (prq_target r))"
proof (intro conjI impI)
  assume "package_request_new operation service request_id generation capability epoch pgen offset len = Some r"
  then show "package_request_validate r capability generation epoch = Ok service"
    by (auto simp: package_request_new_def package_request_validate_def package_request_validate_target_def
        package_target_service_valid package_target_service_fields saturating_pred_index split: if_splits)
qed (auto simp: package_request_new_program_def package_request_new_named_service_def package_request_new_def
    package_request_validate_target_def bind_eq_Some_conv package_target_program_valid
    package_target_named_service_valid split: if_splits)

text \<open>A request for the Storage service, a read of one page.\<close>

definition demo_read :: package_request where
  "demo_read = \<lparr>prq_operation = PkRead, prq_flags = 0, prq_target = package_target_service SidStorage,
     prq_request_id = 1, prq_generation = 3, prq_capability = Handle 0x100000006, prq_service_epoch = 9,
     prq_package_generation = 2, prq_offset = 4096, prq_length = 4096, prq_reserved2 = 0\<rparr>"

theorem package_request_round_trip_witness:
  "package_request_validate demo_read (Handle 0x100000006) 3 9 = Ok SidStorage"
proof -
  have "package_request_new PkRead SidStorage 1 3 (Handle 0x100000006) 9 2 4096 4096 = Some demo_read"
    by (simp add: package_request_new_def checked_add_def demo_read_def)
  then show ?thesis
    using package_request_round_trip [of PkRead SidStorage 1 3 "Handle 0x100000006" 9 2 4096 4096 demo_read "[]"]
    by simp
qed

text \<open>
  C35: What the receiver may rely on. Validation of a request never panics on the array types of
  the ABI. A read that was accepted and answered with success stays inside the transfer page and
  the 32-bit package offset space, carries at least one byte, and belongs to the package
  generation, offset and target that were asked for; a successful lookup names a live
  generation and a package size between the smallest header and the largest package.
\<close>

theorem package_exchange_sound:
  assumes wf: "package_target_wf (prq_target q)"
  shows "package_request_validate q capability generation epoch \<noteq> Err Panicked
    \<and> (\<forall>t. package_request_validate_target q capability generation epoch = Ok t
        \<and> package_response_validate_for r q generation epoch = Ok () \<and> prp_status r = PkOk \<longrightarrow>
        t = prq_target q \<and> prp_target r = t \<and> prp_request_id r = prq_request_id q \<and>
        (case prq_operation q of
           PkRead \<Rightarrow> prp_bytes r \<noteq> 0 \<and> unat (prp_bytes r) \<le> unat (prq_length q)
             \<and> unat (prq_length q) \<le> PACKAGE_TRANSFER_BYTES
             \<and> unat (prp_offset r) + unat (prp_bytes r) < 2 ^ 32 \<and> prp_offset r = prq_offset q
             \<and> prp_package_generation r = prq_package_generation q \<and> prp_package_generation r \<noteq> 0
         | PkLookup \<Rightarrow> prp_bytes r = 0 \<and> prp_package_generation r \<noteq> 0
             \<and> MIN_PACKAGE_HEADER_BYTES \<le> unat (prp_package_bytes r)
             \<and> unat (prp_package_bytes r) \<le> MAX_PACKAGE_BYTES))"
proof (intro conjI allI impI; (elim conjE)?)
  show "package_request_validate q capability generation epoch \<noteq> Err Panicked"
    using package_target_validate_total [OF wf]
    by (auto simp: package_request_validate_def package_request_validate_target_def result_bind_Err ok_or_Err
        split: if_splits package_target_kind.splits)
next
  fix t
  assume q: "package_request_validate_target q capability generation epoch = Ok t"
    and r: "package_response_validate_for r q generation epoch = Ok ()" and ok: "prp_status r = PkOk"
  from q show t: "t = prq_target q"
    by (auto simp: package_request_validate_target_def result_bind_Ok split: if_splits)
  from r t show "prp_target r = t" "prp_request_id r = prq_request_id q"
    by (auto simp: package_response_validate_for_def split: if_splits)
  from q have window: "package_window_valid (prq_operation q) (prq_package_generation q) (prq_offset q) (prq_length q)"
    by (auto simp: package_request_validate_target_def split: if_splits)
  show "case prq_operation q of
      PkRead \<Rightarrow> prp_bytes r \<noteq> 0 \<and> unat (prp_bytes r) \<le> unat (prq_length q)
        \<and> unat (prq_length q) \<le> PACKAGE_TRANSFER_BYTES
        \<and> unat (prp_offset r) + unat (prp_bytes r) < 2 ^ 32 \<and> prp_offset r = prq_offset q
        \<and> prp_package_generation r = prq_package_generation q \<and> prp_package_generation r \<noteq> 0
    | PkLookup \<Rightarrow> prp_bytes r = 0 \<and> prp_package_generation r \<noteq> 0
        \<and> MIN_PACKAGE_HEADER_BYTES \<le> unat (prp_package_bytes r)
        \<and> unat (prp_package_bytes r) \<le> MAX_PACKAGE_BYTES"
    using r ok window
    by (auto simp: package_response_validate_for_def checked_add_def unat_ucast_up word_less_nat_alt
        unat_eq_zero split: if_splits package_operation.splits)
qed

theorem package_exchange_sound_witness:
  "let r = package_response_with_bytes (package_response_new demo_read PkOk) 4096
   in package_response_validate_for r demo_read 3 9 = Ok () \<and> unat (prp_offset r) + unat (prp_bytes r) < 2 ^ 32"
proof -
  let ?r = "package_response_with_bytes (package_response_new demo_read PkOk) 4096"
  have wf: "package_target_wf (prq_target demo_read)"
    by (simp add: package_target_wf_def demo_read_def package_target_service_def package_target_empty_def)
  have q: "package_request_validate_target demo_read (Handle 0x100000006) 3 9 = Ok (prq_target demo_read)"
    by (simp add: package_request_validate_target_def demo_read_def checked_add_def package_target_service_valid)
  have r: "package_response_validate_for ?r demo_read 3 9 = Ok ()"
    by (simp add: package_response_validate_for_def package_response_with_bytes_def package_response_new_def
        demo_read_def package_status_from_raw_def)
  have "prp_status ?r = PkOk" "prq_operation demo_read = PkRead"
    by (simp_all add: package_response_with_bytes_def package_response_new_def demo_read_def)
  then have "unat (prp_offset ?r) + unat (prp_bytes ?r) < 2 ^ 32"
    using package_exchange_sound [OF wf, of "Handle 0x100000006" 3 9 ?r] q r by auto
  then show ?thesis using r by (simp add: Let_def)
qed


end
