(* ===== verification/Manager_ABI.thy ===== *)
theory Manager_ABI
  imports Package_IPC
begin

text \<open>
  The wire types of the service manager, \<open>abi/src/service_manager.rs\<close>: operations, statuses,
  rights, requests, records and responses, shared by the service registry and the program
  manager.
\<close>

abbreviation MANAGER_ABI_VERSION :: u16 where "MANAGER_ABI_VERSION \<equiv> 5"

datatype manager_target_kind = MtService | MtProgram

fun manager_target_kind_raw :: "manager_target_kind \<Rightarrow> u8" where
  "manager_target_kind_raw MtService = 0"
| "manager_target_kind_raw MtProgram = 1"

definition manager_target_kind_from_raw :: "u8 \<Rightarrow> manager_target_kind option" where
  "manager_target_kind_from_raw r = (if r = 0 then Some MtService else if r = 1 then Some MtProgram else None)"

datatype manager_operation =
    MgList | MgStatus | MgStart | MgStop | MgRestart | MgProgramStart | MgProgramStatus | MgProgramStop
  | MgRegister

definition manager_operation_from_raw :: "u8 \<Rightarrow> manager_operation option" where
  "manager_operation_from_raw r =
     (if r = 0 then None
      else slice_get [MgList, MgStatus, MgStart, MgStop, MgRestart, MgProgramStart, MgProgramStatus,
             MgProgramStop, MgRegister] (unat r - 1))"

fun requires_lifecycle :: "manager_operation \<Rightarrow> bool" where
  "requires_lifecycle MgList = False"
| "requires_lifecycle MgStatus = False"
| "requires_lifecycle MgProgramStatus = False"
| "requires_lifecycle _ = True"

datatype manager_status =
    MsOk | MsAccepted | MsMalformed | MsUnauthorized | MsNotFound | MsStale | MsInvalidState
  | MsDependency | MsBusy | MsCapacity | MsUnsupported

datatype manager_state =
    MVacant | MDisabled | MStopped | MStarting | MRunning | MStopping | MFailed | MExited | MFaulted

datatype manager_rights = ManagerRights (rights_bits: u8)

abbreviation RIGHTS_NONE :: manager_rights where "RIGHTS_NONE \<equiv> ManagerRights 0"
abbreviation RIGHTS_INSPECT :: manager_rights where "RIGHTS_INSPECT \<equiv> ManagerRights 1"
abbreviation RIGHTS_LIFECYCLE :: manager_rights where "RIGHTS_LIFECYCLE \<equiv> ManagerRights 2"
abbreviation RIGHTS_ALL :: manager_rights where "RIGHTS_ALL \<equiv> ManagerRights (1 OR 2)"

definition rights_contains :: "manager_rights \<Rightarrow> manager_rights \<Rightarrow> bool" where
  "rights_contains r required \<longleftrightarrow> rights_bits r AND rights_bits required = rights_bits required"

record manager_request =
  mrq_abi_version :: u16
  mrq_operation :: manager_operation
  mrq_target_kind :: manager_target_kind
  mrq_request_id :: u32
  mrq_service :: service_handle
  mrq_cursor :: u64
  mrq_program_slot :: u8
  mrq_name_len :: u8
  mrq_reserved_tail :: "u8 list"
  mrq_program_generation :: u32
  mrq_name :: "u8 list"

definition manager_request_new :: "manager_operation \<Rightarrow> u32 \<Rightarrow> manager_request" where
  "manager_request_new operation request_id =
     \<lparr>mrq_abi_version = MANAGER_ABI_VERSION, mrq_operation = operation, mrq_target_kind = MtService,
      mrq_request_id = request_id, mrq_service = handle_empty, mrq_cursor = 0, mrq_program_slot = 255,
      mrq_name_len = 0, mrq_reserved_tail = [0, 0], mrq_program_generation = 0,
      mrq_name = replicate MAX_PACKAGE_NAME_BYTES 0\<rparr>"

text \<open>The shared tail of \<open>with_program_name\<close> and \<open>with_service_name\<close>: the name is copied over the
  front of the array.\<close>

definition manager_request_named ::
    "manager_target_kind \<Rightarrow> manager_request \<Rightarrow> u8 list \<Rightarrow> manager_request option" where
  "manager_request_named kind r name =
     (if package_target_program name = None then None
      else Some (r\<lparr>mrq_target_kind := kind, mrq_name_len := of_nat (length name),
                   mrq_name := name @ drop (length name) (mrq_name r)\<rparr>))"

definition with_program_name :: "manager_request \<Rightarrow> u8 list \<Rightarrow> manager_request option" where
  "with_program_name r name = manager_request_named MtProgram r name"

definition with_service_name :: "manager_request \<Rightarrow> u8 list \<Rightarrow> manager_request option" where
  "with_service_name r name = manager_request_named MtService r name"

definition program_target :: "manager_request \<Rightarrow> bool" where
  "program_target r \<longleftrightarrow> mrq_target_kind r = MtProgram"

text \<open>\<open>&self.name[..self.name_len as usize]\<close>, which panics beyond the array.\<close>

definition request_name :: "manager_request \<Rightarrow> 'e fault + u8 list" where
  "request_name r = slice_range (mrq_name r) 0 (unat (mrq_name_len r))"

definition request_tail :: "manager_request \<Rightarrow> 'e fault + u8 list" where
  "request_tail r = slice_range (mrq_name r) (unat (mrq_name_len r)) (length (mrq_name r))"

definition manager_request_wire_enums_valid :: "u8 list \<Rightarrow> bool" where
  "manager_request_wire_enums_valid bytes \<longleftrightarrow>
     Option.bind (slice_get bytes 2) manager_operation_from_raw \<noteq> None
     \<and> Option.bind (slice_get bytes 3) manager_target_kind_from_raw \<noteq> None"

record manager_record =
  mr_service :: service_handle
  mr_state :: manager_state
  mr_restarts :: u8
  mr_name_len :: u8
  mr_dependencies :: u16
  mr_reserved :: "u8 list"
  mr_program_slot :: u8
  mr_reserved_program :: "u8 list"
  mr_program_generation :: u32
  mr_name :: "u8 list"

definition manager_record_empty :: manager_record where
  "manager_record_empty =
     \<lparr>mr_service = handle_empty, mr_state = MVacant, mr_restarts = 0, mr_name_len = 0, mr_dependencies = 0,
      mr_reserved = [0, 0], mr_program_slot = 255, mr_reserved_program = [0, 0, 0],
      mr_program_generation = 0, mr_name = replicate MAX_PACKAGE_NAME_BYTES 0\<rparr>"

record manager_response =
  mrp_abi_version :: u16
  mrp_operation :: manager_operation
  mrp_status :: manager_status
  mrp_request_id :: u32
  mrp_cursor :: u64
  mrp_record :: manager_record

definition manager_response_new :: "manager_operation \<Rightarrow> manager_status \<Rightarrow> u32 \<Rightarrow> manager_response" where
  "manager_response_new operation status request_id =
     \<lparr>mrp_abi_version = MANAGER_ABI_VERSION, mrp_operation = operation, mrp_status = status,
      mrp_request_id = request_id, mrp_cursor = 0, mrp_record = manager_record_empty\<rparr>"

text \<open>
  \<open>is_valid_for\<close> is one conjunction evaluated from left to right. The name of a program request
  is sliced before its length is compared with the array, so the conjunction can panic.
\<close>

definition manager_response_is_valid_for :: "manager_response \<Rightarrow> manager_request \<Rightarrow> unit fault + bool" where
  "manager_response_is_valid_for r q =
     (let cursor_valid = (if mrq_operation q = MgList then True else mrp_cursor r = 0)
      in if \<not> (mrp_abi_version r = MANAGER_ABI_VERSION \<and> mrp_operation r = mrq_operation q
               \<and> mrq_request_id q \<noteq> 0 \<and> mrp_request_id r = mrq_request_id q
               \<and> manager_target_kind_from_raw (manager_target_kind_raw (mrq_target_kind q)) \<noteq> None
               \<and> mrq_reserved_tail q = [0, 0])
         then Ok False
         else result_bind
           (if mrq_target_kind q = MtService then Ok True
            else result_bind (request_name q) (\<lambda>name. Ok (package_target_program name \<noteq> None)))
           (\<lambda>named.
              if \<not> named \<or> \<not> unat (mrq_name_len q) \<le> length (mrq_name q) then Ok False
              else result_bind (request_tail q) (\<lambda>tail.
                Ok (list_all (\<lambda>b. b = 0) tail
                    \<and> mr_reserved (mrp_record r) = [0, 0]
                    \<and> mr_reserved_program (mrp_record r) = [0, 0, 0]
                    \<and> unat (mr_name_len (mrp_record r)) \<le> length (mr_name (mrp_record r))
                    \<and> cursor_valid))))"

section \<open>Lemmas\<close>

text \<open>Within the array, neither slice of the name panics.\<close>

lemma request_slices:
  assumes "unat (mrq_name_len q) \<le> length (mrq_name q)"
  shows "request_name q = Ok (take (unat (mrq_name_len q)) (mrq_name q))"
    "request_tail q = Ok (drop (unat (mrq_name_len q)) (mrq_name q))"
  using assms by (simp_all add: request_name_def request_tail_def slice_range_def)

lemma manager_request_named_slices:
  assumes "manager_request_named kind (manager_request_new operation request_id) name = Some q"
  shows "request_name q = Ok name" "request_tail q = Ok (replicate (MAX_PACKAGE_NAME_BYTES - length name) 0)"
    "package_target_program name \<noteq> None" "unat (mrq_name_len q) \<le> length (mrq_name q)"
proof -
  obtain t where t: "package_target_program name = Some t"
    using assms by (auto simp: manager_request_named_def split: if_splits)
  have len: "length name \<le> MAX_PACKAGE_NAME_BYTES" by (rule package_target_program_Some(6) [OF t])
  have q: "mrq_name_len q = of_nat (length name)"
    "mrq_name q = name @ replicate (MAX_PACKAGE_NAME_BYTES - length name) 0"
    using assms t by (auto simp: manager_request_named_def manager_request_new_def)
  have "unat (mrq_name_len q) = length name" using len by (simp add: q unat_of_nat_u8)
  then show "request_name q = Ok name" "request_tail q = Ok (replicate (MAX_PACKAGE_NAME_BYTES - length name) 0)"
    "unat (mrq_name_len q) \<le> length (mrq_name q)"
    using len by (simp_all add: request_name_def request_tail_def slice_range_def q)
  show "package_target_program name \<noteq> None" using t by simp
qed

section \<open>Properties\<close>

text \<open>
  C37: Matching a response to its request panics when the request names a program and its name
  length exceeds the array, although a later conjunct of the same check rejects such a length;
  in every other case the check returns.
\<close>

theorem response_check_panics_iff:
  "manager_response_is_valid_for r q = Err Panicked \<longleftrightarrow>
     mrp_abi_version r = MANAGER_ABI_VERSION \<and> mrp_operation r = mrq_operation q
     \<and> mrq_request_id q \<noteq> 0 \<and> mrp_request_id r = mrq_request_id q \<and> mrq_reserved_tail q = [0, 0]
     \<and> mrq_target_kind q = MtProgram \<and> length (mrq_name q) < unat (mrq_name_len q)"
proof (cases "unat (mrq_name_len q) \<le> length (mrq_name q)")
  case True
  then show ?thesis by (auto simp: manager_response_is_valid_for_def request_slices Let_def)
next
  case False
  then have "request_name q = (Err Panicked :: unit fault + u8 list)"
    by (simp add: request_name_def slice_range_def)
  with False show ?thesis
    by (cases "mrq_target_kind q")
      (auto simp: manager_response_is_valid_for_def Let_def manager_target_kind_from_raw_def)
qed

end
