(* ===== verification/Program_Manager.thy ===== *)
theory Program_Manager
  imports Generations Manager_ABI
begin

text \<open>
  The bounded program lifecycle of \<open>src/service_manager.rs\<close>: eight program slots, the manager
  request handler and the transitions that the runtime reports back. The theory shows that every
  reachable table keeps one slot per program name, that only a request with the lifecycle right
  changes it, and that the generation of a stopped run is refused afterwards.
\<close>

section \<open>Data\<close>

abbreviation MAX_PROGRAM_SLOTS :: nat where "MAX_PROGRAM_SLOTS \<equiv> 8"

datatype manager_action =
    MaNone | MaStart service_handle | MaStop service_handle | MaRestart "service_handle list"
  | MaProgramStart nat | MaProgramStop nat

record manager_decision =
  md_response :: manager_response
  md_action :: manager_action

record program_slot =
  pg_name :: "u8 list"
  pg_name_len :: u8
  pg_generation :: u32
  pg_state :: manager_state

definition program_slot_empty :: program_slot where
  "program_slot_empty = \<lparr>pg_name = replicate MAX_PACKAGE_NAME_BYTES 0, pg_name_len = 0, pg_generation = 1,
     pg_state = MVacant\<rparr>"

definition program_slot_record :: "program_slot \<Rightarrow> nat \<Rightarrow> manager_record" where
  "program_slot_record p slot =
     \<lparr>mr_service = handle_empty, mr_state = pg_state p, mr_restarts = 0, mr_name_len = pg_name_len p,
      mr_dependencies = 0, mr_reserved = [0, 0], mr_program_slot = of_nat slot,
      mr_reserved_program = [0, 0, 0], mr_program_generation = pg_generation p, mr_name = pg_name p\<rparr>"

type_synonym program_manager = "program_slot list"

definition program_manager_new :: program_manager where
  "program_manager_new = replicate MAX_PROGRAM_SLOTS program_slot_empty"

section \<open>Transitions reported by the runtime\<close>

definition pm_record :: "program_manager \<Rightarrow> nat \<Rightarrow> manager_record option" where
  "pm_record m slot =
     (if slot \<ge> length m \<or> pg_state (m ! slot) = MVacant then None
      else Some (program_slot_record (m ! slot) slot))"

definition mark_program_running :: "program_manager \<Rightarrow> nat \<Rightarrow> u32 \<Rightarrow> bool \<times> program_manager" where
  "mark_program_running m slot generation =
     (case slice_get m slot of
        None \<Rightarrow> (False, m)
      | Some p \<Rightarrow>
          if pg_generation p \<noteq> generation \<or> pg_state p \<noteq> MStarting then (False, m)
          else (True, m[slot := p\<lparr>pg_state := MRunning\<rparr>]))"

definition mark_program_stopping :: "program_manager \<Rightarrow> nat \<Rightarrow> u32 \<Rightarrow> bool \<times> program_manager" where
  "mark_program_stopping m slot generation =
     (case slice_get m slot of
        None \<Rightarrow> (False, m)
      | Some p \<Rightarrow>
          if pg_generation p \<noteq> generation \<or> pg_state p \<noteq> MRunning then (False, m)
          else (True, m[slot := p\<lparr>pg_state := MStopping\<rparr>]))"

definition mark_program_terminal ::
    "program_manager \<Rightarrow> nat \<Rightarrow> u32 \<Rightarrow> manager_state \<Rightarrow> bool \<times> program_manager" where
  "mark_program_terminal m slot generation state =
     (case slice_get m slot of
        None \<Rightarrow> (False, m)
      | Some p \<Rightarrow>
          if pg_generation p \<noteq> generation \<or> pg_state p \<notin> {MRunning, MStopping} then (False, m)
          else (True, m[slot := p\<lparr>pg_state := state\<rparr>]))"

definition mark_program_failed :: "program_manager \<Rightarrow> nat \<Rightarrow> u32 \<Rightarrow> bool \<times> program_manager" where
  "mark_program_failed m slot generation =
     (case slice_get m slot of
        None \<Rightarrow> (False, m)
      | Some p \<Rightarrow>
          if pg_generation p \<noteq> generation \<or> pg_state p \<noteq> MStarting then (False, m)
          else (True, m[slot := p\<lparr>pg_state := MFaulted\<rparr>]))"

definition mark_program_stopped :: "program_manager \<Rightarrow> nat \<Rightarrow> u32 \<Rightarrow> bool \<times> program_manager" where
  "mark_program_stopped m slot generation =
     (case slice_get m slot of
        None \<Rightarrow> (False, m)
      | Some p \<Rightarrow>
          if pg_generation p \<noteq> generation \<or> pg_state p \<notin> {MStopping, MRunning} then (False, m)
          else (True, m[slot := p\<lparr>pg_state := MStopped, pg_generation := max (pg_generation p + 1) 1\<rparr>]))"

section \<open>Requests\<close>

text \<open>
  The name of a slot, \<open>&program.name[..program.name_len as usize]\<close>: the invariant below keeps the
  length within the array. The name of a request is only read after its length was checked.
\<close>

definition slot_name :: "program_slot \<Rightarrow> u8 list" where
  "slot_name p = take (unat (pg_name_len p)) (pg_name p)"

definition checked_name :: "manager_request \<Rightarrow> u8 list" where
  "checked_name q = take (unat (mrq_name_len q)) (mrq_name q)"

definition find_program :: "program_manager \<Rightarrow> u8 list \<Rightarrow> nat option" where
  "find_program m name = position (\<lambda>p. pg_state p \<noteq> MVacant \<and> slot_name p = name) m"

definition valid_program_index :: "program_manager \<Rightarrow> manager_request \<Rightarrow> manager_status + nat" where
  "valid_program_index m q =
     (if mrq_program_slot q = 255 then ok_or (find_program m (checked_name q)) MsNotFound
      else let index = unat (mrq_program_slot q)
           in case slice_get m index of
                None \<Rightarrow> Err MsNotFound
              | Some p \<Rightarrow>
                  if pg_state p = MVacant \<or> pg_name_len p \<noteq> mrq_name_len q \<or> slot_name p \<noteq> checked_name q
                  then Err MsNotFound
                  else if pg_generation p \<noteq> mrq_program_generation q then Err MsStale
                  else Ok index)"

definition pm_request_refused :: "manager_request \<Rightarrow> manager_rights \<Rightarrow> bool" where
  "pm_request_refused q rights \<longleftrightarrow>
     mrq_abi_version q \<noteq> MANAGER_ABI_VERSION \<or> mrq_request_id q = 0
     \<or> \<not> rights_contains rights
          (if requires_lifecycle (mrq_operation q) then RIGHTS_LIFECYCLE else RIGHTS_INSPECT)
     \<or> mrq_target_kind q \<noteq> MtProgram \<or> mrq_service q \<noteq> handle_empty \<or> mrq_cursor q \<noteq> 0
     \<or> unat (mrq_name_len q) > length (mrq_name q)
     \<or> list_ex (\<lambda>b. b \<noteq> 0) (drop (unat (mrq_name_len q)) (mrq_name q))
     \<or> package_target_program (checked_name q) = None"

text \<open>The slot of a start request: the program's own slot, or a vacant one that takes its name.\<close>

definition pm_claim_slot :: "program_manager \<Rightarrow> manager_request \<Rightarrow> (nat \<times> program_manager) option" where
  "pm_claim_slot m q =
     (case find_program m (checked_name q) of
        Some slot \<Rightarrow> Some (slot, m)
      | None \<Rightarrow>
          map_option (\<lambda>slot.
              (slot, m[slot := (m ! slot)\<lparr>
                 pg_name := checked_name q @ drop (unat (mrq_name_len q)) (pg_name (m ! slot)),
                 pg_name_len := mrq_name_len q\<rparr>]))
            (position (\<lambda>p. pg_state p = MVacant) m))"

definition pm_start :: "program_manager \<Rightarrow> manager_request \<Rightarrow> manager_response \<Rightarrow> manager_decision \<times> program_manager" where
  "pm_start m q response =
     (if mrq_program_slot q \<noteq> 255 \<or> mrq_program_generation q \<noteq> 0
      then (\<lparr>md_response = response, md_action = MaNone\<rparr>, m)
      else case pm_claim_slot m q of
        None \<Rightarrow> (\<lparr>md_response = response\<lparr>mrp_status := MsCapacity\<rparr>, md_action = MaNone\<rparr>, m)
      | Some (slot, m) \<Rightarrow>
          (let p = m ! slot
           in if pg_state p \<notin> {MVacant, MStopped, MExited, MFaulted}
              then (\<lparr>md_response = response\<lparr>mrp_status := MsInvalidState\<rparr>, md_action = MaNone\<rparr>, m)
              else
                (let p = (if pg_state p \<in> {MExited, MFaulted}
                          then p\<lparr>pg_generation := max (pg_generation p + 1) 1\<rparr> else p);
                     p = p\<lparr>pg_state := MStarting\<rparr>
                 in (\<lparr>md_response = response\<lparr>mrp_status := MsAccepted, mrp_record := program_slot_record p slot\<rparr>,
                      md_action = MaProgramStart slot\<rparr>, m[slot := p]))))"

definition pm_status :: "program_manager \<Rightarrow> manager_request \<Rightarrow> manager_response \<Rightarrow> manager_decision" where
  "pm_status m q response =
     (case valid_program_index m q of
        Inl status \<Rightarrow> \<lparr>md_response = response\<lparr>mrp_status := status\<rparr>, md_action = MaNone\<rparr>
      | Inr index \<Rightarrow> \<lparr>md_response = response\<lparr>mrp_status := MsOk, mrp_record := program_slot_record (m ! index) index\<rparr>,
                     md_action = MaNone\<rparr>)"

definition pm_stop :: "program_manager \<Rightarrow> manager_request \<Rightarrow> manager_response \<Rightarrow> manager_decision \<times> program_manager" where
  "pm_stop m q response =
     (case valid_program_index m q of
        Inl status \<Rightarrow> (\<lparr>md_response = response\<lparr>mrp_status := status\<rparr>, md_action = MaNone\<rparr>, m)
      | Inr index \<Rightarrow>
          if pg_state (m ! index) \<noteq> MRunning
          then (\<lparr>md_response = response\<lparr>mrp_status := MsInvalidState\<rparr>, md_action = MaNone\<rparr>, m)
          else
            (let p = (m ! index)\<lparr>pg_state := MStopping\<rparr>
             in (\<lparr>md_response = response\<lparr>mrp_status := MsAccepted, mrp_record := program_slot_record p index\<rparr>,
                  md_action = MaProgramStop index\<rparr>, m[index := p])))"

definition pm_request ::
    "program_manager \<Rightarrow> manager_request \<Rightarrow> manager_rights \<Rightarrow> manager_decision \<times> program_manager" where
  "pm_request m q rights =
     (let response = manager_response_new (mrq_operation q) MsMalformed (mrq_request_id q)
      in if pm_request_refused q rights
         then (\<lparr>md_response = response\<lparr>mrp_status :=
                  (if mrq_abi_version q = MANAGER_ABI_VERSION \<and> mrq_request_id q \<noteq> 0
                      \<and> rights_contains rights RIGHTS_INSPECT
                   then MsMalformed else MsUnauthorized)\<rparr>, md_action = MaNone\<rparr>, m)
         else case mrq_operation q of
           MgProgramStart \<Rightarrow> pm_start m q response
         | MgProgramStatus \<Rightarrow> (pm_status m q response, m)
         | MgProgramStop \<Rightarrow> pm_stop m q response
         | _ \<Rightarrow> (\<lparr>md_response = response\<lparr>mrp_status := MsMalformed\<rparr>, md_action = MaNone\<rparr>, m))"

section \<open>The invariant\<close>

text \<open>Names stay inside their array, generations are non-zero, and no two slots hold one program.\<close>

definition program_slot_ok :: "program_slot \<Rightarrow> bool" where
  "program_slot_ok p \<longleftrightarrow> length (pg_name p) = MAX_PACKAGE_NAME_BYTES
     \<and> unat (pg_name_len p) \<le> MAX_PACKAGE_NAME_BYTES \<and> pg_generation p \<noteq> 0"

definition pm_inv :: "program_manager \<Rightarrow> bool" where
  "pm_inv m \<longleftrightarrow> length m = MAX_PROGRAM_SLOTS \<and> (\<forall>p \<in> set m. program_slot_ok p)
     \<and> (\<forall>i < length m. \<forall>j < length m. i \<noteq> j \<longrightarrow> pg_state (m ! i) \<noteq> MVacant \<longrightarrow> pg_state (m ! j) \<noteq> MVacant
          \<longrightarrow> slot_name (m ! i) \<noteq> slot_name (m ! j))"

lemma pm_inv_new: "pm_inv program_manager_new"
  by (simp add: pm_inv_def program_manager_new_def program_slot_ok_def program_slot_empty_def)

text \<open>The ways in which one slot changes, which is all that any operation does.\<close>

definition slot_change :: "program_manager \<Rightarrow> nat \<Rightarrow> program_slot \<Rightarrow> bool" where
  "slot_change m i p \<longleftrightarrow> i < length m \<and> pg_state p \<noteq> MVacant
     \<and> length (pg_name p) = length (pg_name (m ! i))
     \<and> (slot_name p = slot_name (m ! i) \<and> pg_name_len p = pg_name_len (m ! i) \<and> pg_state (m ! i) \<noteq> MVacant
        \<or> find_program m (slot_name p) = None \<and> unat (pg_name_len p) \<le> length (pg_name p))
     \<and> (pg_generation p = pg_generation (m ! i) \<and> (pg_state p = MStopped \<longrightarrow> pg_state (m ! i) = MStopped)
        \<or> pg_generation p = wrapping_next (pg_generation (m ! i)))"

definition pm_moves :: "program_manager \<Rightarrow> program_manager \<Rightarrow> bool" where
  "pm_moves m m' \<longleftrightarrow> m' = m \<or> (\<exists>i p. slot_change m i p \<and> m' = m[i := p])"

lemma find_program_None:
  "find_program m name = None \<longleftrightarrow> (\<forall>i < length m. pg_state (m ! i) \<noteq> MVacant \<longrightarrow> slot_name (m ! i) \<noteq> name)"
  unfolding find_program_def position_None all_set_conv_all_nth by blast

lemma find_program_Some:
  "find_program m name = Some i \<Longrightarrow> i < length m \<and> pg_state (m ! i) \<noteq> MVacant \<and> slot_name (m ! i) = name"
  by (auto simp: find_program_def dest: position_SomeD)

lemma slot_change_clash:
  assumes "pm_inv m" "slot_change m i p" "j < length m" "j \<noteq> i" "pg_state (m ! j) \<noteq> MVacant"
  shows "slot_name (m ! j) \<noteq> slot_name p"
  using assms unfolding slot_change_def find_program_None pm_inv_def by metis

lemma pm_inv_moves:
  assumes "pm_moves m m'" "pm_inv m"
  shows "pm_inv m'"
proof (cases "m' = m")
  case False
  then obtain i p where p: "slot_change m i p" and m': "m' = m[i := p]"
    using assms(1) by (auto simp: pm_moves_def)
  have old: "program_slot_ok (m ! i)" using p assms(2) by (simp add: slot_change_def pm_inv_def)
  then have "program_slot_ok p"
    using p unfolding slot_change_def program_slot_ok_def by (metis wrapping_next_nonzero)
  then have "\<forall>q \<in> set m'. program_slot_ok q"
    using assms(2) unfolding m' by (intro all_set_update) (simp_all add: pm_inv_def)
  moreover have "slot_name (m' ! j) \<noteq> slot_name (m' ! k)"
    if "j < length m" "k < length m" "j \<noteq> k" "pg_state (m' ! j) \<noteq> MVacant" "pg_state (m' ! k) \<noteq> MVacant" for j k
  proof -
    note clash = slot_change_clash [OF assms(2) p]
    consider "j = i" | "k = i" | "j \<noteq> i" "k \<noteq> i" by blast
    then show ?thesis
    proof cases
      case 1
      then show ?thesis using clash [of k] that p unfolding m' slot_change_def by auto
    next
      case 2
      then show ?thesis using clash [of j] that p unfolding m' slot_change_def by auto
    next
      case 3
      then show ?thesis using that assms(2) unfolding m' pm_inv_def by simp
    qed
  qed
  ultimately show ?thesis using assms(2) by (simp add: pm_inv_def m')
qed (use assms in simp)

section \<open>Every operation is such a change\<close>

lemma slot_change_moves: "slot_change m i p \<Longrightarrow> pm_moves m (m[i := p])"
  by (auto simp: pm_moves_def)

lemma state_change:
  assumes "i < length m" "pg_state (m ! i) \<noteq> MVacant" "st \<notin> {MVacant, MStopped}"
  shows "pm_moves m (m[i := (m ! i)\<lparr>pg_state := st\<rparr>])"
  using assms by (intro slot_change_moves) (auto simp: slot_change_def slot_name_def)

lemma stop_change:
  assumes "i < length m" "pg_state (m ! i) \<noteq> MVacant"
  shows "pm_moves m (m[i := (m ! i)\<lparr>pg_state := MStopped, pg_generation := wrapping_next (pg_generation (m ! i))\<rparr>])"
  using assms by (intro slot_change_moves) (auto simp: slot_change_def slot_name_def)

lemma pm_moves_refl [simp]: "pm_moves m m"
  by (simp add: pm_moves_def)

lemma marks_move [invariant_intros]:
  "pm_moves m (snd (mark_program_running m slot g))"
  "pm_moves m (snd (mark_program_stopping m slot g))"
  "st \<in> {MExited, MFaulted} \<Longrightarrow> pm_moves m (snd (mark_program_terminal m slot g st))"
  "pm_moves m (snd (mark_program_failed m slot g))"
  "pm_moves m (snd (mark_program_stopped m slot g))"
  by (auto simp: mark_program_running_def mark_program_stopping_def mark_program_terminal_def
      mark_program_failed_def mark_program_stopped_def max_wrapping_next
      intro: state_change stop_change split: option.splits)

lemma valid_program_index_Ok:
  "valid_program_index m q = Ok i \<Longrightarrow> i < length m \<and> pg_state (m ! i) \<noteq> MVacant"
  by (auto simp: valid_program_index_def Let_def ok_or_Ok dest: find_program_Some
      split: if_splits option.splits)

lemma pm_stop_moves: "pm_moves m (snd (pm_stop m q response))"
  using valid_program_index_Ok [of m q]
  by (auto simp: pm_stop_def Let_def intro: state_change split: sum.splits)

lemma checked_name_length:
  assumes "\<not> pm_request_refused q rights"
  shows "length (checked_name q) = unat (mrq_name_len q)" "unat (mrq_name_len q) \<le> MAX_PACKAGE_NAME_BYTES"
proof -
  obtain t where "package_target_program (checked_name q) = Some t" and "unat (mrq_name_len q) \<le> length (mrq_name q)"
    using assms by (auto simp: pm_request_refused_def)
  then show "length (checked_name q) = unat (mrq_name_len q)" "unat (mrq_name_len q) \<le> MAX_PACKAGE_NAME_BYTES"
    using package_target_program_Some(6) [of "checked_name q" t] by (simp_all add: checked_name_def)
qed

text \<open>
  The slot a start claims: the slot that already holds the name, or a vacant one renamed.
\<close>

lemma pm_claim_slot_Some:
  assumes claim: "pm_claim_slot m q = Some (slot, m1)" and ok: "\<not> pm_request_refused q rights" and inv: "pm_inv m"
  shows "\<exists>p. slot < length m \<and> m1 = m[slot := p] \<and> slot_name p = checked_name q
    \<and> pg_state p = pg_state (m ! slot) \<and> pg_generation p = pg_generation (m ! slot)
    \<and> length (pg_name p) = length (pg_name (m ! slot))
    \<and> (p = m ! slot \<and> pg_state p \<noteq> MVacant
       \<or> find_program m (checked_name q) = None \<and> pg_state p = MVacant \<and> unat (pg_name_len p) \<le> length (pg_name p))"
proof (cases "find_program m (checked_name q)")
  case (Some i)
  then show ?thesis using claim find_program_Some [OF Some]
    by (intro exI [of _ "m ! slot"]) (auto simp: pm_claim_slot_def)
next
  case None
  then have pos: "position (\<lambda>p. pg_state p = MVacant) m = Some slot" and m1: "m1 = m[slot := (m ! slot)\<lparr>
      pg_name := checked_name q @ drop (unat (mrq_name_len q)) (pg_name (m ! slot)), pg_name_len := mrq_name_len q\<rparr>]"
    using claim by (auto simp: pm_claim_slot_def)
  have slot: "slot < length m" "pg_state (m ! slot) = MVacant" using position_SomeD [OF pos] by auto
  then have "length (pg_name (m ! slot)) = MAX_PACKAGE_NAME_BYTES" using inv by (simp add: pm_inv_def program_slot_ok_def)
  then show ?thesis
    using slot None checked_name_length [OF ok]
    by (intro exI [of _ "(m ! slot)\<lparr>pg_name := checked_name q @ drop (unat (mrq_name_len q)) (pg_name (m ! slot)),
          pg_name_len := mrq_name_len q\<rparr>"]) (simp add: m1 slot_name_def)
qed

lemma pm_start_moves:
  assumes ok: "\<not> pm_request_refused q rights" and inv: "pm_inv m"
  shows "pm_moves m (snd (pm_start m q response))"
proof (cases "pm_claim_slot m q")
  case None
  then show ?thesis by (simp add: pm_start_def)
next
  case (Some claimed)
  obtain slot m1 where claimed: "claimed = (slot, m1)" by (cases claimed)
  from pm_claim_slot_Some [OF Some [unfolded claimed] ok inv] obtain p where
    p: "slot < length m" "m1 = m[slot := p]" "slot_name p = checked_name q"
      "pg_state p = pg_state (m ! slot)" "pg_generation p = pg_generation (m ! slot)"
      "length (pg_name p) = length (pg_name (m ! slot))"
    and cases: "p = m ! slot \<and> pg_state p \<noteq> MVacant
       \<or> find_program m (checked_name q) = None \<and> pg_state p = MVacant \<and> unat (pg_name_len p) \<le> length (pg_name p)"
    by blast
  have started: "pm_moves m (m[slot := p\<lparr>pg_generation := g, pg_state := MStarting\<rparr>])"
    if "g = pg_generation p \<or> g = wrapping_next (pg_generation p)" for g
  proof -
    have "slot_change m slot (p\<lparr>pg_generation := g, pg_state := MStarting\<rparr>)"
      using that p cases by (auto simp: slot_change_def slot_name_def)
    then show ?thesis by (rule slot_change_moves)
  qed
  have same: "m1 = m" if "pg_state p \<notin> {MVacant, MStopped, MExited, MFaulted}"
    using that p cases by (auto simp: list_update_id)
  have "snd (pm_start m q response) \<in> {m, m1} \<and> snd (pm_start m q response) = m \<or>
      (\<exists>g. (g = pg_generation p \<or> g = wrapping_next (pg_generation p))
        \<and> snd (pm_start m q response) = m[slot := p\<lparr>pg_generation := g, pg_state := MStarting\<rparr>])"
    using same p(1,2) by (auto simp: pm_start_def Some claimed Let_def max_wrapping_next)
  then show ?thesis using started pm_moves_refl by metis
qed

lemma pm_request_moves: "pm_inv m \<Longrightarrow> pm_moves m (snd (pm_request m q rights))"
  by (auto simp: pm_request_def Let_def pm_start_moves pm_stop_moves split: manager_operation.splits)

section \<open>Runs of the manager\<close>

inductive pm_step :: "program_manager \<Rightarrow> program_manager \<Rightarrow> bool" where
  pm_requests: "pm_step m (snd (pm_request m q rights))"
| pm_running: "pm_step m (snd (mark_program_running m slot g))"
| pm_stopping: "pm_step m (snd (mark_program_stopping m slot g))"
| pm_terminal: "st \<in> {MExited, MFaulted} \<Longrightarrow> pm_step m (snd (mark_program_terminal m slot g st))"
| pm_failed: "pm_step m (snd (mark_program_failed m slot g))"
| pm_stopped: "pm_step m (snd (mark_program_stopped m slot g))"

lemma pm_step_moves: "pm_step m m' \<Longrightarrow> pm_inv m \<Longrightarrow> pm_moves m m'"
  by (induction rule: pm_step.induct) (auto intro: marks_move pm_request_moves)

lemma pm_inv_reachable: "pm_step\<^sup>*\<^sup>* program_manager_new m \<Longrightarrow> pm_inv m"
  by (induction rule: rtranclp_induct) (auto intro: pm_inv_new pm_inv_moves pm_step_moves)

definition pm_gen :: "program_manager \<Rightarrow> nat \<Rightarrow> nat" where
  "pm_gen m i = (if i < length m then unat (pg_generation (m ! i)) else 1)"

definition pm_live :: "program_manager \<Rightarrow> nat \<Rightarrow> bool" where
  "pm_live m i \<longleftrightarrow> i < length m \<and> pg_state (m ! i) \<notin> {MVacant, MStopped}"

lemma slot_change_generation:
  assumes "slot_change m i p"
  shows "pm_gen (m[i := p]) j = pm_gen m j \<and> (pm_live m j \<longrightarrow> pm_live (m[i := p]) j)
    \<or> pm_gen (m[i := p]) j = cyc_next (2 ^ 32) (pm_gen m j)"
  using assms unat_wrapping_next [of "pg_generation (m ! i)"]
  by (cases "j = i") (auto simp: slot_change_def pm_gen_def pm_live_def)

interpretation program_slots: generation_slots "2 ^ 32" pm_step pm_inv pm_gen pm_live
proof
  fix m m' :: program_manager and i
  assume inv: "pm_inv m"
  show "0 < pm_gen m i \<and> pm_gen m i < 2 ^ 32"
    using inv u32_bound [of "pg_generation (m ! i)"]
    by (auto simp: pm_gen_def pm_inv_def program_slot_ok_def unat_gt_0)
  assume "pm_step m m'"
  then have moves: "pm_moves m m'" using inv by (rule pm_step_moves)
  then show "pm_inv m'" using inv by (rule pm_inv_moves)
  have gens: "pm_gen m' i = pm_gen m i \<and> (pm_live m i \<longrightarrow> pm_live m' i) \<or> pm_gen m' i = cyc_next (2 ^ 32) (pm_gen m i)"
    using moves slot_change_generation unfolding pm_moves_def by blast
  then show "pm_gen m' i = pm_gen m i \<or> pm_gen m' i = cyc_next (2 ^ 32) (pm_gen m i)" by blast
  assume "pm_live m i" "\<not> pm_live m' i"
  then show "pm_gen m' i \<noteq> pm_gen m i" using gens cyc_next_neq [of "2 ^ 32" "pm_gen m i"] by auto
qed simp

section \<open>Properties\<close>

text \<open>
  In every reachable table the eight slots hold well-formed names and non-zero generations,
  and a program name occupies at most one slot.
\<close>

theorem one_slot_per_program:
  assumes "pm_step\<^sup>*\<^sup>* program_manager_new m" "i < length m" "j < length m"
    "pg_state (m ! i) \<noteq> MVacant" "pg_state (m ! j) \<noteq> MVacant" "slot_name (m ! i) = slot_name (m ! j)"
  shows "i = j \<and> length m = MAX_PROGRAM_SLOTS \<and> program_slot_ok (m ! i)"
proof -
  have inv: "pm_inv m" by (rule pm_inv_reachable) fact
  then have "i = j" using assms(2-) unfolding pm_inv_def by blast
  then show ?thesis using inv assms(2) by (simp add: pm_inv_def)
qed

text \<open>A start request for the program \<open>demo\<close>.\<close>

definition demo_start :: manager_request where
  "demo_start = (manager_request_new MgProgramStart 1)\<lparr>mrq_target_kind := MtProgram, mrq_name_len := 4,
     mrq_name := [100, 101, 109, 111] @ replicate 28 0\<rparr>"

definition demo_running :: program_slot where
  "demo_running = \<lparr>pg_name = [100, 101, 109, 111] @ replicate 28 0, pg_name_len = 4, pg_generation = 1,
     pg_state = MRunning\<rparr>"

definition demo_table :: program_manager where
  "demo_table = program_manager_new[0 := demo_running]"

lemma demo_start_accepted: "\<not> pm_request_refused demo_start RIGHTS_ALL"
  by (simp add: pm_request_refused_def demo_start_def manager_request_new_def rights_contains_def
      checked_name_def package_target_program_def package_name_byte_def word_le_nat_alt list_ex_iff)

lemma demo_start_result:
  "snd (pm_request program_manager_new demo_start RIGHTS_ALL) = program_manager_new[0 := demo_running\<lparr>pg_state := MStarting\<rparr>]"
proof -
  have "find_program program_manager_new (checked_name demo_start) = None"
    by (simp add: find_program_def program_manager_new_def program_slot_empty_def)
  moreover have "position (\<lambda>p. pg_state p = MVacant) program_manager_new = Some 0"
    by (simp add: program_manager_new_def position_replicate program_slot_empty_def)
  ultimately show ?thesis
    using demo_start_accepted
    by (simp add: pm_request_def Let_def pm_start_def pm_claim_slot_def demo_start_def manager_request_new_def
        program_manager_new_def program_slot_empty_def demo_running_def checked_name_def)
qed

lemma demo_table_reachable: "pm_step\<^sup>*\<^sup>* program_manager_new demo_table"
proof -
  let ?m = "program_manager_new[0 := demo_running\<lparr>pg_state := MStarting\<rparr>]"
  have "pm_step program_manager_new ?m"
    using pm_requests [of program_manager_new demo_start RIGHTS_ALL] by (simp only: demo_start_result)
  moreover have "snd (mark_program_running ?m 0 1) = demo_table"
    by (simp add: mark_program_running_def demo_table_def program_manager_new_def demo_running_def slice_get_def)
  then have "pm_step ?m demo_table" using pm_running [of ?m 0 1] by simp
  ultimately show ?thesis by (meson rtranclp.rtrancl_refl rtranclp.rtrancl_into_rtrancl)
qed

lemma demo_table_slot: "demo_table ! 0 = demo_running" "length demo_table = 8"
  by (simp_all add: demo_table_def program_manager_new_def)

theorem one_slot_per_program_witness:
  "length demo_table = MAX_PROGRAM_SLOTS \<and> program_slot_ok (demo_table ! 0)"
  using one_slot_per_program [OF demo_table_reachable, of 0 0]
  by (simp add: demo_table_slot demo_running_def)

text \<open>
  C38: Authority over programs. A request that changes the program table, or that makes the
  runtime start or stop a program, is a start or stop request whose sender holds the lifecycle
  right, and its answer is \<open>Accepted\<close>.
\<close>

theorem program_request_authority:
  assumes "pm_request m q rights = (d, m')" "pm_inv m" "m' \<noteq> m \<or> md_action d \<noteq> MaNone"
  shows "rights_contains rights RIGHTS_LIFECYCLE \<and> mrq_operation q \<in> {MgProgramStart, MgProgramStop}
    \<and> mrp_status (md_response d) = MsAccepted"
proof -
  have ok: "\<not> pm_request_refused q rights"
    using assms(1,3) by (auto simp: pm_request_def Let_def split: if_splits)
  have op: "mrq_operation q = MgProgramStart \<or> mrq_operation q = MgProgramStop"
    using assms(1,3) ok
    by (auto simp: pm_request_def Let_def pm_status_def split: manager_operation.splits sum.splits)
  then have "rights_contains rights RIGHTS_LIFECYCLE" using ok by (auto simp: pm_request_refused_def)
  moreover have "mrp_status (md_response d) = MsAccepted"
  proof (cases "mrq_operation q = MgProgramStart")
    case True
    have renamed: "pg_state (m1 ! slot) \<notin> {MVacant, MStopped, MExited, MFaulted} \<Longrightarrow> m1 = m"
      if "pm_claim_slot m q = Some (slot, m1)" for slot m1
      using pm_claim_slot_Some [OF that ok assms(2)] by auto
    show ?thesis using assms(1,3) ok True renamed
      by (auto simp: pm_request_def pm_start_def Let_def split: if_splits option.splits)
  next
    case False
    then show ?thesis using assms(1,3) ok op
      by (auto simp: pm_request_def pm_stop_def Let_def split: if_splits sum.splits)
  qed
  ultimately show ?thesis using op by blast
qed

theorem program_request_authority_witness:
  "mrp_status (md_response (fst (pm_request program_manager_new demo_start RIGHTS_ALL))) = MsAccepted"
proof -
  have "snd (pm_request program_manager_new demo_start RIGHTS_ALL) \<noteq> program_manager_new"
    unfolding demo_start_result
    by (simp add: program_manager_new_def program_slot_empty_def demo_running_def list_eq_iff_nth_eq)
      (intro exI [of _ 0]; simp)
  then show ?thesis
    using program_request_authority [of program_manager_new demo_start RIGHTS_ALL
        "fst (pm_request program_manager_new demo_start RIGHTS_ALL)" "snd (pm_request program_manager_new demo_start RIGHTS_ALL)"]
      pm_inv_new by simp
qed

text \<open>
  A stopped run stays dead. Once the runtime has reported the stop of the run with generation
  \<open>g\<close>, no request that names this slot and generation resolves and no report for it changes
  the table, until the slot was retired \<open>2 ^ 32 - 2\<close> more times.
\<close>

theorem stopped_run_stays_dead:
  assumes "pm_step\<^sup>*\<^sup>* program_manager_new m" "mark_program_stopped m slot g = (True, m')"
    "retire_run pm_step (\<lambda>m. pm_gen m slot) m' k u" "k < 2 ^ 32 - 2"
    "unat (mrq_program_slot q) = slot" "mrq_program_generation q = g"
  shows "\<not> result_is_ok (valid_program_index u q) \<and> \<not> fst (mark_program_running u slot g)
    \<and> \<not> fst (mark_program_terminal u slot g st) \<and> \<not> fst (mark_program_stopped u slot g)"
proof -
  have inv: "pm_inv m" by (rule pm_inv_reachable) fact
  have stop: "slot < length m" "pg_generation (m ! slot) = g" "pg_state (m ! slot) \<in> {MStopping, MRunning}"
    "m' = m[slot := (m ! slot)\<lparr>pg_state := MStopped, pg_generation := max (g + 1) 1\<rparr>]"
    using assms(2) by (auto simp: mark_program_stopped_def split: option.splits if_splits)
  have step: "pm_step m m'" using pm_stopped [of m slot g] assms(2) by simp
  have "pm_live m slot" "\<not> pm_live m' slot" using stop by (auto simp: pm_live_def)
  with inv step have "pm_gen u slot \<noteq> pm_gen m slot"
    using assms(3,4) by (rule program_slots.freed_handle_dead)
  moreover have "pm_inv u" using program_slots.run_wf_gen [OF assms(3)] pm_inv_moves [OF pm_step_moves [OF step inv] inv] by blast
  then have len: "length u = MAX_PROGRAM_SLOTS" "slot < length u" using stop(1) inv by (simp_all add: pm_inv_def)
  ultimately have old: "pg_generation (u ! slot) \<noteq> g" using stop(1,2) by (auto simp: pm_gen_def)
  have "unat (mrq_program_slot q) < 8" using len assms(5) by simp
  then have "mrq_program_slot q \<noteq> 255" by auto
  then have "\<not> result_is_ok (valid_program_index u q)"
    using old len assms(5,6) by (auto simp: valid_program_index_def Let_def slice_get_def)
  then show ?thesis using old len
    by (simp add: mark_program_running_def mark_program_terminal_def mark_program_stopped_def slice_get_def)
qed

theorem stopped_run_stays_dead_witness:
  "\<not> fst (mark_program_running (snd (mark_program_stopped demo_table 0 1)) 0 1)"
proof -
  let ?u = "snd (mark_program_stopped demo_table 0 1)"
  have "mark_program_stopped demo_table 0 1 = (True, ?u)"
    by (simp add: mark_program_stopped_def slice_get_def demo_table_slot demo_running_def)
  from stopped_run_stays_dead [OF demo_table_reachable this run_refl, of "demo_start\<lparr>mrq_program_slot := 0, mrq_program_generation := 1\<rparr>"]
  show ?thesis by simp
qed

end
