(* ===== verification/Service_Registry.thy ===== *)
theory Service_Registry
  imports Generations Manager_ABI
begin

text \<open>
  The table of dynamic services, \<open>src/runtime_services.rs\<close>: registration, removal, the states of a
  service, its ownership record and its generation. Dependency orders are in \<open>Service_Graph\<close>,
  the listing operations in \<open>Service_Queries\<close>. The outcome of each \<open>Vec::try_reserve\<close> is a
  parameter, indexed by the vector it grows.
\<close>

section \<open>Data\<close>

datatype reg_state = RgDisabled | RgStopped | RgStarting | RgRunning | RgStopping | RgFailed

datatype image_source = BuiltinImage | FilesystemPackage

record ownership =
  ow_runtime_slot :: "usize option"
  ow_process :: u64
  ow_address_space :: u64
  ow_task :: u64
  ow_heap_pages :: usize
  ow_heartbeat :: u64
  ow_ipc_endpoints :: usize
  ow_capabilities :: usize
  ow_events :: usize

definition ownership_empty :: ownership where
  "ownership_empty = \<lparr>ow_runtime_slot = None, ow_process = 0, ow_address_space = 0, ow_task = 0,
     ow_heap_pages = 0, ow_heartbeat = 0, ow_ipc_endpoints = 0, ow_capabilities = 0, ow_events = 0\<rparr>"

record service_entry =
  rg_handle :: service_handle
  rg_name :: "u8 list"
  rg_image :: "u8 list"
  rg_dependencies :: "service_handle list"
  rg_state :: reg_state
  rg_epoch :: u64
  rg_restarts :: u8
  rg_heap_quota_pages :: usize
  rg_manager_rights :: manager_rights
  rg_image_source :: image_source
  rg_ownership :: ownership

record reg_slot =
  rs_generation :: u32
  rs_value :: "service_entry option"

definition slot_with_generation :: "u32 \<Rightarrow> reg_slot" where
  "slot_with_generation generation = \<lparr>rs_generation = max generation 1, rs_value = None\<rparr>"

datatype reg_error =
    RgStale | RgInvalidName | RgInvalidImage | RgInvalidDependency | RgDependencyCycle | RgCapacity
  | RgRunningDependents

record registry =
  reg_slots :: "reg_slot list"
  reg_generation_seed :: u32

datatype reservation = RSlots | RName | RImage | RDependencies | RIncluded | ROrder

text \<open>
  Whether a reservation succeeds: of that many entries, or, for the vector that the closure loop
  grows one by one, at that length.
\<close>

type_synonym reserve = "reservation \<Rightarrow> nat \<Rightarrow> bool"

definition registry_new_with_generation :: "u32 \<Rightarrow> registry" where
  "registry_new_with_generation generation = \<lparr>reg_slots = [], reg_generation_seed = max generation 1\<rparr>"

definition registry_new :: registry where
  "registry_new = registry_new_with_generation 1"

definition reg_next_generation :: "u32 \<Rightarrow> u32" where
  "reg_next_generation g = max (g + 1) 1"

definition reg_next_epoch :: "u64 \<Rightarrow> u64" where
  "reg_next_epoch e = max (e + 1) 1"

section \<open>Lookup\<close>

definition reg_index :: "registry \<Rightarrow> service_handle \<Rightarrow> reg_error + nat" where
  "reg_index r h =
     (let index = unat (handle_index h)
      in case slice_get (reg_slots r) index of
           None \<Rightarrow> Err RgStale
         | Some slot \<Rightarrow>
             if rs_generation slot \<noteq> handle_generation h \<or> rs_value slot = None then Err RgStale else Ok index)"

definition reg_service :: "registry \<Rightarrow> service_handle \<Rightarrow> reg_error + service_entry" where
  "reg_service r h =
     result_bind (reg_index r h) (\<lambda>index. ok_or (rs_value (reg_slots r ! index)) RgStale)"

text \<open>\<open>service_mut\<close> followed by an assignment through the reference.\<close>

definition put_service :: "registry \<Rightarrow> nat \<Rightarrow> service_entry \<Rightarrow> registry" where
  "put_service r i s = r\<lparr>reg_slots := (reg_slots r)[i := (reg_slots r ! i)\<lparr>rs_value := Some s\<rparr>]\<rparr>"

definition service_mut ::
    "registry \<Rightarrow> service_handle \<Rightarrow> (service_entry \<Rightarrow> service_entry) \<Rightarrow> (reg_error + unit) \<times> registry" where
  "service_mut r h f =
     (case reg_service r h of
        Inl e \<Rightarrow> (Err e, r)
      | Inr s \<Rightarrow> (Ok (), put_service r (unat (handle_index h)) (f s)))"

definition reg_services :: "registry \<Rightarrow> service_entry list" where
  "reg_services r = List.map_filter rs_value (reg_slots r)"

section \<open>Registration\<close>

definition allocate_slot :: "reserve \<Rightarrow> registry \<Rightarrow> (reg_error + nat) \<times> registry" where
  "allocate_slot reserve r =
     (case position (\<lambda>slot. rs_value slot = None) (reg_slots r) of
        Some index \<Rightarrow> (Ok index, r)
      | None \<Rightarrow>
          if \<not> reserve RSlots 1 then (Err RgCapacity, r)
          else (Ok (length (reg_slots r)),
                r\<lparr>reg_slots := reg_slots r @ [slot_with_generation (reg_generation_seed r)]\<rparr>))"

definition register_with_source ::
    "reserve \<Rightarrow> registry \<Rightarrow> u8 list \<Rightarrow> u8 list \<Rightarrow> service_handle list \<Rightarrow> usize \<Rightarrow> image_source
      \<Rightarrow> (reg_error + service_handle) \<times> registry" where
  "register_with_source reserve r name img dependencies heap_quota_pages source =
     (if name = [] \<or> length name > MAX_SERVICE_NAME_BYTES then (Err RgInvalidName, r)
      else if img = [] \<or> heap_quota_pages = 0 then (Err RgInvalidImage, r)
      else if list_ex (\<lambda>d. \<not> result_is_ok (reg_service r d)) dependencies then (Err RgInvalidDependency, r)
      else state_bind (allocate_slot reserve r) (\<lambda>index r.
        case handle_new (of_nat index) (rs_generation (reg_slots r ! index)) of
          None \<Rightarrow> (Err RgCapacity, r)
        | Some h \<Rightarrow>
            if \<not> reserve RName (length name) \<or> \<not> reserve RImage (length img)
               \<or> \<not> reserve RDependencies (length dependencies)
            then (Err RgCapacity, r)
            else (Ok h, put_service r index
              \<lparr>rg_handle = h, rg_name = name, rg_image = img, rg_dependencies = dependencies,
               rg_state = RgStopped, rg_epoch = 1, rg_restarts = 0, rg_heap_quota_pages = heap_quota_pages,
               rg_manager_rights = RIGHTS_NONE, rg_image_source = source, rg_ownership = ownership_empty\<rparr>)))"

definition register_with_quota where
  "register_with_quota reserve r name img dependencies quota =
     register_with_source reserve r name img dependencies quota BuiltinImage"

definition register_filesystem_package where
  "register_filesystem_package reserve r name img dependencies quota =
     register_with_source reserve r name img dependencies quota FilesystemPackage"

definition reg_register where
  "reg_register reserve r name img dependencies =
     register_with_quota reserve r name img dependencies (of_nat SERVICE_HEAP_MAX_PAGES)"

text \<open>The bytes of \<open>b"pending"\<close>.\<close>

definition register_pending_package where
  "register_pending_package reserve r name quota =
     register_filesystem_package reserve r name [112, 101, 110, 100, 105, 110, 103] [] quota"

definition set_dependencies ::
    "reserve \<Rightarrow> registry \<Rightarrow> service_handle \<Rightarrow> service_handle list \<Rightarrow> (reg_error + unit) \<times> registry" where
  "set_dependencies reserve r h dependencies =
     (if list_ex (\<lambda>d. \<not> result_is_ok (reg_service r d)) dependencies then (Err RgInvalidDependency, r)
      else case reg_service r h of
        Inl e \<Rightarrow> (Err e, r)
      | Inr s \<Rightarrow>
          if \<not> reserve RDependencies (length dependencies - length (rg_dependencies s)) then (Err RgCapacity, r)
          else service_mut r h (\<lambda>s. s\<lparr>rg_dependencies := dependencies\<rparr>))"

definition reg_remove :: "registry \<Rightarrow> service_handle \<Rightarrow> (reg_error + unit) \<times> registry" where
  "reg_remove r h =
     (case reg_index r h of
        Inl e \<Rightarrow> (Err e, r)
      | Inr index \<Rightarrow>
          if list_ex (\<lambda>s. h \<in> set (rg_dependencies s)) (reg_services r) then (Err RgRunningDependents, r)
          else (Ok (), r\<lparr>reg_slots := (reg_slots r)[index := (reg_slots r ! index)\<lparr>rs_value := None,
                  rs_generation := reg_next_generation (rs_generation (reg_slots r ! index))\<rparr>]\<rparr>))"

definition replace_generation :: "registry \<Rightarrow> service_handle \<Rightarrow> (reg_error + service_handle) \<times> registry" where
  "replace_generation r h =
     (case reg_index r h of
        Inl e \<Rightarrow> (Err e, r)
      | Inr index \<Rightarrow>
          (let generation = reg_next_generation (rs_generation (reg_slots r ! index))
           in case handle_new (of_nat index) generation of
                None \<Rightarrow> (Err RgCapacity, r)
              | Some replacement \<Rightarrow>
                  (case rs_value (reg_slots r ! index) of
                     None \<Rightarrow> (Err RgStale, r)
                   | Some s \<Rightarrow>
                       if rg_state s \<noteq> RgStopped then (Err RgCapacity, r)
                       else (Ok replacement, r\<lparr>reg_slots := (reg_slots r)[index :=
                         \<lparr>rs_generation = generation,
                          rs_value = Some (s\<lparr>rg_handle := replacement, rg_epoch := reg_next_epoch (rg_epoch s),
                            rg_restarts := saturating_add (rg_restarts s) 1\<rparr>)\<rparr>]\<rparr>))))"

section \<open>States\<close>

definition reg_get_state :: "registry \<Rightarrow> service_handle \<Rightarrow> reg_error + reg_state" where
  "reg_get_state r h = map_sum id rg_state (reg_service r h)"

definition reg_get_epoch :: "registry \<Rightarrow> service_handle \<Rightarrow> reg_error + u64" where
  "reg_get_epoch r h = map_sum id rg_epoch (reg_service r h)"

definition reg_disable :: "registry \<Rightarrow> service_handle \<Rightarrow> (reg_error + unit) \<times> registry" where
  "reg_disable r h = service_mut r h (\<lambda>s. s\<lparr>rg_state := RgDisabled\<rparr>)"

definition reg_stop :: "registry \<Rightarrow> service_handle \<Rightarrow> (reg_error + unit) \<times> registry" where
  "reg_stop r h =
     (case reg_index r h of
        Inl e \<Rightarrow> (Err e, r)
      | Inr index \<Rightarrow>
          if list_ex (\<lambda>s. rg_state s = RgRunning \<and> h \<in> set (rg_dependencies s)) (reg_services r)
          then (Err RgRunningDependents, r)
          else case rs_value (reg_slots r ! index) of
            None \<Rightarrow> (Err RgStale, r)
          | Some s \<Rightarrow> (Ok (), put_service r index
              (s\<lparr>rg_state := RgStopped, rg_epoch := reg_next_epoch (rg_epoch s)\<rparr>)))"

definition reg_fail :: "registry \<Rightarrow> service_handle \<Rightarrow> (reg_error + unit) \<times> registry" where
  "reg_fail r h = service_mut r h (\<lambda>s. s\<lparr>rg_state := RgFailed\<rparr>)"

definition mark_stopping :: "registry \<Rightarrow> service_handle \<Rightarrow> (reg_error + unit) \<times> registry" where
  "mark_stopping r h =
     service_mut r h (\<lambda>s. if rg_state s = RgRunning then s\<lparr>rg_state := RgStopping\<rparr> else s)"

definition service_restarted :: "service_entry \<Rightarrow> service_entry" where
  "service_restarted s = s\<lparr>rg_epoch := reg_next_epoch (rg_epoch s), rg_state := RgRunning,
     rg_restarts := saturating_add (rg_restarts s) 1\<rparr>"

definition record_restart :: "registry \<Rightarrow> service_handle \<Rightarrow> (reg_error + unit) \<times> registry" where
  "record_restart r h = service_mut r h service_restarted"

section \<open>Attributes and ownership\<close>

definition reg_image_len :: "registry \<Rightarrow> service_handle \<Rightarrow> reg_error + nat" where
  "reg_image_len r h = map_sum id (\<lambda>s. length (rg_image s)) (reg_service r h)"

definition reg_image_bytes :: "registry \<Rightarrow> service_handle \<Rightarrow> reg_error + u8 list" where
  "reg_image_bytes r h = map_sum id rg_image (reg_service r h)"

definition set_image :: "reserve \<Rightarrow> registry \<Rightarrow> service_handle \<Rightarrow> u8 list \<Rightarrow> (reg_error + unit) \<times> registry" where
  "set_image reserve r h img =
     (if img = [] then (Err RgInvalidImage, r)
      else case reg_service r h of
        Inl e \<Rightarrow> (Err e, r)
      | Inr _ \<Rightarrow>
          if \<not> reserve RImage (length img) then (Err RgCapacity, r)
          else service_mut r h (\<lambda>s. s\<lparr>rg_image := img\<rparr>))"

definition reg_get_quota :: "registry \<Rightarrow> service_handle \<Rightarrow> reg_error + usize" where
  "reg_get_quota r h = map_sum id rg_heap_quota_pages (reg_service r h)"

definition reg_get_name :: "registry \<Rightarrow> service_handle \<Rightarrow> reg_error + u8 list" where
  "reg_get_name r h = map_sum id rg_name (reg_service r h)"

definition set_manager_rights :: "registry \<Rightarrow> service_handle \<Rightarrow> manager_rights \<Rightarrow> (reg_error + unit) \<times> registry" where
  "set_manager_rights r h rights = service_mut r h (\<lambda>s. s\<lparr>rg_manager_rights := rights\<rparr>)"

definition reg_get_rights :: "registry \<Rightarrow> service_handle \<Rightarrow> reg_error + manager_rights" where
  "reg_get_rights r h = map_sum id rg_manager_rights (reg_service r h)"

definition set_image_source :: "registry \<Rightarrow> service_handle \<Rightarrow> image_source \<Rightarrow> (reg_error + unit) \<times> registry" where
  "set_image_source r h source = service_mut r h (\<lambda>s. s\<lparr>rg_image_source := source\<rparr>)"

definition reg_get_image_source :: "registry \<Rightarrow> service_handle \<Rightarrow> reg_error + image_source" where
  "reg_get_image_source r h = map_sum id rg_image_source (reg_service r h)"

definition own_mut ::
    "registry \<Rightarrow> service_handle \<Rightarrow> (ownership \<Rightarrow> ownership) \<Rightarrow> (reg_error + unit) \<times> registry" where
  "own_mut r h f = service_mut r h (\<lambda>s. s\<lparr>rg_ownership := f (rg_ownership s)\<rparr>)"

definition set_runtime_ownership ::
    "registry \<Rightarrow> service_handle \<Rightarrow> u64 \<Rightarrow> u64 \<Rightarrow> u64 \<Rightarrow> usize \<Rightarrow> (reg_error + unit) \<times> registry" where
  "set_runtime_ownership r h process address_space task heap_pages =
     (if process = 0 \<or> address_space = 0 \<or> task = 0 \<or> heap_pages = 0 then (Err RgCapacity, r)
      else own_mut r h (\<lambda>ow. ow\<lparr>ow_process := process, ow_address_space := address_space, ow_task := task,
             ow_heap_pages := heap_pages\<rparr>))"

definition bind_runtime_slot :: "registry \<Rightarrow> service_handle \<Rightarrow> usize \<Rightarrow> (reg_error + unit) \<times> registry" where
  "bind_runtime_slot r h slot =
     (if list_ex (\<lambda>s. rg_handle s \<noteq> h \<and> ow_runtime_slot (rg_ownership s) = Some slot) (reg_services r)
      then (Err RgCapacity, r)
      else own_mut r h (\<lambda>ow. ow\<lparr>ow_runtime_slot := Some slot\<rparr>))"

definition reg_get_runtime_slot :: "registry \<Rightarrow> service_handle \<Rightarrow> reg_error + usize option" where
  "reg_get_runtime_slot r h = map_sum id (\<lambda>s. ow_runtime_slot (rg_ownership s)) (reg_service r h)"

definition set_heartbeat :: "registry \<Rightarrow> service_handle \<Rightarrow> u64 \<Rightarrow> (reg_error + unit) \<times> registry" where
  "set_heartbeat r h heartbeat = own_mut r h (\<lambda>ow. ow\<lparr>ow_heartbeat := heartbeat\<rparr>)"

definition set_runtime_counts ::
    "registry \<Rightarrow> service_handle \<Rightarrow> usize \<Rightarrow> usize \<Rightarrow> usize \<Rightarrow> (reg_error + unit) \<times> registry" where
  "set_runtime_counts r h ipc_endpoints capabilities events =
     own_mut r h (\<lambda>ow. ow\<lparr>ow_ipc_endpoints := ipc_endpoints, ow_capabilities := capabilities,
       ow_events := events\<rparr>)"

definition set_heap_pages :: "registry \<Rightarrow> service_handle \<Rightarrow> usize \<Rightarrow> (reg_error + unit) \<times> registry" where
  "set_heap_pages r h heap_pages =
     (if heap_pages = 0 then (Err RgCapacity, r)
      else own_mut r h (\<lambda>ow. ow\<lparr>ow_heap_pages := heap_pages\<rparr>))"

definition clear_runtime_ownership :: "registry \<Rightarrow> service_handle \<Rightarrow> (reg_error + unit) \<times> registry" where
  "clear_runtime_ownership r h = own_mut r h (\<lambda>_. ownership_empty)"

definition clear_execution_ownership :: "registry \<Rightarrow> service_handle \<Rightarrow> (reg_error + unit) \<times> registry" where
  "clear_execution_ownership r h =
     own_mut r h (\<lambda>ow. ow\<lparr>ow_process := 0, ow_address_space := 0, ow_task := 0, ow_heap_pages := 0,
       ow_heartbeat := 0, ow_runtime_slot := None\<rparr>)"

definition clear_execution_resources :: "registry \<Rightarrow> service_handle \<Rightarrow> (reg_error + unit) \<times> registry" where
  "clear_execution_resources r h =
     own_mut r h (\<lambda>ow. ow\<lparr>ow_process := 0, ow_address_space := 0, ow_task := 0, ow_heap_pages := 0,
       ow_heartbeat := 0\<rparr>)"

definition reg_get_ownership :: "registry \<Rightarrow> service_handle \<Rightarrow> reg_error + ownership" where
  "reg_get_ownership r h = map_sum id rg_ownership (reg_service r h)"

definition validate_lifecycle_handle :: "registry \<Rightarrow> service_handle \<Rightarrow> reg_error + unit" where
  "validate_lifecycle_handle r h = map_sum id (\<lambda>_. ()) (reg_service r h)"

section \<open>Lifecycle requests\<close>

definition lifecycle_status :: "registry \<Rightarrow> manager_operation \<Rightarrow> service_handle \<Rightarrow> manager_status" where
  "lifecycle_status r operation h =
     (case reg_service r h of
        Inl _ \<Rightarrow> MsStale
      | Inr s \<Rightarrow>
          (case operation of
             MgStart \<Rightarrow>
               if rg_state s \<noteq> RgStopped
               then (if rg_state s \<in> {RgStarting, RgStopping} then MsBusy else MsInvalidState)
               else if list_ex (\<lambda>d. reg_get_state r d \<noteq> Ok RgRunning) (rg_dependencies s)
               then MsDependency else MsOk
           | MgStop \<Rightarrow>
               if rg_state s \<noteq> RgRunning
               then (if rg_state s \<in> {RgStarting, RgStopping} then MsBusy else MsInvalidState)
               else if list_ex (\<lambda>t. h \<in> set (rg_dependencies t) \<and> rg_state t \<noteq> RgStopped) (reg_services r)
               then MsDependency else MsOk
           | MgRestart \<Rightarrow>
               if rg_state s = RgRunning then MsOk
               else if rg_state s \<in> {RgStarting, RgStopping} then MsBusy else MsInvalidState
           | _ \<Rightarrow> MsUnsupported))"

definition begin_lifecycle ::
    "registry \<Rightarrow> manager_operation \<Rightarrow> service_handle \<Rightarrow> manager_status \<times> registry" where
  "begin_lifecycle r operation h =
     (let status = lifecycle_status r operation h
      in if status \<noteq> MsOk then (status, r)
         else if \<not> result_is_ok (reg_service r h) then (MsStale, r)
         else case operation of
           MgStart \<Rightarrow> (MsAccepted, snd (service_mut r h (\<lambda>s. s\<lparr>rg_state := RgStarting\<rparr>)))
         | MgStop \<Rightarrow> (MsAccepted, snd (service_mut r h (\<lambda>s. s\<lparr>rg_state := RgStopping\<rparr>)))
         | MgRestart \<Rightarrow> (MsAccepted, snd (service_mut r h (\<lambda>s. s\<lparr>rg_state := RgStopping\<rparr>)))
         | _ \<Rightarrow> (MsUnsupported, r))"

definition abort_lifecycle ::
    "registry \<Rightarrow> manager_operation \<Rightarrow> service_handle \<Rightarrow> manager_status \<times> registry" where
  "abort_lifecycle r operation h =
     (case reg_service r h of
        Inl _ \<Rightarrow> (MsStale, r)
      | Inr s \<Rightarrow>
          (case operation of
             MgStart \<Rightarrow>
               if rg_state s \<noteq> RgStarting then (MsInvalidState, r)
               else (MsOk, snd (service_mut r h (\<lambda>s. s\<lparr>rg_state := RgStopped\<rparr>)))
           | MgStop \<Rightarrow>
               if rg_state s \<noteq> RgStopping then (MsInvalidState, r)
               else (MsOk, snd (service_mut r h (\<lambda>s. s\<lparr>rg_state := RgRunning\<rparr>)))
           | MgRestart \<Rightarrow>
               if rg_state s \<noteq> RgStopping then (MsInvalidState, r)
               else (MsOk, snd (service_mut r h (\<lambda>s. s\<lparr>rg_state := RgRunning\<rparr>)))
           | _ \<Rightarrow> (MsUnsupported, r)))"

text \<open>The first loop of \<open>abort_lifecycle_members\<close> only checks, the second only writes.\<close>

primrec members_status :: "registry \<Rightarrow> service_handle list \<Rightarrow> manager_status" where
  "members_status r [] = MsOk"
| "members_status r (h # hs) =
     (case reg_service r h of
        Inl _ \<Rightarrow> MsStale
      | Inr s \<Rightarrow> if rg_state s \<noteq> RgStopping then MsInvalidState else members_status r hs)"

definition abort_lifecycle_members :: "registry \<Rightarrow> service_handle list \<Rightarrow> manager_status \<times> registry" where
  "abort_lifecycle_members r members =
     (if members_status r members \<noteq> MsOk then (members_status r members, r)
      else (MsOk, fold (\<lambda>h r. snd (service_mut r h (\<lambda>s. s\<lparr>rg_state := RgRunning\<rparr>))) members r))"

section \<open>The invariant\<close>

text \<open>
  A live slot holds a service whose handle is the handle of that slot, with a valid name, a
  non-empty image and a quota. No two services share a runtime slot.
\<close>

definition service_at :: "registry \<Rightarrow> nat \<Rightarrow> service_entry option" where
  "service_at r i = Option.bind (slice_get (reg_slots r) i) rs_value"

definition service_ok :: "nat \<Rightarrow> u32 \<Rightarrow> service_entry \<Rightarrow> bool" where
  "service_ok i g s \<longleftrightarrow> handle_new (of_nat i) g = Some (rg_handle s)
     \<and> rg_name s \<noteq> [] \<and> length (rg_name s) \<le> MAX_SERVICE_NAME_BYTES \<and> rg_image s \<noteq> [] \<and> rg_heap_quota_pages s \<noteq> 0"

definition reg_inv :: "registry \<Rightarrow> bool" where
  "reg_inv r \<longleftrightarrow> length (reg_slots r) \<le> 2 ^ 32 \<and> reg_generation_seed r \<noteq> 0
     \<and> (\<forall>i < length (reg_slots r). rs_generation (reg_slots r ! i) \<noteq> 0)
     \<and> (\<forall>i s. service_at r i = Some s \<longrightarrow> service_ok i (rs_generation (reg_slots r ! i)) s)
     \<and> (\<forall>i j s t slot. service_at r i = Some s \<longrightarrow> service_at r j = Some t
          \<longrightarrow> ow_runtime_slot (rg_ownership s) = Some slot \<longrightarrow> ow_runtime_slot (rg_ownership t) = Some slot \<longrightarrow> i = j)"

lemma service_at_Some:
  "service_at r i = Some s \<longleftrightarrow> i < length (reg_slots r) \<and> rs_value (reg_slots r ! i) = Some s"
  by (auto simp: service_at_def bind_eq_Some_conv)

lemma reg_index_Ok:
  "reg_index r h = Ok i \<longleftrightarrow> i = unat (handle_index h) \<and> i < length (reg_slots r)
     \<and> rs_generation (reg_slots r ! i) = handle_generation h \<and> rs_value (reg_slots r ! i) \<noteq> None"
  by (auto simp: reg_index_def Let_def slice_get_def)

lemma reg_service_Ok:
  "reg_service r h = Ok s \<longleftrightarrow> service_at r (unat (handle_index h)) = Some s
     \<and> rs_generation (reg_slots r ! unat (handle_index h)) = handle_generation h"
  by (auto simp: reg_service_def result_bind_Ok reg_index_Ok ok_or_Ok service_at_Some)

lemma set_reg_services: "s \<in> set (reg_services r) \<longleftrightarrow> (\<exists>i. service_at r i = Some s)"
  by (auto simp: reg_services_def map_filter_def service_at_Some in_set_conv_nth image_iff)

lemma runtime_slot_unique:
  assumes "reg_inv r" "service_at r i = Some s" "service_at r j = Some t"
    "ow_runtime_slot (rg_ownership s) = Some slot" "ow_runtime_slot (rg_ownership t) = Some slot"
  shows "i = j"
  using assms unfolding reg_inv_def by blast

lemma reg_invI:
  assumes "length (reg_slots r) \<le> 2 ^ 32" "reg_generation_seed r \<noteq> 0"
    "\<And>i. i < length (reg_slots r) \<Longrightarrow> rs_generation (reg_slots r ! i) \<noteq> 0"
    "\<And>i s. service_at r i = Some s \<Longrightarrow> service_ok i (rs_generation (reg_slots r ! i)) s"
    "\<And>i j s t slot. \<lbrakk>service_at r i = Some s; service_at r j = Some t;
      ow_runtime_slot (rg_ownership s) = Some slot; ow_runtime_slot (rg_ownership t) = Some slot\<rbrakk> \<Longrightarrow> i = j"
  shows "reg_inv r"
  using assms unfolding reg_inv_def by blast

text \<open>A recorded handle resolves to its own service, and a handle that resolves is the recorded one.\<close>

lemma recorded_handle:
  assumes "reg_inv r" "service_at r i = Some s"
  shows "unat (handle_index (rg_handle s)) = i" "handle_generation (rg_handle s) = rs_generation (reg_slots r ! i)"
    "reg_service r (rg_handle s) = Ok s"
proof -
  have i: "i < 2 ^ 32" using assms by (auto simp: reg_inv_def service_at_Some)
  have "handle_new (of_nat i) (rs_generation (reg_slots r ! i)) = Some (rg_handle s)"
    using assms by (auto simp: reg_inv_def service_ok_def)
  then have "handle_index (rg_handle s) = of_nat i" and g: "handle_generation (rg_handle s) = rs_generation (reg_slots r ! i)"
    by (simp_all add: handle_new_Some)
  then show index: "unat (handle_index (rg_handle s)) = i" using i by (simp add: unat_of_nat_u32)
  show "handle_generation (rg_handle s) = rs_generation (reg_slots r ! i)" by fact
  show "reg_service r (rg_handle s) = Ok s" using assms(2) index g by (simp add: reg_service_Ok)
qed

lemma resolved_handle:
  assumes "reg_inv r" "reg_service r h = Ok s"
  shows "rg_handle s = h"
proof -
  have at: "service_at r (unat (handle_index h)) = Some s"
    and "rs_generation (reg_slots r ! unat (handle_index h)) = handle_generation h"
    using assms(2) by (simp_all add: reg_service_Ok)
  then show ?thesis using recorded_handle(1,2) [OF assms(1) at] by (simp add: handle_eq_fields unat_inject)
qed

section \<open>Updates that keep the table\<close>

definition keeps :: "service_entry \<Rightarrow> service_entry \<Rightarrow> bool" where
  "keeps s s' \<longleftrightarrow> rg_handle s' = rg_handle s \<and> rg_name s' = rg_name s
     \<and> rg_heap_quota_pages s' = rg_heap_quota_pages s \<and> (rg_image s \<noteq> [] \<longrightarrow> rg_image s' \<noteq> [])"

definition keeps_slot :: "service_entry \<Rightarrow> service_entry \<Rightarrow> bool" where
  "keeps_slot s s' \<longleftrightarrow> ow_runtime_slot (rg_ownership s') \<in> {None, ow_runtime_slot (rg_ownership s)}"

text \<open>\<open>r'\<close> has the slots of \<open>r\<close>, with their services updated by keeping updates.\<close>

definition touches :: "registry \<Rightarrow> registry \<Rightarrow> bool" where
  "touches r r' \<longleftrightarrow> reg_generation_seed r' = reg_generation_seed r \<and> length (reg_slots r') = length (reg_slots r)
     \<and> (\<forall>i < length (reg_slots r). rs_generation (reg_slots r' ! i) = rs_generation (reg_slots r ! i))
     \<and> (\<forall>i. rel_option (\<lambda>s s'. keeps s s' \<and> keeps_slot s s') (service_at r i) (service_at r' i))"

lemma touches_refl [simp]: "touches r r"
  by (auto simp: touches_def keeps_def keeps_slot_def option.rel_refl)

lemma touches_trans: "touches r r' \<Longrightarrow> touches r' r'' \<Longrightarrow> touches r r''"
proof -
  assume a: "touches r r'" and b: "touches r' r''"
  have "rel_option (\<lambda>s s'. keeps s s' \<and> keeps_slot s s') (service_at r i) (service_at r'' i)" for i
  proof -
    have "rel_option (\<lambda>s s'. keeps s s' \<and> keeps_slot s s') (service_at r i) (service_at r' i)"
      "rel_option (\<lambda>s s'. keeps s s' \<and> keeps_slot s s') (service_at r' i) (service_at r'' i)"
      using a b by (simp_all add: touches_def)
    then show ?thesis
      by (cases "service_at r i"; cases "service_at r' i"; cases "service_at r'' i")
        (auto simp: keeps_def keeps_slot_def)
  qed
  then show ?thesis using a b by (simp add: touches_def)
qed

lemma service_at_put:
  "i < length (reg_slots r) \<Longrightarrow> service_at (put_service r i s) j = (if j = i then Some s else service_at r j)"
  by (auto simp: service_at_def put_service_def slot_simps)

lemma put_touches:
  assumes "service_at r i = Some s" "keeps s s'" "keeps_slot s s'"
  shows "touches r (put_service r i s')"
proof -
  have i: "i < length (reg_slots r)" using assms(1) by (simp add: service_at_Some)
  have "rel_option (\<lambda>s s'. keeps s s' \<and> keeps_slot s s') (service_at r j) (service_at (put_service r i s') j)" for j
    using assms by (cases "service_at r j") (auto simp: service_at_put [OF i] keeps_def keeps_slot_def)
  then show ?thesis using i by (auto simp: touches_def put_service_def nth_list_update)
qed

lemma service_mut_touches:
  assumes "\<And>s. reg_service r h = Ok s \<Longrightarrow> keeps s (f s) \<and> keeps_slot s (f s)"
  shows "touches r (snd (service_mut r h f))"
  using assms
  by (auto simp: service_mut_def reg_service_Ok intro!: put_touches split: sum.splits)

lemma reg_inv_touches:
  assumes "touches r r'" "reg_inv r"
  shows "reg_inv r'"
proof -
  have origin: "\<exists>s. service_at r i = Some s \<and> keeps s s' \<and> keeps_slot s s'" if "service_at r' i = Some s'" for i s'
  proof -
    have "rel_option (\<lambda>s s'. keeps s s' \<and> keeps_slot s s') (service_at r i) (service_at r' i)"
      using assms(1) by (simp add: touches_def)
    with that show ?thesis by (cases "service_at r i") auto
  qed
  have gens: "rs_generation (reg_slots r' ! i) = rs_generation (reg_slots r ! i)" if "i < length (reg_slots r)" for i
    using assms(1) that by (simp add: touches_def)
  have "service_ok i (rs_generation (reg_slots r' ! i)) s'" if at: "service_at r' i = Some s'" for i s'
  proof -
    obtain s where s: "service_at r i = Some s" "keeps s s'" using origin [OF at] by blast
    then have "service_ok i (rs_generation (reg_slots r ! i)) s" using assms(2) by (simp add: reg_inv_def)
    then show ?thesis using s gens [of i] by (auto simp: service_ok_def keeps_def service_at_Some)
  qed
  moreover have "i = j" if shared: "service_at r' i = Some s'" "service_at r' j = Some t'"
    "ow_runtime_slot (rg_ownership s') = Some slot" "ow_runtime_slot (rg_ownership t') = Some slot" for i j s' t' slot
  proof -
    obtain s t where st: "service_at r i = Some s" "keeps_slot s s'" "service_at r j = Some t" "keeps_slot t t'"
      using origin [OF shared(1)] origin [OF shared(2)] by blast
    then have "ow_runtime_slot (rg_ownership s) = Some slot" "ow_runtime_slot (rg_ownership t) = Some slot"
      using shared(3,4) by (auto simp: keeps_slot_def)
    then show ?thesis using runtime_slot_unique [OF assms(2) st(1,3)] by blast
  qed
  ultimately show ?thesis using assms gens by (simp add: reg_inv_def touches_def)
qed

section \<open>Every operation keeps the invariant\<close>

lemma own_mut_touches:
  "(\<And>ow. ow_runtime_slot (f ow) \<in> {None, ow_runtime_slot ow}) \<Longrightarrow> touches r (snd (own_mut r h f))"
  unfolding own_mut_def by (rule service_mut_touches) (auto simp: keeps_def keeps_slot_def)

lemma state_touches: "touches r (snd (service_mut r h (\<lambda>s. s\<lparr>rg_state := st\<rparr>)))"
  by (rule service_mut_touches) (simp add: keeps_def keeps_slot_def)

lemma attributes_touch [invariant_intros]:
  "touches r (snd (reg_disable r h))" "touches r (snd (reg_fail r h))" "touches r (snd (mark_stopping r h))"
  "touches r (snd (record_restart r h))" "touches r (snd (set_manager_rights r h rights))"
  "touches r (snd (set_image_source r h source))"
  by (auto simp: reg_disable_def reg_fail_def mark_stopping_def record_restart_def service_restarted_def
      set_manager_rights_def set_image_source_def keeps_def keeps_slot_def intro!: service_mut_touches)

lemma ownership_touch [invariant_intros]:
  "touches r (snd (set_runtime_ownership r h p a t n))" "touches r (snd (set_heartbeat r h b))"
  "touches r (snd (set_runtime_counts r h x y z))" "touches r (snd (set_heap_pages r h n))"
  "touches r (snd (clear_runtime_ownership r h))" "touches r (snd (clear_execution_ownership r h))"
  "touches r (snd (clear_execution_resources r h))"
  by (auto simp: set_runtime_ownership_def set_heartbeat_def set_runtime_counts_def set_heap_pages_def
      clear_runtime_ownership_def clear_execution_ownership_def clear_execution_resources_def ownership_empty_def
      intro!: own_mut_touches)

lemma image_dependencies_touch [invariant_intros]:
  "touches r (snd (set_image reserve r h img))" "touches r (snd (set_dependencies reserve r h ds))"
  by (auto simp: set_image_def set_dependencies_def keeps_def keeps_slot_def intro!: service_mut_touches
      split: sum.splits)

lemma reg_stop_touches [invariant_intros]: "touches r (snd (reg_stop r h))"
  by (auto simp: reg_stop_def reg_index_Ok keeps_def keeps_slot_def service_at_Some intro!: put_touches
      split: sum.splits option.splits)

lemma lifecycle_touch [invariant_intros]:
  "touches r (snd (begin_lifecycle r operation h))" "touches r (snd (abort_lifecycle r operation h))"
  by (auto simp: begin_lifecycle_def abort_lifecycle_def Let_def state_touches
      split: manager_operation.splits sum.splits)

lemma fold_state_touches:
  "touches r (fold (\<lambda>h r. snd (service_mut r h (\<lambda>s. s\<lparr>rg_state := st\<rparr>))) hs r)"
  by (induction hs arbitrary: r) (auto intro: touches_trans state_touches)

lemma abort_members_touches [invariant_intros]: "touches r (snd (abort_lifecycle_members r hs))"
  by (simp add: abort_lifecycle_members_def fold_state_touches)

lemma put_inv:
  assumes "reg_inv r" "i < length (reg_slots r)" "service_ok i (rs_generation (reg_slots r ! i)) s"
    "\<And>j t slot. \<lbrakk>service_at r j = Some t; j \<noteq> i; ow_runtime_slot (rg_ownership t) = Some slot\<rbrakk>
      \<Longrightarrow> ow_runtime_slot (rg_ownership s) \<noteq> Some slot"
  shows "reg_inv (put_service r i s)"
proof -
  have gens: "rs_generation (reg_slots (put_service r i s) ! j) = rs_generation (reg_slots r ! j)" for j
    by (cases "j = i") (simp_all add: put_service_def assms(2))
  have size: "length (reg_slots (put_service r i s)) = length (reg_slots r)"
    "reg_generation_seed (put_service r i s) = reg_generation_seed r" by (simp_all add: put_service_def)
  show ?thesis
    using assms unfolding reg_inv_def gens size service_at_put [OF assms(2)]
    by (auto split: if_splits)
qed

lemma bind_inv: "reg_inv r \<Longrightarrow> reg_inv (snd (bind_runtime_slot r h slot))"
proof (cases "reg_service r h")
  case (Inr s)
  assume inv: "reg_inv r"
  let ?i = "unat (handle_index h)"
  have at: "service_at r ?i = Some s" using Inr by (simp add: reg_service_Ok)
  have ok: "service_ok ?i (rs_generation (reg_slots r ! ?i)) s" using inv at by (simp add: reg_inv_def)
  have other: "rg_handle t \<noteq> h" if "service_at r j = Some t" "j \<noteq> ?i" for j t
    using recorded_handle(1) [OF inv that(1)] that(2) by auto
  show ?thesis
  proof (cases "list_ex (\<lambda>s. rg_handle s \<noteq> h \<and> ow_runtime_slot (rg_ownership s) = Some slot) (reg_services r)")
    case False
    have "reg_inv (put_service r ?i (s\<lparr>rg_ownership := (rg_ownership s)\<lparr>ow_runtime_slot := Some slot\<rparr>\<rparr>))"
    proof (rule put_inv [OF inv])
      show "?i < length (reg_slots r)" using at by (simp add: service_at_Some)
      fix j t slot'
      assume t: "service_at r j = Some t" "j \<noteq> ?i" "ow_runtime_slot (rg_ownership t) = Some slot'"
      then have "t \<in> set (reg_services r)" by (auto simp: set_reg_services)
      then have "slot' \<noteq> slot" using False other [OF t(1,2)] t(3) by (auto simp: list_ex_iff)
      then show "ow_runtime_slot (rg_ownership (s\<lparr>rg_ownership := (rg_ownership s)\<lparr>ow_runtime_slot := Some slot\<rparr>\<rparr>)) \<noteq> Some slot'"
        by simp
    qed (use ok in \<open>simp add: service_ok_def\<close>)
    then show ?thesis using False Inr by (simp add: bind_runtime_slot_def own_mut_def service_mut_def)
  qed (use inv in \<open>simp add: bind_runtime_slot_def\<close>)
qed (auto simp: bind_runtime_slot_def own_mut_def service_mut_def)

lemma allocate_slot_Ok:
  assumes "allocate_slot reserve r = (Ok i, r1)" "reg_inv r" "length (reg_slots r) < 2 ^ 32"
  shows "reg_inv r1 \<and> i < length (reg_slots r1) \<and> service_at r1 i = None \<and> service_at r1 = service_at r
    \<and> (\<forall>j < length (reg_slots r). reg_slots r1 ! j = reg_slots r ! j) \<and> length (reg_slots r) \<le> length (reg_slots r1)"
proof (cases "position (\<lambda>slot. rs_value slot = None) (reg_slots r)")
  case (Some k)
  then show ?thesis using assms position_SomeD [OF Some]
    by (auto simp: allocate_slot_def service_at_def slice_get_def)
next
  case None
  then have r1: "i = length (reg_slots r)" "r1 = r\<lparr>reg_slots := reg_slots r @ [slot_with_generation (reg_generation_seed r)]\<rparr>"
    using assms(1) by (auto simp: allocate_slot_def None simp del: position_None split: if_splits)
  have at: "service_at r1 = service_at r"
    by (rule ext) (auto simp: r1 service_at_def slice_get_def nth_append slot_with_generation_def not_less)
  have "reg_inv r1"
    using assms(2,3) unfolding reg_inv_def at
    by (auto simp: r1 nth_append slot_with_generation_def max_def word_le_nat_alt service_at_Some)
  moreover have "service_at r i = None" by (simp add: service_at_def r1 slice_get_def)
  moreover have "i < length (reg_slots r1)" "\<forall>j < length (reg_slots r). reg_slots r1 ! j = reg_slots r ! j"
    "length (reg_slots r) \<le> length (reg_slots r1)" by (simp_all add: r1 nth_append)
  ultimately show ?thesis by (simp add: at)
qed

lemma allocate_slot_Err: "allocate_slot reserve r = (Err e, r1) \<Longrightarrow> r1 = r"
  by (auto simp: allocate_slot_def split: option.splits if_splits)

text \<open>A successful registration puts one stopped service into a slot that was vacant or new.\<close>

lemma register_outcome:
  assumes "register_with_source reserve r name img ds quota source = (res, r')" "reg_inv r"
    "length (reg_slots r) < 2 ^ 32"
  shows "reg_inv r' \<and> length (reg_slots r) \<le> length (reg_slots r')
    \<and> (\<forall>j < length (reg_slots r). rs_generation (reg_slots r' ! j) = rs_generation (reg_slots r ! j))
    \<and> (\<forall>j s. service_at r j = Some s \<longrightarrow> service_at r' j = Some s)
    \<and> (\<forall>h. res = Ok h \<longrightarrow> (\<exists>s. reg_service r' h = Ok s \<and> rg_state s = RgStopped \<and> rg_name s = name
          \<and> rg_image s = img \<and> rg_dependencies s = ds \<and> service_at r (unat (handle_index h)) = None))"
proof -
  consider "r' = r" "\<not> result_is_ok res"
    | i r1 where "allocate_slot reserve r = (Ok i, r1)" "r' = r1" "\<not> result_is_ok res"
    | i r1 h s where "allocate_slot reserve r = (Ok i, r1)" "res = Ok h" "r' = put_service r1 i s"
        "handle_new (of_nat i) (rs_generation (reg_slots r1 ! i)) = Some h" "rg_handle s = h" "rg_name s = name"
        "rg_image s = img" "rg_dependencies s = ds" "rg_state s = RgStopped" "rg_heap_quota_pages s = quota"
        "rg_ownership s = ownership_empty" "name \<noteq> []" "length name \<le> MAX_SERVICE_NAME_BYTES" "img \<noteq> []" "quota \<noteq> 0"
    using assms(1) allocate_slot_Err [of reserve r]
    by (auto simp: register_with_source_def state_bind_def split: if_splits prod.splits sum.splits option.splits)
  then show ?thesis
  proof cases
    case 1
    then show ?thesis using assms(2) by auto
  next
    case 2
    then show ?thesis using allocate_slot_Ok [OF 2(1) assms(2,3)] by auto
  next
    case (3 i r1 h s)
    note new = allocate_slot_Ok [OF 3(1) assms(2,3)]
    then have i: "i < length (reg_slots r1)" and free: "service_at r i = None" by auto
    have "reg_inv (put_service r1 i s)"
      using new 3 by (intro put_inv) (auto simp: service_ok_def ownership_empty_def)
    moreover have gens: "rs_generation (reg_slots (put_service r1 i s) ! j) = rs_generation (reg_slots r1 ! j)" for j
      by (cases "j = i") (simp_all add: put_service_def i)
    moreover have "i < 2 ^ 32" using new by (auto simp: reg_inv_def)
    then have "unat (handle_index h) = i" "handle_generation h = rs_generation (reg_slots r1 ! i)"
      using 3(4) by (simp_all add: handle_new_Some unat_of_nat_u32)
    moreover have "length (reg_slots (put_service r1 i s)) = length (reg_slots r1)" by (simp add: put_service_def)
    ultimately have "reg_inv r'" "length (reg_slots r) \<le> length (reg_slots r')"
      "\<forall>j < length (reg_slots r). rs_generation (reg_slots r' ! j) = rs_generation (reg_slots r ! j)"
      "reg_service r' h = Ok s" "service_at r (unat (handle_index h)) = None"
      using new free 3(3) by (simp_all add: reg_service_Ok service_at_put [OF i])
    moreover have "service_at r' j = Some t" if "service_at r j = Some t" for j t
      using that new free by (cases "j = i") (simp_all add: 3(3) service_at_put [OF i])
    ultimately show ?thesis using 3(2,6-9) by simp
  qed
qed

lemma remove_outcome:
  assumes "reg_remove r h = (res, r')" "reg_inv r"
  shows "reg_inv r' \<and> (r' = r \<or> (let i = unat (handle_index h) in i < length (reg_slots r)
    \<and> res = Ok () \<and> rs_generation (reg_slots r ! i) = handle_generation h \<and> service_at r i \<noteq> None
    \<and> r' = r\<lparr>reg_slots := (reg_slots r)[i := (reg_slots r ! i)\<lparr>rs_value := None, rs_generation := wrapping_next (handle_generation h)\<rparr>]\<rparr>))"
proof (cases "r' = r")
  case False
  let ?i = "unat (handle_index h)"
  have r': "res = Ok ()" "?i < length (reg_slots r)" "rs_generation (reg_slots r ! ?i) = handle_generation h"
    "service_at r ?i \<noteq> None"
    "r' = r\<lparr>reg_slots := (reg_slots r)[?i := (reg_slots r ! ?i)\<lparr>rs_value := None, rs_generation := wrapping_next (handle_generation h)\<rparr>]\<rparr>"
    using assms(1) False
    by (auto simp: reg_remove_def reg_index_Ok reg_next_generation_def max_wrapping_next service_at_Some
        split: sum.splits if_splits)
  have at: "service_at r' j = (if j = ?i then None else service_at r j)" for j
    using r'(2) by (auto simp: r'(5) service_at_def slot_simps)
  have "reg_inv r'"
    using assms(2) unfolding reg_inv_def at
    by (auto simp: r'(5) nth_list_update r'(2) split: if_splits)
  then show ?thesis using r' by (simp add: Let_def)
qed (use assms(2) in simp)

lemma replace_outcome:
  assumes "replace_generation r h = (res, r')" "reg_inv r"
  shows "reg_inv r' \<and> (r' = r \<or> (\<exists>s. let i = unat (handle_index h) in i < length (reg_slots r)
    \<and> rs_generation (reg_slots r ! i) = handle_generation h
    \<and> r' = r\<lparr>reg_slots := (reg_slots r)[i := \<lparr>rs_generation = wrapping_next (handle_generation h), rs_value = Some s\<rparr>]\<rparr>))"
proof (cases "r' = r")
  case False
  let ?i = "unat (handle_index h)"
  obtain s k where s: "?i < length (reg_slots r)" "rs_generation (reg_slots r ! ?i) = handle_generation h"
    "service_at r ?i = Some s" "handle_new (handle_index h) (wrapping_next (handle_generation h)) = Some k"
    "r' = r\<lparr>reg_slots := (reg_slots r)[?i := \<lparr>rs_generation = wrapping_next (handle_generation h), rs_value = Some
       (s\<lparr>rg_handle := k, rg_epoch := reg_next_epoch (rg_epoch s), rg_restarts := saturating_add (rg_restarts s) 1\<rparr>)\<rparr>]\<rparr>"
    using assms(1) False
    by (auto simp: replace_generation_def reg_index_Ok reg_next_generation_def max_wrapping_next Let_def service_at_Some
        split: sum.splits if_splits option.splits)
  let ?t = "s\<lparr>rg_handle := k, rg_epoch := reg_next_epoch (rg_epoch s), rg_restarts := saturating_add (rg_restarts s) 1\<rparr>"
  have at: "service_at r' j = (if j = ?i then Some ?t else service_at r j)" for j
    using s(1) by (auto simp: s(5) service_at_def slot_simps)
  have gens: "rs_generation (reg_slots r' ! j) = (if j = ?i then wrapping_next (handle_generation h) else rs_generation (reg_slots r ! j))" for j
    using s(1) by (simp add: s(5) nth_list_update)
  have size: "length (reg_slots r') = length (reg_slots r)" "reg_generation_seed r' = reg_generation_seed r"
    by (simp_all add: s(5))
  have "reg_inv r'"
  proof (rule reg_invI)
    fix i assume "i < length (reg_slots r')"
    then show "rs_generation (reg_slots r' ! i) \<noteq> 0" using assms(2) by (simp add: gens size reg_inv_def)
  next
    fix i x assume "service_at r' i = Some x"
    moreover have "service_ok ?i (wrapping_next (handle_generation h)) ?t"
      using assms(2) s(3,4) by (auto simp: reg_inv_def service_ok_def)
    moreover have "service_at r i = Some x \<Longrightarrow> service_ok i (rs_generation (reg_slots r ! i)) x"
      using assms(2) by (simp add: reg_inv_def)
    ultimately show "service_ok i (rs_generation (reg_slots r' ! i)) x" unfolding at gens by (simp split: if_splits)
  next
    fix i j x y slot
    assume "service_at r' i = Some x" "service_at r' j = Some y"
      "ow_runtime_slot (rg_ownership x) = Some slot" "ow_runtime_slot (rg_ownership y) = Some slot"
    then have "\<exists>x'. service_at r i = Some x' \<and> ow_runtime_slot (rg_ownership x') = Some slot"
      "\<exists>y'. service_at r j = Some y' \<and> ow_runtime_slot (rg_ownership y') = Some slot"
      unfolding at using s(3) by (auto split: if_splits)
    then show "i = j" using runtime_slot_unique [OF assms(2)] by blast
  qed (use assms(2) in \<open>simp_all add: size reg_inv_def\<close>)
  then show ?thesis using s by (auto simp: Let_def)
qed (use assms(2) in simp)

end
