(* ===== verification/Service_Graph.thy ===== *)
theory Service_Graph
  imports Service_Registry "HOL-Library.Multiset"
begin

text \<open>
  The dependency graph of the service registry, \<open>src/runtime_services.rs\<close>: the start order
  (a depth-first search that detects cycles), the restart of a service after its dependencies, and
  the closure of running dependents that a restart stops, with its stop order. All three loops are
  shown to terminate.
\<close>

section \<open>Start order\<close>

text \<open>The handles that resolve, the nodes of the search.\<close>

definition live_handles :: "registry \<Rightarrow> service_handle set" where
  "live_handles r = {h. result_is_ok (reg_service r h)}"

lemma live_handles_iff: "h \<in> live_handles r \<longleftrightarrow> (\<exists>s. reg_service r h = Ok s)"
  by (cases "reg_service r h") (auto simp: live_handles_def)

lemma finite_live_handles [simp]: "finite (live_handles r)"
proof (rule inj_on_finite [where f = "\<lambda>h. unat (handle_index h)"])
  show "inj_on (\<lambda>h. unat (handle_index h)) (live_handles r)"
    by (rule inj_onI) (auto simp: live_handles_iff reg_service_Ok handle_eq_fields unat_inject)
  show "(\<lambda>h. unat (handle_index h)) ` live_handles r \<subseteq> {..< length (reg_slots r)}"
    by (auto simp: live_handles_iff reg_service_Ok service_at_Some)
qed simp

text \<open>
  \<open>collect_start_order\<close> and its loop over the dependencies. \<open>visiting\<close> is pushed before the loop
  and popped after it, so it is an argument; \<open>order\<close> is threaded. An error leaves the operation.
\<close>

function collect_start_order ::
    "registry \<Rightarrow> service_handle \<Rightarrow> service_handle list \<Rightarrow> service_handle list \<Rightarrow> reg_error + service_handle list"
  and collect_dependencies ::
    "registry \<Rightarrow> service_handle list \<Rightarrow> service_handle list \<Rightarrow> service_handle list \<Rightarrow> reg_error + service_handle list"
where
  "collect_start_order r h visiting order =
     (if h \<in> set visiting then Err RgDependencyCycle
      else case reg_service r h of
        Inl e \<Rightarrow> Err e
      | Inr s \<Rightarrow>
          if rg_state s = RgRunning \<or> h \<in> set order then Ok order
          else (case collect_dependencies r (rg_dependencies s) (visiting @ [h]) order of
                  Inl e \<Rightarrow> Err e
                | Inr order \<Rightarrow> Ok (order @ [h])))"
| "collect_dependencies r [] visiting order = Ok order"
| "collect_dependencies r (d # ds) visiting order =
     (case collect_start_order r d visiting order of
        Inl e \<Rightarrow> Err e
      | Inr order \<Rightarrow> collect_dependencies r ds visiting order)"
  by pat_completeness auto

termination
proof (relation "measures
    [\<lambda>x. case x of Inl (r, h, v, order) \<Rightarrow> card (live_handles r - set v)
               | Inr (r, ds, v, order) \<Rightarrow> card (live_handles r - set v),
     \<lambda>x. case x of Inl _ \<Rightarrow> 0 | Inr (r, ds, v, order) \<Rightarrow> Suc (length ds)]", goal_cases)
  case (2 r h visiting order s)
  then have "h \<in> live_handles r - set visiting" by (auto simp: live_handles_iff)
  then have "live_handles r - set (visiting @ [h]) \<subset> live_handles r - set visiting" by auto
  then show ?case by (simp add: psubset_card_mono)
qed simp_all

declare collect_start_order.simps [simp del]

primrec apply_start_order :: "registry \<Rightarrow> service_handle list \<Rightarrow> (reg_error + unit) \<times> registry" where
  "apply_start_order r [] = (Ok (), r)"
| "apply_start_order r (h # hs) =
     state_bind (service_mut r h (\<lambda>s. s\<lparr>rg_state := RgRunning\<rparr>)) (\<lambda>_ r. apply_start_order r hs)"

definition reg_start :: "registry \<Rightarrow> service_handle \<Rightarrow> (reg_error + unit) \<times> registry" where
  "reg_start r h =
     (case collect_start_order r h [] [] of
        Inl e \<Rightarrow> (Err e, r)
      | Inr order \<Rightarrow> apply_start_order r order)"

definition reg_restart :: "registry \<Rightarrow> service_handle \<Rightarrow> (reg_error + unit) \<times> registry" where
  "reg_restart r h =
     (case reg_service r h of
        Inl e \<Rightarrow> (Err e, r)
      | Inr s \<Rightarrow>
          (case collect_dependencies r (rg_dependencies s) [h] [] of
             Inl e \<Rightarrow> (Err e, r)
           | Inr order \<Rightarrow>
               state_bind (apply_start_order r order) (\<lambda>_ r.
                 case rs_value (reg_slots r ! unat (handle_index h)) of
                   None \<Rightarrow> (Err RgStale, r)
                 | Some s \<Rightarrow> (Ok (), put_service r (unat (handle_index h)) (service_restarted s)))))"

section \<open>Restart closure\<close>

text \<open>One pass of the \<open>for\<close> loop: the running dependents found so far are appended.\<close>

primrec restart_pass ::
    "reserve \<Rightarrow> service_entry list \<Rightarrow> service_handle list \<Rightarrow> bool \<Rightarrow> reg_error + (service_handle list \<times> bool)" where
  "restart_pass reserve [] included changed = Ok (included, changed)"
| "restart_pass reserve (s # ss) included changed =
     (if rg_state s = RgRunning \<and> rg_handle s \<notin> set included
         \<and> list_ex (\<lambda>d. d \<in> set included) (rg_dependencies s)
      then if \<not> reserve RIncluded (length included) then Err RgCapacity
           else restart_pass reserve ss (included @ [rg_handle s]) True
      else restart_pass reserve ss included changed)"

lemma restart_pass_grows:
  assumes "restart_pass reserve ss inc ch = Ok (inc', ch')"
  shows "\<exists>new. inc' = inc @ new \<and> distinct new \<and> set new \<inter> set inc = {} \<and> set new \<subseteq> rg_handle ` set ss
    \<and> (ch' \<longleftrightarrow> ch \<or> new \<noteq> [])"
  using assms
proof (induction ss arbitrary: inc ch)
  case (Cons s ss)
  show ?case
  proof (cases "rg_state s = RgRunning \<and> rg_handle s \<notin> set inc \<and> list_ex (\<lambda>d. d \<in> set inc) (rg_dependencies s)")
    case True
    then have "restart_pass reserve ss (inc @ [rg_handle s]) True = Ok (inc', ch')"
      using Cons.prems by (simp split: if_splits)
    from Cons.IH [OF this] obtain new where "inc' = inc @ rg_handle s # new" "distinct new"
      "set new \<inter> set (inc @ [rg_handle s]) = {}" "set new \<subseteq> rg_handle ` set ss" ch' by auto
    then show ?thesis using True by (intro exI [of _ "rg_handle s # new"]) auto
  next
    case False
    then have "restart_pass reserve ss inc ch = Ok (inc', ch')" using Cons.prems by simp argo
    from Cons.IH [OF this] show ?thesis by auto
  qed
qed simp

function restart_grow :: "reserve \<Rightarrow> service_entry list \<Rightarrow> service_handle list \<Rightarrow> reg_error + service_handle list" where
  "restart_grow reserve ss included =
     (case restart_pass reserve ss included False of
        Inl e \<Rightarrow> Err e
      | Inr (included, changed) \<Rightarrow> if changed then restart_grow reserve ss included else Ok included)"
  by pat_completeness auto

termination
proof (relation "measure (\<lambda>(reserve, ss, included). card (rg_handle ` set ss - set included))", goal_cases)
  case (2 reserve ss included x included' changed)
  then have pass: "restart_pass reserve ss included False = Ok (included', True)" by simp
  from restart_pass_grows [OF this] obtain new where new: "included' = included @ new" "new \<noteq> []"
    "set new \<inter> set included = {}" "set new \<subseteq> rg_handle ` set ss" by auto
  then obtain x where "x \<in> set new" by (cases new) auto
  then have "x \<in> rg_handle ` set ss - set included" "x \<in> set included'" using new by auto
  then have "rg_handle ` set ss - set included' \<subset> rg_handle ` set ss - set included" using new(1) by auto
  then show ?case by (simp add: psubset_card_mono)
qed simp

declare restart_grow.simps [simp del]

text \<open>\<open>Vec::swap_remove\<close>: the last element takes the place of the removed one.\<close>

definition swap_remove :: "'a list \<Rightarrow> nat \<Rightarrow> 'a list" where
  "swap_remove xs i = (if i = length xs - 1 then butlast xs else (butlast xs)[i := last xs])"

lemma length_swap_remove [simp]: "length (swap_remove xs i) = length xs - 1"
  by (simp add: swap_remove_def)

definition restart_ready :: "registry \<Rightarrow> service_handle list \<Rightarrow> service_handle \<Rightarrow> bool" where
  "restart_ready r remaining candidate =
     (case reg_service r candidate of
        Inl _ \<Rightarrow> False
      | Inr s \<Rightarrow> \<not> list_ex (\<lambda>d. d \<in> set remaining) (rg_dependencies s))"

function restart_order :: "registry \<Rightarrow> service_handle list \<Rightarrow> service_handle list \<Rightarrow> reg_error + service_handle list" where
  "restart_order r remaining order =
     (if remaining = [] then Ok order
      else case position (restart_ready r remaining) remaining of
        None \<Rightarrow> Err RgDependencyCycle
      | Some i \<Rightarrow> restart_order r (swap_remove remaining i) (order @ [remaining ! i]))"
  by pat_completeness auto

termination
  by (relation "measure (\<lambda>(r, remaining, order). length remaining)") (auto simp: length_greater_0_conv)

declare restart_order.simps [simp del]

definition restart_closure :: "reserve \<Rightarrow> registry \<Rightarrow> service_handle \<Rightarrow> reg_error + service_handle list" where
  "restart_closure reserve r h =
     result_bind (reg_service r h) (\<lambda>_.
       if \<not> reserve RIncluded 0 then Err RgCapacity
       else result_bind (restart_grow reserve (reg_services r) [h]) (\<lambda>included.
         if \<not> reserve ROrder (length included) then Err RgCapacity
         else map_sum id rev (restart_order r included [])))"

datatype lifecycle_action = LaStart service_handle | LaStop service_handle | LaRestart "service_handle list"

primrec stop_members :: "registry \<Rightarrow> service_handle list \<Rightarrow> (manager_status + unit) \<times> registry" where
  "stop_members r [] = (Ok (), r)"
| "stop_members r (h # hs) =
     (case service_mut r h (\<lambda>s. s\<lparr>rg_state := RgStopping\<rparr>) of
        (Inl _, r) \<Rightarrow> (Err MsStale, r)
      | (Inr _, r) \<Rightarrow> stop_members r hs)"

definition begin_lifecycle_action ::
    "reserve \<Rightarrow> registry \<Rightarrow> manager_operation \<Rightarrow> service_handle \<Rightarrow> (manager_status + lifecycle_action) \<times> registry" where
  "begin_lifecycle_action reserve r operation h =
     (let status = lifecycle_status r operation h
      in if status \<noteq> MsOk then (Err status, r)
         else case operation of
           MgStart \<Rightarrow>
             (case service_mut r h (\<lambda>s. s\<lparr>rg_state := RgStarting\<rparr>) of
                (Inl _, r) \<Rightarrow> (Err MsStale, r) | (Inr _, r) \<Rightarrow> (Ok (LaStart h), r))
         | MgStop \<Rightarrow>
             (case service_mut r h (\<lambda>s. s\<lparr>rg_state := RgStopping\<rparr>) of
                (Inl _, r) \<Rightarrow> (Err MsStale, r) | (Inr _, r) \<Rightarrow> (Ok (LaStop h), r))
         | MgRestart \<Rightarrow>
             (case restart_closure reserve r h of
                Inl _ \<Rightarrow> (Err MsDependency, r)
              | Inr closure \<Rightarrow> state_bind (stop_members r closure) (\<lambda>_ r. (Ok (LaRestart closure), r)))
         | _ \<Rightarrow> (Err MsUnsupported, r))"

section \<open>The start order is topological\<close>

definition running :: "registry \<Rightarrow> service_handle \<Rightarrow> bool" where
  "running r h \<longleftrightarrow> reg_get_state r h = Ok RgRunning"

lemma running_iff: "running r h \<longleftrightarrow> (\<exists>s. reg_service r h = Ok s \<and> rg_state s = RgRunning)"
  by (cases "reg_service r h") (auto simp: running_def reg_get_state_def)

text \<open>Every entry is a stopped live service whose dependencies run or come earlier.\<close>

definition topological :: "registry \<Rightarrow> service_handle list \<Rightarrow> bool" where
  "topological r order \<longleftrightarrow> distinct order \<and> (\<forall>xs g ys. order = xs @ g # ys \<longrightarrow>
     (\<exists>s. reg_service r g = Ok s \<and> rg_state s \<noteq> RgRunning
        \<and> (\<forall>d \<in> set (rg_dependencies s). d \<in> set xs \<or> running r d)))"

lemma topological_Nil [simp]: "topological r []"
  by (simp add: topological_def)

lemma topological_snoc:
  assumes "topological r order" "h \<notin> set order" "reg_service r h = Ok s" "rg_state s \<noteq> RgRunning"
    "\<forall>d \<in> set (rg_dependencies s). d \<in> set order \<or> running r d"
  shows "topological r (order @ [h])"
  unfolding topological_def
proof (intro conjI allI impI)
  fix xs g ys
  assume split: "order @ [h] = xs @ g # ys"
  show "\<exists>s. reg_service r g = Ok s \<and> rg_state s \<noteq> RgRunning
      \<and> (\<forall>d \<in> set (rg_dependencies s). d \<in> set xs \<or> running r d)"
  proof (cases ys rule: rev_cases)
    case Nil
    then show ?thesis using split assms(3-5) by auto
  next
    case (snoc zs z)
    then have "order = xs @ g # zs" using split by auto
    then show ?thesis using assms(1) unfolding topological_def by blast
  qed
qed (use assms in \<open>simp add: topological_def\<close>)

text \<open>What the search adds: an extension that avoids the services being visited.\<close>

definition extends :: "registry \<Rightarrow> service_handle list \<Rightarrow> service_handle list \<Rightarrow> service_handle list \<Rightarrow> bool" where
  "extends r visiting order order' \<longleftrightarrow> topological r order'
     \<and> (\<exists>new. order' = order @ new \<and> set new \<inter> set visiting = {})"

lemma extends_trans: "extends r v a b \<Longrightarrow> extends r v b c \<Longrightarrow> extends r v a c"
  by (auto simp: extends_def)

lemma collect_sound:
  "collect_start_order r h visiting order = Ok order' \<Longrightarrow> topological r order
    \<Longrightarrow> extends r visiting order order' \<and> (h \<in> set order' \<or> running r h)"
  "collect_dependencies r ds visiting order = Ok order' \<Longrightarrow> topological r order
    \<Longrightarrow> extends r visiting order order' \<and> (\<forall>d \<in> set ds. d \<in> set order' \<or> running r d)"
proof (induction r h visiting order and r ds visiting order arbitrary: order' and order'
    rule: collect_start_order_collect_dependencies.induct)
  case (1 r h visiting order)
  obtain s where h: "h \<notin> set visiting" and s: "reg_service r h = Ok s"
    using 1(2) by (subst (asm) collect_start_order.simps) (auto split: if_splits sum.splits)
  show ?case
  proof (cases "rg_state s = RgRunning \<or> h \<in> set order")
    case True
    then have "order' = order" using 1(2) h s by (subst (asm) collect_start_order.simps) simp
    then show ?thesis using True s 1(3) by (auto simp: extends_def running_iff)
  next
    case False
    then obtain mid where mid: "collect_dependencies r (rg_dependencies s) (visiting @ [h]) order = Ok mid"
      and order': "order' = mid @ [h]"
      using 1(2) h s by (subst (asm) collect_start_order.simps) (auto split: sum.splits)
    have ext: "extends r (visiting @ [h]) order mid" and deps: "\<forall>d \<in> set (rg_dependencies s). d \<in> set mid \<or> running r d"
      using 1(1) [OF h s _ mid 1(3)] False by auto
    obtain new where new: "mid = order @ new" "set new \<inter> set (visiting @ [h]) = {}" "topological r mid"
      using ext by (auto simp: extends_def)
    have "topological r order'"
      unfolding order' using new False s deps by (intro topological_snoc) auto
    then show ?thesis using new h by (auto simp: extends_def order')
  qed
next
  case (2 r visiting order)
  then show ?case by (auto simp: extends_def)
next
  case (3 r d ds visiting order)
  then obtain mid where mid: "collect_start_order r d visiting order = Ok mid"
    and rest: "collect_dependencies r ds visiting mid = Ok order'" by (auto split: sum.splits)
  have first: "extends r visiting order mid" "d \<in> set mid \<or> running r d" using 3(1) [OF mid 3(4)] by auto
  have second: "extends r visiting mid order'" "\<forall>d \<in> set ds. d \<in> set order' \<or> running r d"
    using 3(2) [OF mid rest] first(1) by (auto simp: extends_def)
  then have "set mid \<subseteq> set order'" by (auto simp: extends_def)
  then show ?case using first second extends_trans by auto
qed

text \<open>Why it fails: a dependency that does not resolve, or a cycle of stopped services.\<close>

definition waits_on :: "registry \<Rightarrow> service_handle \<Rightarrow> service_handle \<Rightarrow> bool" where
  "waits_on r g d \<longleftrightarrow> (\<exists>s. reg_service r g = Ok s \<and> rg_state s \<noteq> RgRunning \<and> d \<in> set (rg_dependencies s))"

definition blocked :: "registry \<Rightarrow> reg_error \<Rightarrow> service_handle \<Rightarrow> bool" where
  "blocked r e h \<longleftrightarrow> (\<exists>x. (waits_on r)\<^sup>*\<^sup>* h x \<and>
     (e = RgStale \<and> \<not> result_is_ok (reg_service r x) \<or> e = RgDependencyCycle \<and> (waits_on r)\<^sup>+\<^sup>+ x x))"

lemma blocked_step: "waits_on r h d \<Longrightarrow> blocked r e d \<Longrightarrow> blocked r e h"
  unfolding blocked_def by (meson converse_rtranclp_into_rtranclp)

lemma reg_service_Err: "reg_service r h = Err e \<Longrightarrow> e = RgStale"
  by (auto simp: reg_service_def reg_index_def Let_def result_bind_Err ok_or_Err split: option.splits if_splits)

lemma collect_fails:
  "collect_start_order r h visiting order = Err e \<Longrightarrow> \<forall>v \<in> set visiting. (waits_on r)\<^sup>+\<^sup>+ v h
    \<Longrightarrow> blocked r e h"
  "collect_dependencies r ds visiting order = Err e \<Longrightarrow> \<forall>v \<in> set visiting. \<forall>d \<in> set ds. (waits_on r)\<^sup>+\<^sup>+ v d
    \<Longrightarrow> \<exists>d \<in> set ds. blocked r e d"
proof (induction r h visiting order and r ds visiting order
    rule: collect_start_order_collect_dependencies.induct)
  case (1 r h visiting order)
  consider "h \<in> set visiting" "e = RgDependencyCycle"
    | "h \<notin> set visiting" "reg_service r h = Err e"
    | s where "h \<notin> set visiting" "reg_service r h = Ok s" "\<not> (rg_state s = RgRunning \<or> h \<in> set order)"
        "collect_dependencies r (rg_dependencies s) (visiting @ [h]) order = Err e"
    using 1(2) by (subst (asm) collect_start_order.simps) (auto split: if_splits sum.splits)
  then show ?case
  proof cases
    case 1
    then show ?thesis using \<open>\<forall>v \<in> set visiting. _\<close> by (auto simp: blocked_def)
  next
    case 2
    then show ?thesis using reg_service_Err [of r h e] by (auto simp: blocked_def intro!: exI [of _ h])
  next
    case (3 s)
    have waits: "waits_on r h d" if "d \<in> set (rg_dependencies s)" for d
      using that 3 by (auto simp: waits_on_def)
    then have "\<forall>v \<in> set (visiting @ [h]). \<forall>d \<in> set (rg_dependencies s). (waits_on r)\<^sup>+\<^sup>+ v d"
      using 1(3) by (auto intro: tranclp.trancl_into_trancl)
    then obtain d where "d \<in> set (rg_dependencies s)" "blocked r e d"
      using 1(1) [OF 3(1,2,3,4)] by blast
    then show ?thesis using waits blocked_step by blast
  qed
next
  case (3 r d ds visiting order)
  then show ?case by (cases "collect_start_order r d visiting order") auto
qed simp

section \<open>Applying an order\<close>

lemma service_mut_lookup:
  assumes "reg_service r h = Ok s"
  shows "service_mut r h f = (Ok (), put_service r (unat (handle_index h)) (f s))"
    "reg_service (put_service r (unat (handle_index h)) t) g = (if g = h then Ok t else reg_service r g)"
proof -
  have at: "service_at r (unat (handle_index h)) = Some s"
    and gen: "rs_generation (reg_slots r ! unat (handle_index h)) = handle_generation h"
    using assms by (simp_all add: reg_service_Ok)
  then have i: "unat (handle_index h) < length (reg_slots r)" by (simp add: service_at_Some)
  show "service_mut r h f = (Ok (), put_service r (unat (handle_index h)) (f s))"
    using assms by (simp add: service_mut_def)
  let ?r = "put_service r (unat (handle_index h)) t"
  have slot: "reg_slots ?r ! j = (if j = unat (handle_index h) then (reg_slots r ! j)\<lparr>rs_value := Some t\<rparr> else reg_slots r ! j)"
    "length (reg_slots ?r) = length (reg_slots r)" for j
    using i by (auto simp: put_service_def)
  show "reg_service ?r g = (if g = h then Ok t else reg_service r g)"
  proof (cases "handle_index g = handle_index h")
    case True
    then show ?thesis using i gen
      by (auto simp: reg_service_def reg_index_def Let_def slice_get_def slot handle_eq_fields)
  next
    case False
    then have "unat (handle_index g) \<noteq> unat (handle_index h)" by (simp add: unat_inject)
    then show ?thesis using False
      by (auto simp: reg_service_def reg_index_def Let_def slice_get_def slot)
  qed
qed

definition set_running :: "service_entry \<Rightarrow> service_entry" where
  "set_running s = s\<lparr>rg_state := RgRunning\<rparr>"

lemma set_running_idem: "set_running (set_running s) = set_running s"
  by (simp add: set_running_def)

lemma apply_start_order_Ok:
  assumes "\<forall>h \<in> set order. result_is_ok (reg_service r h)"
  shows "\<exists>r'. apply_start_order r order = (Ok (), r') \<and> touches r r'
    \<and> (\<forall>g. reg_service r' g = (if g \<in> set order then map_sum id set_running (reg_service r g) else reg_service r g))"
  using assms
proof (induction order arbitrary: r)
  case (Cons h hs)
  obtain s where s: "reg_service r h = Ok s" using Cons.prems by (cases "reg_service r h") auto
  let ?r = "put_service r (unat (handle_index h)) (set_running s)"
  have look: "reg_service ?r g = (if g = h then Ok (set_running s) else reg_service r g)" for g
    by (rule service_mut_lookup(2) [OF s])
  have step: "service_mut r h (\<lambda>s. s\<lparr>rg_state := RgRunning\<rparr>) = (Ok (), ?r)"
    using service_mut_lookup(1) [OF s] by (simp add: set_running_def)
  have "touches r ?r" using state_touches [of r h RgRunning] by (simp add: step)
  moreover have "\<forall>g \<in> set hs. result_is_ok (reg_service ?r g)" using Cons.prems by (simp add: look)
  from Cons.IH [OF this] obtain r' where r': "apply_start_order ?r hs = (Ok (), r')" "touches ?r r'"
    "\<And>g. reg_service r' g = (if g \<in> set hs then map_sum id set_running (reg_service ?r g) else reg_service ?r g)"
    by blast
  moreover have "reg_service r' g = (if g \<in> set (h # hs) then map_sum id set_running (reg_service r g) else reg_service r g)" for g
    using s by (auto simp: r'(3) look set_running_idem)
  ultimately show ?case using step touches_trans by auto
qed simp

lemma topological_live: "topological r order \<Longrightarrow> g \<in> set order \<Longrightarrow> result_is_ok (reg_service r g)"
  unfolding topological_def by (metis split_list result_is_ok.simps(1))

lemma apply_start_order_touches: "touches r (snd (apply_start_order r order))"
proof (induction order arbitrary: r)
  case (Cons h hs)
  obtain res r1 where step: "service_mut r h (\<lambda>s. s\<lparr>rg_state := RgRunning\<rparr>) = (res, r1)"
    by (cases "service_mut r h (\<lambda>s. s\<lparr>rg_state := RgRunning\<rparr>)")
  then have "touches r r1" using state_touches [of r h RgRunning] by simp
  then show ?case using step Cons.IH [of r1] touches_trans by (cases res) auto
qed simp

lemma running_after:
  assumes "topological r order"
    "\<forall>g. reg_service r' g = (if g \<in> set order then map_sum id set_running (reg_service r g) else reg_service r g)"
  shows "running r' g \<longleftrightarrow> running r g \<or> g \<in> set order"
  using topological_live [OF assms(1), of g] assms(2)
  by (cases "reg_service r g") (auto simp: running_iff set_running_def)

section \<open>The restart closure is the set of running dependents\<close>

definition depends_running :: "registry \<Rightarrow> service_handle \<Rightarrow> service_handle \<Rightarrow> bool" where
  "depends_running r d g \<longleftrightarrow> (\<exists>s. reg_service r g = Ok s \<and> rg_state s = RgRunning \<and> d \<in> set (rg_dependencies s))"

lemma depends_running_services:
  assumes "reg_inv r"
  shows "depends_running r d g \<longleftrightarrow>
    (\<exists>s \<in> set (reg_services r). rg_handle s = g \<and> rg_state s = RgRunning \<and> d \<in> set (rg_dependencies s))"
proof
  assume "depends_running r d g"
  then obtain s where s: "reg_service r g = Ok s" "rg_state s = RgRunning" "d \<in> set (rg_dependencies s)"
    by (auto simp: depends_running_def)
  then have "s \<in> set (reg_services r)" by (auto simp: set_reg_services reg_service_Ok)
  then show "\<exists>s \<in> set (reg_services r). rg_handle s = g \<and> rg_state s = RgRunning \<and> d \<in> set (rg_dependencies s)"
    using s resolved_handle [OF assms s(1)] by blast
next
  assume "\<exists>s \<in> set (reg_services r). rg_handle s = g \<and> rg_state s = RgRunning \<and> d \<in> set (rg_dependencies s)"
  then obtain s i where "service_at r i = Some s" "rg_handle s = g" "rg_state s = RgRunning" "d \<in> set (rg_dependencies s)"
    by (auto simp: set_reg_services)
  then show "depends_running r d g" using recorded_handle(3) [OF assms, of i s] by (auto simp: depends_running_def)
qed

definition in_closure :: "service_entry list \<Rightarrow> service_handle set \<Rightarrow> service_handle \<Rightarrow> bool" where
  "in_closure ss base g \<longleftrightarrow> (\<exists>x \<in> base.
     (\<lambda>d g. \<exists>s \<in> set ss. rg_handle s = g \<and> rg_state s = RgRunning \<and> d \<in> set (rg_dependencies s))\<^sup>*\<^sup>* x g)"

lemma in_closure_base: "g \<in> base \<Longrightarrow> in_closure ss base g"
  by (auto simp: in_closure_def)

lemma in_closure_step:
  "in_closure ss base d \<Longrightarrow> s \<in> set ss \<Longrightarrow> rg_state s = RgRunning \<Longrightarrow> d \<in> set (rg_dependencies s)
    \<Longrightarrow> in_closure ss base (rg_handle s)"
  unfolding in_closure_def by (blast intro: rtranclp.rtrancl_into_rtrancl)

lemma restart_pass_closure:
  assumes "restart_pass reserve ts inc ch = Ok (inc', ch')" "set ts \<subseteq> set ss" "\<forall>g \<in> set inc. in_closure ss base g"
  shows "\<forall>g \<in> set inc'. in_closure ss base g"
  using assms
proof (induction ts arbitrary: inc ch)
  case (Cons t ts)
  show ?case
  proof (cases "rg_state t = RgRunning \<and> rg_handle t \<notin> set inc \<and> list_ex (\<lambda>d. d \<in> set inc) (rg_dependencies t)")
    case True
    then obtain d where "d \<in> set inc" "d \<in> set (rg_dependencies t)" by (auto simp: list_ex_iff)
    then have "in_closure ss base (rg_handle t)" using Cons.prems(2,3) True by (intro in_closure_step [of _ _ d]) auto
    moreover have "restart_pass reserve ts (inc @ [rg_handle t]) True = Ok (inc', ch')"
      using Cons.prems(1) True by (simp split: if_splits)
    ultimately show ?thesis using Cons.IH [of "inc @ [rg_handle t]" True] Cons.prems(2,3) by auto
  next
    case False
    then have "restart_pass reserve ts inc ch = Ok (inc', ch')" using Cons.prems(1) by simp argo
    then show ?thesis using Cons.IH Cons.prems(2,3) by auto
  qed
qed simp

text \<open>A pass that changes nothing has found the set closed.\<close>

lemma restart_pass_closed:
  assumes "restart_pass reserve ss inc False = Ok (inc, False)" "s \<in> set ss" "rg_state s = RgRunning"
    "d \<in> set (rg_dependencies s)" "d \<in> set inc"
  shows "rg_handle s \<in> set inc"
proof -
  have "restart_pass reserve ts inc ch = Ok (inc', False) \<Longrightarrow> s \<in> set ts \<Longrightarrow> rg_handle s \<in> set inc" for ts ch inc'
  proof (induction ts arbitrary: ch)
    case (Cons t ts)
    have changed: "\<not> restart_pass reserve ts (inc @ [rg_handle t]) True = Ok (inc', False)"
      using restart_pass_grows [of reserve ts "inc @ [rg_handle t]" True inc' False] by auto
    show ?case
    proof (cases "t = s")
      case True
      then show ?thesis using Cons.prems changed assms(3-5) by (auto simp: list_ex_iff split: if_splits)
    next
      case False
      then show ?thesis using Cons changed by (auto split: if_splits)
    qed
  qed simp
  then show ?thesis using assms(1,2) by blast
qed

lemma restart_grow_closure:
  assumes "restart_grow reserve ss inc = Ok inc'" "distinct inc" "\<forall>g \<in> set inc. in_closure ss base g"
  shows "distinct inc' \<and> set inc \<subseteq> set inc' \<and> (\<forall>g \<in> set inc'. in_closure ss base g)
    \<and> (\<forall>s \<in> set ss. \<forall>d \<in> set (rg_dependencies s). rg_state s = RgRunning \<longrightarrow> d \<in> set inc' \<longrightarrow> rg_handle s \<in> set inc')"
  using assms
proof (induction reserve ss inc rule: restart_grow.induct)
  case (1 reserve ss inc)
  obtain mid ch where pass: "restart_pass reserve ss inc False = Ok (mid, ch)"
    using 1(2) by (subst (asm) restart_grow.simps) (auto split: sum.splits)
  obtain new where new: "mid = inc @ new" "distinct new" "set new \<inter> set inc = {}" "ch \<longleftrightarrow> new \<noteq> []"
    using restart_pass_grows [OF pass] by auto
  have mid: "\<forall>g \<in> set mid. in_closure ss base g" by (rule restart_pass_closure [OF pass _ 1(4)]) simp
  show ?case
  proof (cases ch)
    case True
    then have rest: "restart_grow reserve ss mid = Ok inc'"
      using 1(2) pass by (subst (asm) restart_grow.simps) simp
    have "distinct mid" using new 1(3) by auto
    then show ?thesis using 1(1) [OF pass refl True rest _ mid] new(1) by auto
  next
    case False
    then have inc': "inc' = inc" "mid = inc" using 1(2) pass new by (subst (asm) restart_grow.simps; simp)+
    then show ?thesis using 1(3,4) restart_pass_closed [of reserve ss inc] pass False by auto
  qed
qed

lemma closure_least:
  assumes "in_closure ss base g" "base \<subseteq> A"
    "\<forall>s \<in> set ss. \<forall>d \<in> set (rg_dependencies s). rg_state s = RgRunning \<longrightarrow> d \<in> A \<longrightarrow> rg_handle s \<in> A"
  shows "g \<in> A"
proof -
  obtain x where x: "x \<in> base"
    "(\<lambda>d g. \<exists>s \<in> set ss. rg_handle s = g \<and> rg_state s = RgRunning \<and> d \<in> set (rg_dependencies s))\<^sup>*\<^sup>* x g"
    using assms(1) by (auto simp: in_closure_def)
  show ?thesis using x(2)
  proof (induction rule: rtranclp_induct)
    case base
    then show ?case using x(1) assms(2) by blast
  next
    case (step y z)
    then show ?case using assms(3) by blast
  qed
qed

section \<open>The stop order\<close>

lemma mset_swap_remove:
  assumes "i < length xs"
  shows "mset xs = add_mset (xs ! i) (mset (swap_remove xs i))"
proof -
  obtain ys y where xs: "xs = ys @ [y]" using assms by (cases xs rule: rev_cases) auto
  show ?thesis
  proof (cases "i < length ys")
    case True
    then have "mset ys = add_mset (ys ! i) (mset ys - {#ys ! i#})" by simp
    then show ?thesis using True by (simp add: swap_remove_def xs nth_append mset_update)
  next
    case False
    then have "i = length ys" using assms xs by simp
    then show ?thesis by (simp add: swap_remove_def xs)
  qed
qed

text \<open>Entries follow their dependencies: no dependency of an entry is the entry or comes later.\<close>

definition dependencies_first :: "registry \<Rightarrow> service_handle list \<Rightarrow> bool" where
  "dependencies_first r order \<longleftrightarrow> (\<forall>xs g ys. order = xs @ g # ys \<longrightarrow>
     (\<exists>s. reg_service r g = Ok s \<and> (\<forall>d \<in> set (rg_dependencies s). d \<noteq> g \<and> d \<notin> set ys)))"

lemma restart_order_sound:
  assumes "restart_order r remaining order = Ok result"
  shows "\<exists>tail. result = order @ tail \<and> mset tail = mset remaining \<and> dependencies_first r tail"
  using assms
proof (induction r remaining order rule: restart_order.induct)
  case (1 r remaining order)
  show ?case
  proof (cases "remaining = []")
    case True
    then show ?thesis using 1(2) by (subst (asm) restart_order.simps) (simp add: dependencies_first_def)
  next
    case False
    then obtain i where i: "position (restart_ready r remaining) remaining = Some i"
      and rest: "restart_order r (swap_remove remaining i) (order @ [remaining ! i]) = Ok result"
      using 1(2) by (subst (asm) restart_order.simps) (auto split: option.splits)
    from 1(1) [OF False i rest] obtain tail where tail: "result = (order @ [remaining ! i]) @ tail"
      "mset tail = mset (swap_remove remaining i)" "dependencies_first r tail" by blast
    have ix: "i < length remaining" and "restart_ready r remaining (remaining ! i)" using position_SomeD [OF i] by auto
    then obtain s where s: "reg_service r (remaining ! i) = Ok s" "\<forall>d \<in> set (rg_dependencies s). d \<notin> set remaining"
      by (auto simp: restart_ready_def list_ex_iff split: sum.splits)
    have all: "mset remaining = mset (remaining ! i # tail)" using mset_swap_remove [OF ix] tail(2) by simp
    then have sets: "set remaining = set (remaining ! i # tail)" by (rule mset_eq_setD)
    have "dependencies_first r (remaining ! i # tail)"
      unfolding dependencies_first_def
    proof (intro allI impI)
      fix xs g ys
      assume "remaining ! i # tail = xs @ g # ys"
      then show "\<exists>s. reg_service r g = Ok s \<and> (\<forall>d \<in> set (rg_dependencies s). d \<noteq> g \<and> d \<notin> set ys)"
        using s sets tail(3) unfolding dependencies_first_def by (cases xs) auto
    qed
    then show ?thesis using tail(1) all by (intro exI [of _ "remaining ! i # tail"]) simp
  qed
qed

lemma restart_closure_sound:
  assumes "restart_closure reserve r h = Ok order" "reg_inv r"
  shows "distinct order \<and> set order = {g. (depends_running r)\<^sup>*\<^sup>* h g} \<and> dependencies_first r (rev order)"
proof -
  obtain inc tail where grow: "restart_grow reserve (reg_services r) [h] = Ok inc"
    and ord: "restart_order r inc [] = Ok tail" and order: "order = rev tail"
    using assms(1) by (auto simp: restart_closure_def result_bind_Ok map_sum_def split: if_splits sum.splits)
  have rel: "(\<lambda>d g. \<exists>s \<in> set (reg_services r). rg_handle s = g \<and> rg_state s = RgRunning \<and> d \<in> set (rg_dependencies s))
      = depends_running r"
    by (intro ext) (simp add: depends_running_services [OF assms(2)])
  have "\<forall>g \<in> set [h]. in_closure (reg_services r) {h} g" by (simp add: in_closure_base)
  from restart_grow_closure [OF grow _ this] have inc: "distinct inc" "h \<in> set inc"
    "\<forall>g \<in> set inc. in_closure (reg_services r) {h} g"
    "\<forall>s \<in> set (reg_services r). \<forall>d \<in> set (rg_dependencies s). rg_state s = RgRunning \<longrightarrow> d \<in> set inc \<longrightarrow> rg_handle s \<in> set inc"
    by simp_all
  have "set inc = {g. in_closure (reg_services r) {h} g}"
    using inc(2,3) closure_least [of "reg_services r" "{h}" _ "set inc", OF _ _ inc(4)] by blast
  then have "set inc = {g. (depends_running r)\<^sup>*\<^sup>* h g}" by (simp add: in_closure_def rel)
  moreover have tail: "mset tail = mset inc" "dependencies_first r tail" using restart_order_sound [OF ord] by auto
  moreover have "set tail = set inc" "distinct tail"
    using tail(1) inc(1) mset_eq_setD mset_eq_imp_distinct_iff by metis+
  ultimately show ?thesis by (simp add: order)
qed

section \<open>Runs of the registry\<close>

lemma reg_start_touches: "touches r (snd (reg_start r h))"
  by (auto simp: reg_start_def apply_start_order_touches split: sum.splits)

lemma stop_members_touches: "touches r (snd (stop_members r hs))"
proof (induction hs arbitrary: r)
  case (Cons h hs)
  obtain res r1 where step: "service_mut r h (\<lambda>s. s\<lparr>rg_state := RgStopping\<rparr>) = (res, r1)"
    by (cases "service_mut r h (\<lambda>s. s\<lparr>rg_state := RgStopping\<rparr>)")
  then have "touches r r1" using state_touches [of r h RgStopping] by simp
  then show ?case using step Cons.IH [of r1] touches_trans by (cases res) auto
qed simp

lemma begin_action_touches: "touches r (snd (begin_lifecycle_action reserve r operation h))"
proof (cases operation)
  case MgRestart
  then show ?thesis
    by (auto simp: begin_lifecycle_action_def Let_def state_bind_def split: sum.splits prod.splits)
      (metis stop_members_touches snd_conv)+
next
  case MgStart
  then show ?thesis using state_touches [of r h RgStarting]
    by (auto simp: begin_lifecycle_action_def Let_def split: sum.splits prod.splits)
next
  case MgStop
  then show ?thesis using state_touches [of r h RgStopping]
    by (auto simp: begin_lifecycle_action_def Let_def split: sum.splits prod.splits)
qed (auto simp: begin_lifecycle_action_def Let_def)

lemma reg_restart_touches: "touches r (snd (reg_restart r h))"
proof (cases "\<exists>s order r1 t. reg_service r h = Ok s \<and> collect_dependencies r (rg_dependencies s) [h] [] = Ok order
    \<and> apply_start_order r order = (Ok (), r1) \<and> rs_value (reg_slots r1 ! unat (handle_index h)) = Some t")
  case True
  then obtain s order r1 t where a: "reg_service r h = Ok s"
    "collect_dependencies r (rg_dependencies s) [h] [] = Ok order" "apply_start_order r order = (Ok (), r1)"
    "rs_value (reg_slots r1 ! unat (handle_index h)) = Some t" by blast
  have t1: "touches r r1" using apply_start_order_touches [of r order] a(3) by simp
  then have "service_at r1 (unat (handle_index h)) = Some t"
    using a(1,4) by (auto simp: service_at_Some reg_service_Ok touches_def)
  then have "touches r1 (put_service r1 (unat (handle_index h)) (service_restarted t))"
    by (rule put_touches) (simp_all add: service_restarted_def keeps_def keeps_slot_def)
  with t1 show ?thesis using a touches_trans by (auto simp: reg_restart_def)
next
  case False
  have "touches r r1" if "apply_start_order r order = (res, r1)" for order res r1
    using apply_start_order_touches [of r order] that by simp
  with False show ?thesis
    by (auto simp: reg_restart_def state_bind_def split: sum.splits option.splits prod.splits)
qed

inductive reg_step :: "registry \<Rightarrow> registry \<Rightarrow> bool" where
  reg_registers: "length (reg_slots r) < 2 ^ 32
    \<Longrightarrow> reg_step r (snd (register_with_source reserve r name img ds quota source))"
| reg_removes: "reg_step r (snd (reg_remove r h))"
| reg_replaces: "reg_step r (snd (replace_generation r h))"
| reg_starts: "reg_step r (snd (reg_start r h))"
| reg_restarts: "reg_step r (snd (reg_restart r h))"
| reg_record_restarts: "reg_step r (snd (record_restart r h))"
| reg_stops: "reg_step r (snd (reg_stop r h))"
| reg_fails: "reg_step r (snd (reg_fail r h))"
| reg_disables: "reg_step r (snd (reg_disable r h))"
| reg_marks: "reg_step r (snd (mark_stopping r h))"
| reg_begins: "reg_step r (snd (begin_lifecycle r operation h))"
| reg_acts: "reg_step r (snd (begin_lifecycle_action reserve r operation h))"
| reg_aborts: "reg_step r (snd (abort_lifecycle r operation h))"
| reg_aborts_members: "reg_step r (snd (abort_lifecycle_members r hs))"
| reg_sets_dependencies: "reg_step r (snd (set_dependencies reserve r h ds))"
| reg_sets_image: "reg_step r (snd (set_image reserve r h img))"
| reg_sets_rights: "reg_step r (snd (set_manager_rights r h rights))"
| reg_sets_source: "reg_step r (snd (set_image_source r h source))"
| reg_sets_ownership: "reg_step r (snd (set_runtime_ownership r h process space task pages))"
| reg_binds: "reg_step r (snd (bind_runtime_slot r h slot))"
| reg_sets_heartbeat: "reg_step r (snd (set_heartbeat r h beat))"
| reg_sets_counts: "reg_step r (snd (set_runtime_counts r h x y z))"
| reg_sets_heap: "reg_step r (snd (set_heap_pages r h pages))"
| reg_clears: "reg_step r (snd (clear_runtime_ownership r h))"
| reg_clears_execution: "reg_step r (snd (clear_execution_ownership r h))"
| reg_clears_resources: "reg_step r (snd (clear_execution_resources r h))"

definition reg_gen :: "registry \<Rightarrow> nat \<Rightarrow> nat" where
  "reg_gen r i = (if i < length (reg_slots r) then unat (rs_generation (reg_slots r ! i))
     else unat (reg_generation_seed r))"

definition reg_live :: "registry \<Rightarrow> nat \<Rightarrow> bool" where
  "reg_live r i \<longleftrightarrow> service_at r i \<noteq> None"

definition generation_moves :: "registry \<Rightarrow> registry \<Rightarrow> bool" where
  "generation_moves r r' \<longleftrightarrow> (\<forall>i. reg_gen r' i = reg_gen r i \<and> (reg_live r i \<longrightarrow> reg_live r' i)
     \<or> reg_gen r' i = cyc_next (2 ^ 32) (reg_gen r i))"

lemma touches_generation: "touches r r' \<Longrightarrow> generation_moves r r'"
  unfolding generation_moves_def
proof (intro allI disjI1 conjI)
  fix i
  assume t: "touches r r'"
  then show "reg_gen r' i = reg_gen r i" by (auto simp: touches_def reg_gen_def)
  have "rel_option (\<lambda>s s'. keeps s s' \<and> keeps_slot s s') (service_at r i) (service_at r' i)"
    using t by (simp add: touches_def)
  then show "reg_live r i \<longrightarrow> reg_live r' i" by (cases "service_at r i") (auto simp: reg_live_def option_rel_Some1)
qed

lemma bind_generation: "generation_moves r (snd (bind_runtime_slot r h slot))"
proof (cases "reg_service r h")
  case (Inr s)
  then have i: "unat (handle_index h) < length (reg_slots r)" by (simp add: reg_service_Ok service_at_Some)
  have "generation_moves r (put_service r (unat (handle_index h)) t)" for t
    using i by (auto simp: generation_moves_def reg_gen_def reg_live_def service_at_put [OF i])
      (auto simp: put_service_def nth_list_update)
  then show ?thesis using Inr
    by (auto simp: bind_runtime_slot_def own_mut_def service_mut_def touches_generation)
qed (auto simp: bind_runtime_slot_def own_mut_def service_mut_def touches_generation)

text \<open>A slot whose generation moved on.\<close>

lemma retire_generation:
  assumes "i < length (reg_slots r)" "rs_generation (reg_slots r ! i) = g" "rs_generation slot = wrapping_next g"
  shows "generation_moves r (r\<lparr>reg_slots := (reg_slots r)[i := slot]\<rparr>)"
  unfolding generation_moves_def
proof
  fix j
  let ?r = "r\<lparr>reg_slots := (reg_slots r)[i := slot]\<rparr>"
  show "reg_gen ?r j = reg_gen r j \<and> (reg_live r j \<longrightarrow> reg_live ?r j) \<or> reg_gen ?r j = cyc_next (2 ^ 32) (reg_gen r j)"
  proof (cases "j = i")
    case True
    then show ?thesis using assms unat_wrapping_next [of g] by (simp add: reg_gen_def)
  next
    case False
    then show ?thesis by (auto simp: reg_gen_def reg_live_def service_at_def slot_simps)
  qed
qed

lemma seed_generation: "g \<noteq> 0 \<Longrightarrow> max g 1 = g" for g :: u32
  by (rule max_absorb1) (simp add: word_le_nat_alt Suc_le_eq unat_gt_0)

lemma register_generation:
  assumes "reg_inv r" "length (reg_slots r) < 2 ^ 32"
  shows "generation_moves r (snd (register_with_source reserve r name img ds quota source))"
proof -
  obtain res r' where reg: "register_with_source reserve r name img ds quota source = (res, r')" by fastforce
  note out = register_outcome [OF reg assms]
  have new: "reg_slots r' ! j = x \<Longrightarrow> rs_generation x = reg_generation_seed r"
    if "length (reg_slots r) \<le> j" "j < length (reg_slots r')" for j x
    using reg that assms(1)
    by (auto simp: register_with_source_def allocate_slot_def put_service_def slot_with_generation_def nth_append
        seed_generation reg_inv_def state_bind_def nth_list_update
        split: if_splits prod.splits sum.splits option.splits)
  have seed: "reg_generation_seed r' = reg_generation_seed r"
    using reg by (auto simp: register_with_source_def allocate_slot_def put_service_def state_bind_def
        split: if_splits prod.splits sum.splits option.splits)
  have "reg_gen r' i = reg_gen r i" for i
    using out new [of i] seed by (auto simp: reg_gen_def not_less)
  moreover have "reg_live r i \<longrightarrow> reg_live r' i" for i using out by (auto simp: reg_live_def)
  ultimately show ?thesis by (simp add: reg generation_moves_def)
qed

lemma remove_generation: "reg_inv r \<Longrightarrow> generation_moves r (snd (reg_remove r h))"
  using remove_outcome [of r h "fst (reg_remove r h)" "snd (reg_remove r h)"]
  by (auto simp: Let_def touches_generation intro!: retire_generation [where g = "handle_generation h"])

lemma replace_generation_moves: "reg_inv r \<Longrightarrow> generation_moves r (snd (replace_generation r h))"
  using replace_outcome [of r h "fst (replace_generation r h)" "snd (replace_generation r h)"]
  by (auto simp: Let_def touches_generation intro!: retire_generation [where g = "handle_generation h"])

lemmas touch_lemmas = attributes_touch ownership_touch image_dependencies_touch reg_stop_touches lifecycle_touch
  abort_members_touches reg_start_touches reg_restart_touches begin_action_touches

lemma reg_step_sound:
  assumes "reg_step r r'" "reg_inv r"
  shows "reg_inv r' \<and> generation_moves r r'"
proof -
  have t: "reg_inv x \<and> generation_moves r x" if "touches r x" for x
    using reg_inv_touches [OF that assms(2)] touches_generation [OF that] by simp
  from assms show ?thesis
  proof (induction rule: reg_step.induct)
    case (reg_registers r reserve name img ds quota source)
    then show ?case
      using register_outcome [of reserve r name img ds quota source] register_generation [of r reserve name img ds quota source]
      by (metis prod.collapse)
  next
    case (reg_removes r h)
    then show ?case using remove_outcome [of r h] remove_generation [of r h] by (metis prod.collapse)
  next
    case (reg_replaces r h)
    then show ?case using replace_outcome [of r h] replace_generation_moves [of r h] by (metis prod.collapse)
  next
    case (reg_binds r h slot)
    then show ?case by (simp add: bind_inv bind_generation)
  qed (auto intro: touch_lemmas reg_inv_touches touches_generation)
qed

lemma reg_inv_new: "reg_inv (registry_new_with_generation g)"
  by (rule reg_invI) (auto simp: registry_new_with_generation_def service_at_def slice_get_def max_def word_le_nat_alt)

lemma reg_inv_reachable: "reg_step\<^sup>*\<^sup>* (registry_new_with_generation g) r \<Longrightarrow> reg_inv r"
  by (induction rule: rtranclp_induct) (auto intro: reg_inv_new dest: reg_step_sound)

interpretation service_slots: generation_slots "2 ^ 32" reg_step reg_inv reg_gen reg_live
proof
  fix r r' :: registry and i
  assume inv: "reg_inv r"
  show "0 < reg_gen r i \<and> reg_gen r i < 2 ^ 32"
    using inv u32_bound [of "rs_generation (reg_slots r ! i)"] u32_bound [of "reg_generation_seed r"]
    by (auto simp: reg_gen_def reg_inv_def unat_gt_0)
  assume "reg_step r r'"
  then have sound: "reg_inv r'" "generation_moves r r'" using reg_step_sound inv by blast+
  then show "reg_inv r'" by simp
  show "reg_gen r' i = reg_gen r i \<or> reg_gen r' i = cyc_next (2 ^ 32) (reg_gen r i)"
    using sound(2) by (auto simp: generation_moves_def)
  assume "reg_live r i" "\<not> reg_live r' i"
  then have "reg_gen r' i = cyc_next (2 ^ 32) (reg_gen r i)" using sound(2) by (auto simp: generation_moves_def)
  then show "reg_gen r' i \<noteq> reg_gen r i" using cyc_next_neq [of "2 ^ 32" "reg_gen r i"] by simp
qed simp

lemma stop_members_Ok:
  assumes "\<forall>h \<in> set hs. result_is_ok (reg_service r h)"
  shows "\<exists>r'. stop_members r hs = (Ok (), r')
    \<and> (\<forall>g. reg_service r' g = (if g \<in> set hs then map_sum id (\<lambda>s. s\<lparr>rg_state := RgStopping\<rparr>) (reg_service r g) else reg_service r g))"
  using assms
proof (induction hs arbitrary: r)
  case (Cons h hs)
  let ?f = "\<lambda>s. s\<lparr>rg_state := RgStopping\<rparr>"
  obtain s where s: "reg_service r h = Ok s" using Cons.prems by (cases "reg_service r h") auto
  let ?r = "put_service r (unat (handle_index h)) (?f s)"
  have look: "reg_service ?r g = (if g = h then Ok (?f s) else reg_service r g)" for g
    by (rule service_mut_lookup(2) [OF s])
  have "\<forall>g \<in> set hs. result_is_ok (reg_service ?r g)" using Cons.prems by (simp only: look) simp
  from Cons.IH [OF this] obtain r' where r': "stop_members ?r hs = (Ok (), r')"
    "\<And>g. reg_service r' g = (if g \<in> set hs then map_sum id ?f (reg_service ?r g) else reg_service ?r g)" by blast
  have "reg_service r' g = (if g \<in> set (h # hs) then map_sum id ?f (reg_service r g) else reg_service r g)" for g
    unfolding r'(2) look using s by auto
  moreover have "stop_members r (h # hs) = (Ok (), r')" using r'(1) by (simp add: service_mut_lookup(1) [OF s])
  ultimately show ?case by blast
qed simp

section \<open>A concrete registry\<close>

text \<open>Service 0 and service 1, which depends on it.\<close>

definition demo_service :: "u64 \<Rightarrow> service_handle list \<Rightarrow> reg_state \<Rightarrow> service_entry" where
  "demo_service index ds st = \<lparr>rg_handle = Handle (0x100000000 + index), rg_name = [115], rg_image = [1],
     rg_dependencies = ds, rg_state = st, rg_epoch = 1, rg_restarts = 0, rg_heap_quota_pages = 4,
     rg_manager_rights = RIGHTS_NONE, rg_image_source = BuiltinImage, rg_ownership = ownership_empty\<rparr>"

definition demo_registry :: "reg_state \<Rightarrow> registry" where
  "demo_registry st = \<lparr>reg_slots =
     [\<lparr>rs_generation = 1, rs_value = Some (demo_service 0 [] st)\<rparr>,
      \<lparr>rs_generation = 1, rs_value = Some (demo_service 1 [Handle 0x100000000] st)\<rparr>], reg_generation_seed = 1\<rparr>"

lemma demo_fields [simp]:
  "handle_index (Handle 0x100000000) = 0" "handle_generation (Handle 0x100000000) = 1"
  "handle_index (Handle 0x100000001) = 1" "handle_generation (Handle 0x100000001) = 1"
  by (simp_all add: handle_index_def handle_generation_def)

lemma demo_lookup:
  "reg_service (demo_registry st) (Handle 0x100000000) = Ok (demo_service 0 [] st)"
  "reg_service (demo_registry st) (Handle 0x100000001) = Ok (demo_service 1 [Handle 0x100000000] st)"
  by (simp_all add: reg_service_def reg_index_def slice_get_def demo_registry_def)

lemma demo_states [simp]:
  "rg_state (demo_service i ds st) = st" "rg_dependencies (demo_service i ds st) = ds"
  "rg_handle (demo_service i ds st) = Handle (0x100000000 + i)"
  by (simp_all add: demo_service_def)

section \<open>Properties\<close>

text \<open>
  C4: Starting a service. When the start succeeds, the service runs, every service that was
  started has all of its dependencies running, and nothing that ran stopped. When it fails, the
  registry is unchanged, and the error names the cause: a stopped service on the way to a
  dependency that does not resolve, or a cycle of stopped services.
\<close>

theorem start_outcome:
  assumes "reg_start r h = (res, r')"
  shows "case res of
      Inr _ \<Rightarrow> running r' h \<and> (\<forall>g. running r g \<longrightarrow> running r' g)
        \<and> (\<forall>g. running r' g \<and> \<not> running r g \<longrightarrow>
             (\<exists>s. reg_service r g = Ok s \<and> (\<forall>d \<in> set (rg_dependencies s). running r' d)))
    | Inl e \<Rightarrow> r' = r \<and> blocked r e h"
proof (cases "collect_start_order r h [] []")
  case (Inl e)
  then show ?thesis using assms collect_fails(1) [OF Inl] by (auto simp: reg_start_def)
next
  case (Inr order)
  have top: "topological r order" and h: "h \<in> set order \<or> running r h"
    using collect_sound(1) [OF Inr] by (auto simp: extends_def)
  obtain r1 where r1: "apply_start_order r order = (Ok (), r1)"
    "\<forall>g. reg_service r1 g = (if g \<in> set order then map_sum id set_running (reg_service r g) else reg_service r g)"
    using apply_start_order_Ok [of order r] topological_live [OF top] by blast
  have r': "res = Ok ()" "r' = r1" using assms Inr r1(1) by (simp_all add: reg_start_def)
  note run = running_after [OF top r1(2)]
  have "\<exists>s. reg_service r g = Ok s \<and> (\<forall>d \<in> set (rg_dependencies s). running r1 d)" if g: "g \<in> set order" for g
  proof -
    obtain xs ys where order: "order = xs @ g # ys" using split_list [OF g] by blast
    then obtain s where "reg_service r g = Ok s" "\<forall>d \<in> set (rg_dependencies s). d \<in> set xs \<or> running r d"
      using top unfolding topological_def by blast
    then show ?thesis using order by (auto simp: run)
  qed
  then show ?thesis using h run by (auto simp: r')
qed

theorem start_outcome_witness:
  "running (snd (reg_start (demo_registry RgStopped) (Handle 0x100000001))) (Handle 0x100000001)"
proof -
  let ?r = "demo_registry RgStopped"
  have "collect_start_order ?r (Handle 0x100000001) [] [] = Ok [Handle 0x100000000, Handle 0x100000001]"
    by (simp add: collect_start_order.simps demo_lookup)
  then have "fst (reg_start ?r (Handle 0x100000001)) = Ok ()"
    using apply_start_order_Ok [of "[Handle 0x100000000, Handle 0x100000001]" ?r]
    by (auto simp: reg_start_def demo_lookup)
  then have "reg_start ?r (Handle 0x100000001) = (Ok (), snd (reg_start ?r (Handle 0x100000001)))"
    by (metis prod.collapse)
  from start_outcome [OF this] show ?thesis by simp
qed

text \<open>
  C15: Restarting a service stops exactly the service and its running dependents, directly and
  through other services, in an order in which every member comes before the members it depends
  on; the members are stopping afterwards and no other service changes.
\<close>

theorem restart_action_outcome:
  assumes "begin_lifecycle_action reserve r MgRestart h = (Ok action, r')" "reg_inv r"
  shows "\<exists>order. action = LaRestart order \<and> distinct order \<and> set order = {g. (depends_running r)\<^sup>*\<^sup>* h g}
    \<and> (\<forall>xs g ys. order = xs @ g # ys \<longrightarrow>
         (\<exists>s. reg_service r g = Ok s \<and> (\<forall>d \<in> set (rg_dependencies s). d \<noteq> g \<and> d \<notin> set xs)))
    \<and> (\<forall>g. if g \<in> set order then reg_get_state r' g = Ok RgStopping else reg_service r' g = reg_service r g)"
proof -
  obtain order where order: "restart_closure reserve r h = Ok order"
    and stop: "action = LaRestart order" "stop_members r order = (Ok (), r')"
    using assms(1)
    by (auto simp: begin_lifecycle_action_def Let_def state_bind_def split: sum.splits if_splits prod.splits)
  note closure = restart_closure_sound [OF order assms(2)]
  have later: "\<exists>s. reg_service r g = Ok s \<and> (\<forall>d \<in> set (rg_dependencies s). d \<noteq> g \<and> d \<notin> set xs)"
    if "order = xs @ g # ys" for xs g ys
  proof -
    have "rev order = rev ys @ g # rev xs" using that by simp
    then show ?thesis using closure unfolding dependencies_first_def by (metis set_rev)
  qed
  have live: "result_is_ok (reg_service r g)" if "g \<in> set order" for g
    using split_list [OF that] later by (metis result_is_ok.simps(1))
  have "if g \<in> set order then reg_get_state r' g = Ok RgStopping else reg_service r' g = reg_service r g" for g
    using stop_members_Ok [of order r] live live [of g] stop(2)
    by (cases "reg_service r g") (auto simp: reg_get_state_def)
  then show ?thesis using closure later stop(1) by blast
qed

lemma demo_registry_inv: "reg_inv (demo_registry st)"
proof -
  have at: "service_at (demo_registry st) i = Some s \<longleftrightarrow>
      i = 0 \<and> s = demo_service 0 [] st \<or> i = 1 \<and> s = demo_service 1 [Handle 0x100000000] st" for i s
    by (auto simp: service_at_Some demo_registry_def less_Suc_eq)
  have ok: "service_ok 0 1 (demo_service 0 [] st)" "service_ok 1 1 (demo_service 1 [Handle 0x100000000] st)"
    by (simp_all add: service_ok_def handle_new_Some) (simp_all add: demo_service_def)
  have size: "length (reg_slots (demo_registry st)) = 2" "reg_generation_seed (demo_registry st) = 1"
    by (simp_all add: demo_registry_def)
  have gens: "i < 2 \<Longrightarrow> rs_generation (reg_slots (demo_registry st) ! i) = 1" for i
    by (auto simp: demo_registry_def numeral_2_eq_2 less_Suc_eq)
  have unbound: "ow_runtime_slot (rg_ownership (demo_service i ds st)) = None" for i ds
    by (simp add: demo_service_def ownership_empty_def)
  show ?thesis
    by (rule reg_invI) (use ok in \<open>auto simp: at size gens unbound\<close>)
qed

theorem restart_action_outcome_witness:
  "reg_get_state (snd (begin_lifecycle_action (\<lambda>_ _. True) (demo_registry RgRunning) MgRestart (Handle 0x100000000)))
     (Handle 0x100000001) = Ok RgStopping"
proof -
  let ?r = "demo_registry RgRunning" and ?a = "Handle 0x100000000 :: service_handle" and ?b = "Handle 0x100000001 :: service_handle"
  let ?x = "begin_lifecycle_action (\<lambda>_ _. True) ?r MgRestart ?a"
  have ss: "reg_services ?r = [demo_service 0 [] RgRunning, demo_service 1 [?a] RgRunning]"
    by (simp add: reg_services_def demo_registry_def map_filter_def)
  have "restart_grow (\<lambda>_ _. True) (reg_services ?r) [?a] = Ok [?a, ?b]"
    unfolding ss by (subst restart_grow.simps, simp, subst restart_grow.simps, simp)
  moreover have "restart_order ?r [?a, ?b] [] = Ok [?a, ?b]"
    by (subst restart_order.simps, simp add: restart_ready_def demo_lookup swap_remove_def,
        subst restart_order.simps, simp add: restart_ready_def demo_lookup swap_remove_def,
        subst restart_order.simps, simp)
  ultimately have "restart_closure (\<lambda>_ _. True) ?r ?a = Ok [?b, ?a]"
    by (simp add: restart_closure_def demo_lookup)
  then have "fst ?x = Ok (LaRestart [?b, ?a])"
    using stop_members_Ok [of "[?b, ?a]" ?r]
    by (auto simp: begin_lifecycle_action_def lifecycle_status_def demo_lookup)
  then have "?x = (Ok (LaRestart [?b, ?a]), snd ?x)" by (metis prod.collapse)
  from restart_action_outcome [OF this demo_registry_inv] show ?thesis by (auto dest: spec [of _ ?b])
qed

text \<open>
  A removed service stays gone: the removed handle resolves to nothing, in every later state
  of the registry, until its slot was retired \<open>2 ^ 32 - 2\<close> more times.
\<close>

theorem removed_service_stays_dead:
  assumes "reg_step\<^sup>*\<^sup>* (registry_new_with_generation g) r" "reg_remove r h = (Ok (), r1)"
    "retire_run reg_step (\<lambda>r. reg_gen r (unat (handle_index h))) r1 k u" "k < 2 ^ 32 - 2"
  shows "reg_service u h = Err RgStale"
proof -
  let ?i = "unat (handle_index h)"
  have inv: "reg_inv r" by (rule reg_inv_reachable) fact
  have i: "?i < length (reg_slots r)" "rs_generation (reg_slots r ! ?i) = handle_generation h" "service_at r ?i \<noteq> None"
    "service_at r1 ?i = None"
    using assms(2)
    by (auto simp: reg_remove_def reg_index_Ok service_at_def slice_get_def split: sum.splits if_splits)
  have "reg_step r r1" using reg_removes [of r h] assms(2) by simp
  with inv have "reg_gen u ?i \<noteq> reg_gen r ?i"
    using i assms(3,4) by (intro service_slots.freed_handle_dead [of r r1 ?i k u]) (simp_all add: reg_live_def)
  then have "rs_generation (reg_slots u ! ?i) \<noteq> handle_generation h \<or> length (reg_slots u) \<le> ?i"
    using i by (cases "?i < length (reg_slots u)") (auto simp: reg_gen_def)
  then show ?thesis by (auto simp: reg_service_def reg_index_def Let_def slice_get_def)
qed

definition demo_registered :: "(reg_error + service_handle) \<times> registry" where
  "demo_registered = register_with_source (\<lambda>_ _. True) (registry_new_with_generation 1) [115] [1] [] 4 BuiltinImage"

lemma demo_registered_eq:
  "demo_registered = (Ok (Handle 0x100000000),
     \<lparr>reg_slots = [\<lparr>rs_generation = 1, rs_value = Some (demo_service 0 [] RgStopped)\<rparr>], reg_generation_seed = 1\<rparr>)"
proof -
  have "handle_new 0 1 = Some (Handle 0x100000000 :: service_handle)" by (simp add: handle_new_Some)
  then show ?thesis
    by (simp add: demo_registered_def register_with_source_def allocate_slot_def registry_new_with_generation_def
        slot_with_generation_def put_service_def demo_service_def)
qed

lemma demo_registered_reachable: "reg_step\<^sup>*\<^sup>* (registry_new_with_generation 1) (snd demo_registered)"
  unfolding demo_registered_def
  by (rule r_into_rtranclp, rule reg_registers) (simp add: registry_new_with_generation_def)

theorem removed_service_stays_dead_witness:
  "reg_service (snd (reg_remove (snd demo_registered) (Handle 0x100000000))) (Handle 0x100000000) = Err RgStale"
proof -
  let ?r = "snd demo_registered" and ?h = "Handle 0x100000000 :: service_handle"
  have "fst (reg_remove ?r ?h) = Ok ()"
    by (simp add: demo_registered_eq reg_remove_def reg_index_def slice_get_def reg_services_def map_filter_def)
  then have "reg_remove ?r ?h = (Ok (), snd (reg_remove ?r ?h))" by (metis prod.collapse)
  from removed_service_stays_dead [OF demo_registered_reachable this run_refl] show ?thesis by simp
qed

text \<open>
  C39: In every reachable registry a runtime slot belongs to at most one service.
\<close>

theorem runtime_slots_exclusive:
  assumes "reg_step\<^sup>*\<^sup>* (registry_new_with_generation seed) r"
    "reg_get_runtime_slot r g = Ok (Some slot)" "reg_get_runtime_slot r h = Ok (Some slot)"
  shows "g = h"
proof -
  have inv: "reg_inv r" by (rule reg_inv_reachable) fact
  obtain s t where s: "reg_service r g = Ok s" "ow_runtime_slot (rg_ownership s) = Some slot"
    and t: "reg_service r h = Ok t" "ow_runtime_slot (rg_ownership t) = Some slot"
    using assms(2,3) by (cases "reg_service r g"; cases "reg_service r h") (auto simp: reg_get_runtime_slot_def)
  then have "unat (handle_index g) = unat (handle_index h)"
    using runtime_slot_unique [OF inv] by (simp add: reg_service_Ok)
  then show ?thesis using s t by (simp add: reg_service_Ok handle_eq_fields unat_inject)
qed

theorem runtime_slots_exclusive_witness:
  "\<exists>r. reg_get_runtime_slot r (Handle 0x100000000) = Ok (Some 7) \<and>
     (\<forall>h. reg_get_runtime_slot r h = Ok (Some 7) \<longrightarrow> h = Handle 0x100000000)"
proof -
  let ?h = "Handle 0x100000000 :: service_handle"
  let ?r = "snd (bind_runtime_slot (snd demo_registered) ?h 7)"
  have "reg_step (snd demo_registered) ?r" by (rule reg_binds)
  then have "reg_step\<^sup>*\<^sup>* (registry_new_with_generation 1) ?r"
    using demo_registered_reachable by (rule rtranclp.rtrancl_into_rtrancl [rotated])
  moreover have "reg_get_runtime_slot ?r ?h = Ok (Some 7)"
    by (simp add: demo_registered_eq bind_runtime_slot_def own_mut_def service_mut_def reg_service_def reg_index_def
        slice_get_def reg_services_def map_filter_def put_service_def reg_get_runtime_slot_def)
  ultimately show ?thesis using runtime_slots_exclusive by blast
qed

end
