(* ===== verification/Service_Queries.thy ===== *)
theory Service_Queries
  imports Service_Graph
begin

text \<open>
  The read-only requests to the service registry, \<open>src/runtime_services.rs\<close>: the shape check of a
  manager request, the manager's status and list answers, and the directory pages. A client that
  follows the cursors of the directory sees every service exactly once; a client that follows the
  cursors of the manager's list does so only while no slot is vacant.
\<close>

section \<open>Manager requests\<close>

definition service_request_shape_valid :: "manager_request \<Rightarrow> bool" where
  "service_request_shape_valid q =
     (if mrq_abi_version q \<noteq> MANAGER_ABI_VERSION \<or> mrq_request_id q = 0 \<or> mrq_target_kind q \<noteq> MtService
         \<or> mrq_reserved_tail q \<noteq> [0, 0] \<or> unat (mrq_name_len q) > length (mrq_name q)
         \<or> list_ex (\<lambda>b. b \<noteq> 0) (drop (unat (mrq_name_len q)) (mrq_name q))
      then False
      else if mrq_operation q = MgList
      then mrq_service q = handle_empty \<and> mrq_program_generation q = 0 \<and> mrq_program_slot q = 255
      else if mrq_operation q \<in> {MgStatus, MgStart, MgStop, MgRestart}
      then handle_is_valid (mrq_service q) \<and> mrq_program_slot q = 255 \<and> mrq_program_generation q = 0
           \<and> mrq_cursor q = 0
      else if mrq_operation q = MgRegister
      then mrq_service q = handle_empty \<and> mrq_program_slot q = 255 \<and> mrq_program_generation q = 0
           \<and> mrq_cursor q = 0
           \<and> package_target_program (take (unat (mrq_name_len q)) (mrq_name q)) \<noteq> None
      else False)"

fun manager_state_of :: "reg_state \<Rightarrow> manager_state" where
  "manager_state_of RgDisabled = MDisabled"
| "manager_state_of RgStopped = MStopped"
| "manager_state_of RgStarting = MStarting"
| "manager_state_of RgRunning = MRunning"
| "manager_state_of RgStopping = MStopping"
| "manager_state_of RgFailed = MFailed"

definition reg_manager_record :: "registry \<Rightarrow> service_handle \<Rightarrow> reg_error + manager_record" where
  "reg_manager_record r h =
     result_bind (reg_service r h) (\<lambda>s.
       let name_len = min (length (rg_name s)) MAX_PACKAGE_NAME_BYTES
       in Ok \<lparr>mr_service = rg_handle s, mr_state = manager_state_of (rg_state s), mr_restarts = rg_restarts s,
              mr_name_len = of_nat name_len, mr_dependencies = of_nat (min (length (rg_dependencies s)) 65535),
              mr_reserved = [0, 0], mr_program_slot = 255, mr_reserved_program = [0, 0, 0],
              mr_program_generation = 0,
              mr_name = take name_len (rg_name s) @ replicate (MAX_PACKAGE_NAME_BYTES - name_len) 0\<rparr>)"

definition live_indices :: "registry \<Rightarrow> nat list" where
  "live_indices r = filter (\<lambda>i. rs_value (reg_slots r ! i) \<noteq> None) [0 ..< length (reg_slots r)]"

text \<open>\<open>Iterator::find_map\<close>.\<close>

fun find_map :: "('a \<Rightarrow> 'b option) \<Rightarrow> 'a list \<Rightarrow> 'b option" where
  "find_map f [] = None"
| "find_map f (x # xs) = (case f x of None \<Rightarrow> find_map f xs | Some y \<Rightarrow> Some y)"

definition next_manager_record :: "registry \<Rightarrow> nat \<Rightarrow> (nat \<times> manager_record) option" where
  "next_manager_record r cursor =
     find_map (\<lambda>index. Option.bind (rs_value (reg_slots r ! index)) (\<lambda>s.
         case reg_manager_record r (rg_handle s) of
           Inl _ \<Rightarrow> None
         | Inr m \<Rightarrow> Some (index + 1, m)))
       (drop cursor (live_indices r))"

definition reg_manager_request :: "registry \<Rightarrow> manager_request \<Rightarrow> manager_response" where
  "reg_manager_request r q =
     (let response = manager_response_new (mrq_operation q) MsMalformed (mrq_request_id q)
      in if \<not> service_request_shape_valid q then response
         else if mrq_operation q = MgList then
           (case next_manager_record r (unat (mrq_cursor q)) of
              None \<Rightarrow> response\<lparr>mrp_status := MsOk, mrp_cursor := - 1\<rparr>
            | Some (n, m) \<Rightarrow> response\<lparr>mrp_status := MsOk, mrp_cursor := of_nat n, mrp_record := m\<rparr>)
         else if mrq_operation q = MgStatus then
           (case reg_manager_record r (mrq_service q) of
              Inl _ \<Rightarrow> response\<lparr>mrp_status := MsStale\<rparr>
            | Inr m \<Rightarrow> response\<lparr>mrp_status := MsOk, mrp_record := m\<rparr>)
         else response\<lparr>mrp_status := MsUnsupported\<rparr>)"

section \<open>Directory pages\<close>

fun directory_state_flag :: "reg_state \<Rightarrow> u16" where
  "directory_state_flag RgDisabled = 2"
| "directory_state_flag RgStopped = 0"
| "directory_state_flag RgStarting = 1"
| "directory_state_flag RgRunning = 1"
| "directory_state_flag RgStopping = 0"
| "directory_state_flag RgFailed = 0"

text \<open>The live slots from the cursor on, with their services.\<close>

definition live_from :: "registry \<Rightarrow> nat \<Rightarrow> (nat \<times> service_entry) list" where
  "live_from r start = List.map_filter (\<lambda>i. map_option (Pair i) (rs_value (reg_slots r ! i)))
     [start ..< length (reg_slots r)]"

text \<open>The loop of \<open>list\<close>: the records, their number, and the index where a full page stopped.\<close>

fun list_page ::
    "(nat \<times> service_entry) list \<Rightarrow> directory_record list \<Rightarrow> nat
      \<Rightarrow> unit fault + (directory_record list \<times> nat \<times> nat option)" where
  "list_page [] records written = Ok (records, written, None)"
| "list_page ((index, s) # rest) records written =
     (if written = DIRECTORY_RECORDS_PER_PAGE then Ok (records, written, Some index)
      else case directory_record_service (rg_handle s) (rg_name s) of
        None \<Rightarrow> Err Panicked
      | Some rec \<Rightarrow>
          list_page rest (records[written := rec\<lparr>dr_flags := directory_state_flag (rg_state s)\<rparr>]) (Suc written))"

definition reg_list ::
    "registry \<Rightarrow> u64 \<Rightarrow> directory_response \<Rightarrow> u32 \<Rightarrow> unit fault + (directory_status \<times> directory_response)" where
  "reg_list r cursor response request_id =
     (if request_id = 0 then Ok (DsMalformed, response)
      else
        let response = directory_response_empty DirServices DsOk request_id
        in result_bind (list_page (live_from r (unat cursor)) (drp_records response) 0)
             (\<lambda>(records, written, more).
                Ok (DsOk, response\<lparr>drp_records := records, drp_count := of_nat written,
                  drp_flags := (case more of None \<Rightarrow> drp_flags response
                                | Some _ \<Rightarrow> drp_flags response OR DIRECTORY_FLAG_MORE),
                  drp_cursor := (case more of None \<Rightarrow> - 1 | Some index \<Rightarrow> of_nat index)\<rparr>)))"

section \<open>One page\<close>

definition page_record :: "service_entry \<Rightarrow> directory_record" where
  "page_record s = (case directory_record_service (rg_handle s) (rg_name s) of
     None \<Rightarrow> directory_record_empty | Some rec \<Rightarrow> rec\<lparr>dr_flags := directory_state_flag (rg_state s)\<rparr>)"

definition listable :: "service_entry \<Rightarrow> bool" where
  "listable s \<longleftrightarrow> directory_record_service (rg_handle s) (rg_name s) \<noteq> None"

lemma list_page_result:
  assumes "\<forall>(i, s) \<in> set xs. listable s" "written \<le> 32" "length records = 32"
  shows "list_page xs records written =
    Ok (take written records @ map (page_record \<circ> snd) (take (32 - written) xs) @ drop (written + length xs) records,
        min 32 (written + length xs),
        if written + length xs \<le> 32 then None else Some (fst (xs ! (32 - written))))"
  using assms
proof (induction xs arbitrary: records written)
  case (Cons x xs)
  obtain i s where x: "x = (i, s)" by (cases x)
  show ?case
  proof (cases "written = 32")
    case True
    then show ?thesis using Cons.prems(3) by (simp add: x)
  next
    case False
    then have w: "written < 32" using Cons.prems(2) by simp
    obtain rec where rec: "directory_record_service (rg_handle s) (rg_name s) = Some rec"
      using Cons.prems(1) by (auto simp: x listable_def)
    let ?rs = "records[written := page_record s]"
    have "list_page (x # xs) records written = list_page xs ?rs (Suc written)"
      using w rec by (simp add: x page_record_def)
    also have "\<dots> = Ok (take (Suc written) ?rs @ map (page_record \<circ> snd) (take (32 - Suc written) xs)
        @ drop (Suc written + length xs) ?rs, min 32 (Suc written + length xs),
        if Suc written + length xs \<le> 32 then None else Some (fst (xs ! (32 - Suc written))))"
      using Cons.prems w by (intro Cons.IH) auto
    also have "take (Suc written) ?rs = take written records @ [page_record s]"
      using w Cons.prems(3) by (simp add: take_Suc_conv_app_nth take_update_cancel)
    finally show ?thesis using w by (simp add: x Suc_diff_Suc take_Cons' nth_Cons')
  qed
qed simp

lemma set_live_from: "(i, s) \<in> set (live_from r c) \<longleftrightarrow> c \<le> i \<and> service_at r i = Some s"
  by (auto simp: live_from_def map_filter_def service_at_Some image_iff)

lemma reg_inv_listable:
  assumes "reg_inv r" "service_at r i = Some s"
  shows "listable s"
proof -
  have "handle_new (of_nat i) (rs_generation (reg_slots r ! i)) = Some (rg_handle s)" "rg_name s \<noteq> []"
    "length (rg_name s) \<le> MAX_SERVICE_NAME_BYTES"
    using assms by (auto simp: reg_inv_def service_ok_def)
  then show ?thesis by (simp add: listable_def directory_record_service_def handle_is_valid_def handle_new_Some)
qed

text \<open>The page after the one that stopped at the index of entry \<open>n\<close> starts with entry \<open>n\<close>.\<close>

lemma live_from_Suc:
  "live_from r c = (if c < length (reg_slots r)
     then (case rs_value (reg_slots r ! c) of None \<Rightarrow> live_from r (Suc c) | Some s \<Rightarrow> (c, s) # live_from r (Suc c))
     else [])"
  by (auto simp: live_from_def map_filter_def upt_conv_Cons split: option.splits)

lemma live_from_drop:
  assumes "n < length (live_from r c)"
  shows "live_from r (fst (live_from r c ! n)) = drop n (live_from r c)"
  using assms
proof (induction "length (reg_slots r) - c" arbitrary: c n rule: less_induct)
  case less
  show ?case
  proof (cases "c < length (reg_slots r)")
    case True
    then have smaller: "length (reg_slots r) - Suc c < length (reg_slots r) - c" by simp
    show ?thesis
    proof (cases "rs_value (reg_slots r ! c)")
      case None
      then have "live_from r c = live_from r (Suc c)" using True by (subst live_from_Suc) simp
      then show ?thesis using less.hyps [OF smaller] less.prems by simp
    next
      case (Some s)
      then have here: "live_from r c = (c, s) # live_from r (Suc c)" using True by (subst live_from_Suc) simp
      show ?thesis
      proof (cases n)
        case 0
        then show ?thesis using here by simp
      next
        case (Suc k)
        then show ?thesis using here less.hyps [OF smaller, of k] less.prems by simp
      qed
    qed
  next
    case False
    then show ?thesis using less.prems live_from_Suc [of r c] by simp
  qed
qed

text \<open>A client that follows the cursors of the pages, for at most \<open>n\<close> pages.\<close>

primrec directory_walk :: "registry \<Rightarrow> nat \<Rightarrow> u64 \<Rightarrow> u64 list" where
  "directory_walk r 0 cursor = []"
| "directory_walk r (Suc n) cursor =
     (case reg_list r cursor (directory_response_empty DirServices DsOk 1) 1 of
        Inl _ \<Rightarrow> []
      | Inr (_, page) \<Rightarrow>
          map dr_handle (take (unat (drp_count page)) (drp_records page))
          @ (if drp_flags page AND DIRECTORY_FLAG_MORE = 0 then [] else directory_walk r n (drp_cursor page)))"

definition directory_page :: "registry \<Rightarrow> nat \<Rightarrow> u32 \<Rightarrow> directory_response" where
  "directory_page r c request_id =
     (let xs = live_from r c
      in (directory_response_empty DirServices DsOk request_id)\<lparr>
           drp_records := map (page_record \<circ> snd) (take 32 xs) @ replicate (32 - length xs) directory_record_empty,
           drp_count := of_nat (min 32 (length xs)), drp_flags := (if length xs \<le> 32 then 0 else 1),
           drp_cursor := (if length xs \<le> 32 then - 1 else of_nat (fst (xs ! 32)))\<rparr>)"

lemma reg_list_page:
  assumes "reg_inv r" "request_id \<noteq> 0"
  shows "reg_list r cursor response request_id = Ok (DsOk, directory_page r (unat cursor) request_id)"
proof -
  let ?xs = "live_from r (unat cursor)"
  have "\<forall>(i, s) \<in> set ?xs. listable s" using reg_inv_listable [OF assms(1)] by (auto simp: set_live_from)
  from list_page_result [OF this, of 0 "replicate 32 directory_record_empty"]
  have "list_page ?xs (replicate 32 directory_record_empty) 0 =
      Ok (map (page_record \<circ> snd) (take 32 ?xs) @ replicate (32 - length ?xs) directory_record_empty,
          min 32 (length ?xs), if length ?xs \<le> 32 then None else Some (fst (?xs ! 32)))" by simp
  then show ?thesis using assms(2)
    by (simp add: reg_list_def directory_page_def directory_response_empty_def Let_def)
qed

lemma page_record_handle: "listable s \<Longrightarrow> dr_handle (page_record s) = raw (rg_handle s)"
  by (auto simp: page_record_def listable_def directory_record_service_def split: option.splits if_splits)

section \<open>Properties\<close>

text \<open>
  C16: Listing services through the directory never panics in a reachable registry, and the walk
  is complete: a client that follows the cursors, starting anywhere and for enough pages, sees
  the handle of every live service from there on exactly once, in slot order.
\<close>

theorem directory_walk_complete:
  assumes reach: "reg_step\<^sup>*\<^sup>* (registry_new_with_generation seed) r"
    and fuel: "length (live_from r (unat cursor)) \<le> 32 * n" "0 < n"
  shows "directory_walk r n cursor = map (raw \<circ> rg_handle \<circ> snd) (live_from r (unat cursor))"
  using fuel
proof (induction n arbitrary: cursor)
  case (Suc n)
  have inv: "reg_inv r" by (rule reg_inv_reachable) fact
  let ?xs = "live_from r (unat cursor)"
  have handles: "map (dr_handle \<circ> (page_record \<circ> snd)) (take k ?xs) = map (raw \<circ> rg_handle \<circ> snd) (take k ?xs)" for k
    using reg_inv_listable [OF inv] set_live_from page_record_handle
    by (auto intro!: map_cong dest!: in_set_takeD)
  note page = reg_list_page [OF inv, of 1 cursor "directory_response_empty DirServices DsOk 1"]
  show ?case
  proof (cases "length ?xs \<le> 32")
    case True
    then show ?thesis using handles [of 32]
      by (simp add: page directory_page_def Let_def unat_of_nat_u8)
  next
    case False
    let ?i = "fst (?xs ! 32)"
    have more: "32 < length ?xs" using False by simp
    then have "?xs ! 32 \<in> set ?xs" by (rule nth_mem)
    then have "?i < length (reg_slots r)" using set_live_from [of ?i "snd (?xs ! 32)" r] by (simp add: service_at_Some)
    then have "?i < 2 ^ 32" using inv by (simp add: reg_inv_def)
    then have i: "unat (of_nat ?i :: u64) = ?i" by (simp add: unat_of_nat)
    have rest: "live_from r ?i = drop 32 ?xs" using live_from_drop [OF more] .
    have "0 < n" using Suc.prems(1) more by (cases n) auto
    then have "directory_walk r n (of_nat ?i) = map (raw \<circ> rg_handle \<circ> snd) (drop 32 ?xs)"
      using Suc.IH [of "of_nat ?i"] Suc.prems(1) by (simp add: i rest)
    then have "directory_walk r (Suc n) cursor = map (raw \<circ> rg_handle \<circ> snd) (take 32 ?xs @ drop 32 ?xs)"
      using more handles [of 32] by (simp add: page directory_page_def Let_def del: append_take_drop_id)
    then show ?thesis by simp
  qed
qed simp

section \<open>A registry with a vacant slot\<close>

text \<open>Three services are registered and the first is removed.\<close>

definition demo_second :: registry where
  "demo_second = snd (register_with_source (\<lambda>_ _. True) (snd demo_registered) [115] [1] [] 4 BuiltinImage)"

definition demo_third :: registry where
  "demo_third = snd (register_with_source (\<lambda>_ _. True) demo_second [115] [1] [] 4 BuiltinImage)"

definition demo_hole :: registry where
  "demo_hole = snd (reg_remove demo_third (Handle 0x100000000))"

lemma demo_handle_new:
  "handle_new 1 1 = Some (Handle 0x100000001 :: service_handle)"
  "handle_new 2 1 = Some (Handle 0x100000002 :: service_handle)"
  by (simp_all add: handle_new_Some handle_index_def handle_generation_def)

lemma demo_hole_reachable: "reg_step\<^sup>*\<^sup>* (registry_new_with_generation 1) demo_hole"
proof -
  have "length (reg_slots (snd demo_registered)) < 2 ^ 32" by (simp add: demo_registered_eq)
  then have 1: "reg_step (snd demo_registered) demo_second" unfolding demo_second_def by (rule reg_registers)
  have "length (reg_slots demo_second) \<le> 2"
    by (simp add: demo_second_def demo_registered_eq register_with_source_def allocate_slot_def
        slot_with_generation_def demo_handle_new put_service_def)
  then have 2: "reg_step demo_second demo_third" unfolding demo_third_def by (intro reg_registers) simp
  have 3: "reg_step demo_third demo_hole" unfolding demo_hole_def by (rule reg_removes)
  show ?thesis using demo_registered_reachable 1 2 3 by (meson rtranclp.rtrancl_into_rtrancl)
qed

lemma demo_second_eq:
  "demo_second = \<lparr>reg_slots = [\<lparr>rs_generation = 1, rs_value = Some (demo_service 0 [] RgStopped)\<rparr>,
     \<lparr>rs_generation = 1, rs_value = Some (demo_service 1 [] RgStopped)\<rparr>], reg_generation_seed = 1\<rparr>"
  by (simp add: demo_second_def demo_registered_eq register_with_source_def allocate_slot_def
      slot_with_generation_def demo_handle_new put_service_def demo_service_def)

lemma demo_hole_eq:
  "demo_hole = \<lparr>reg_slots = [\<lparr>rs_generation = 2, rs_value = None\<rparr>,
     \<lparr>rs_generation = 1, rs_value = Some (demo_service 1 [] RgStopped)\<rparr>,
     \<lparr>rs_generation = 1, rs_value = Some (demo_service 2 [] RgStopped)\<rparr>], reg_generation_seed = 1\<rparr>"
proof -
  have "demo_third = \<lparr>reg_slots = [\<lparr>rs_generation = 1, rs_value = Some (demo_service 0 [] RgStopped)\<rparr>,
     \<lparr>rs_generation = 1, rs_value = Some (demo_service 1 [] RgStopped)\<rparr>,
     \<lparr>rs_generation = 1, rs_value = Some (demo_service 2 [] RgStopped)\<rparr>], reg_generation_seed = 1\<rparr>"
    by (simp add: demo_third_def demo_second_eq register_with_source_def allocate_slot_def
        slot_with_generation_def demo_handle_new put_service_def demo_service_def)
  note third = this
  show ?thesis
    by (simp add: demo_hole_def third reg_remove_def reg_index_def slice_get_def reg_services_def map_filter_def
        reg_next_generation_def max_def word_le_nat_alt)
qed

lemma demo_hole_live: "live_from demo_hole 0 = [(1, demo_service 1 [] RgStopped), (2, demo_service 2 [] RgStopped)]"
  by (simp add: live_from_def demo_hole_eq map_filter_def upt_rec)

theorem directory_walk_complete_witness:
  "directory_walk demo_hole 1 0 = [0x100000001, 0x100000002]"
  using directory_walk_complete [OF demo_hole_reachable, of 0 1] by (simp add: demo_hole_live)

section \<open>The manager's list\<close>

definition list_request :: "u64 \<Rightarrow> manager_request" where
  "list_request cursor = (manager_request_new MgList 1)\<lparr>mrq_cursor := cursor\<rparr>"

text \<open>A client that follows the cursors of the manager's list until the end marker.\<close>

primrec manager_walk :: "registry \<Rightarrow> nat \<Rightarrow> u64 \<Rightarrow> service_handle list" where
  "manager_walk r 0 cursor = []"
| "manager_walk r (Suc n) cursor =
     (let response = reg_manager_request r (list_request cursor)
      in if mrp_cursor response = - 1 then []
         else mr_service (mrp_record response) # manager_walk r n (mrp_cursor response))"

lemma list_request_valid: "service_request_shape_valid (list_request c)"
  by (simp add: service_request_shape_valid_def list_request_def manager_request_new_def list_ex_iff)

text \<open>The list answers cursor \<open>c\<close> with the \<open>c\<close>-th live service, and the slot after it as the next cursor.\<close>

lemma next_manager_record_eq:
  assumes "reg_inv r"
  shows "if c < length (live_indices r)
    then \<exists>s m. service_at r (live_indices r ! c) = Some s \<and> mr_service m = rg_handle s
      \<and> next_manager_record r c = Some (Suc (live_indices r ! c), m)
    else next_manager_record r c = None"
proof (cases "c < length (live_indices r)")
  case True
  let ?i = "live_indices r ! c"
  have "?i \<in> set (live_indices r)" using True by (rule nth_mem)
  then obtain s where s: "service_at r ?i = Some s" by (auto simp: live_indices_def service_at_Some)
  have look: "reg_service r (rg_handle s) = Ok s" by (rule recorded_handle(3) [OF assms s])
  have "drop c (live_indices r) = ?i # drop (Suc c) (live_indices r)" using True by (rule Cons_nth_drop_Suc [symmetric])
  then show ?thesis using True s look
    by (simp add: next_manager_record_def reg_manager_record_def service_at_Some Let_def)
qed (simp add: next_manager_record_def)

lemma manager_walk_step:
  assumes "reg_inv r"
  shows "manager_walk r (Suc n) c =
    (if unat c < length (live_indices r)
     then rg_handle (the (service_at r (live_indices r ! unat c))) # manager_walk r n (of_nat (Suc (live_indices r ! unat c)))
     else [])"
proof (cases "unat c < length (live_indices r)")
  case True
  let ?i = "live_indices r ! unat c"
  obtain s m where m: "service_at r ?i = Some s" "mr_service m = rg_handle s"
    "next_manager_record r (unat c) = Some (Suc ?i, m)"
    using next_manager_record_eq [OF assms, of "unat c"] True by auto
  have "Suc ?i \<le> 2 ^ 32" using m(1) assms by (simp add: service_at_Some reg_inv_def)
  then have "unat (of_nat (Suc ?i) :: u64) = Suc ?i" by (simp add: unat_of_nat del: of_nat_Suc)
  moreover have "unat (- 1 :: u64) = 2 ^ 64 - 1" by (simp add: unsigned_minus_1_eq_mask mask_eq_exp_minus_1)
  ultimately have "(of_nat (Suc ?i) :: u64) \<noteq> - 1"
    using \<open>Suc ?i \<le> 2 ^ 32\<close> by (auto simp del: of_nat_Suc dest!: arg_cong [of _ _ unat])
  then show ?thesis using True m list_request_valid [of c]
    by (simp add: reg_manager_request_def list_request_def manager_request_new_def Let_def del: of_nat_Suc)
next
  case False
  then show ?thesis using next_manager_record_eq [OF assms, of "unat c"] list_request_valid [of c]
    by (simp add: reg_manager_request_def list_request_def manager_request_new_def Let_def)
qed

text \<open>
  C40: The manager's list skips services. The cursor it returns is a slot index, but it reads a
  cursor as a number of live services. In a registry that three registrations and one removal
  produce, a client that follows the cursors is told the end after one of the two live services.
\<close>

theorem manager_list_skips_services:
  "reg_step\<^sup>*\<^sup>* (registry_new_with_generation 1) demo_hole
   \<and> manager_walk demo_hole (Suc (Suc n)) 0 = [Handle 0x100000001]
   \<and> result_is_ok (reg_service demo_hole (Handle 0x100000002))"
proof (intro conjI)
  show "reg_step\<^sup>*\<^sup>* (registry_new_with_generation 1) demo_hole" by (rule demo_hole_reachable)
  have inv: "reg_inv demo_hole" by (rule reg_inv_reachable [OF demo_hole_reachable])
  have live: "live_indices demo_hole = [1, 2]" by (simp add: live_indices_def demo_hole_eq upt_rec)
  have "service_at demo_hole 1 = Some (demo_service 1 [] RgStopped)" by (simp add: service_at_Some demo_hole_eq)
  then show "manager_walk demo_hole (Suc (Suc n)) 0 = [Handle 0x100000001]"
    by (simp add: manager_walk_step [OF inv] live del: manager_walk.simps)
  show "result_is_ok (reg_service demo_hole (Handle 0x100000002))"
    by (simp add: reg_service_def reg_index_def slice_get_def demo_hole_eq handle_index_def handle_generation_def)
qed

text \<open>
  While no slot is vacant the list is complete: the walk from the start returns the handle of
  every service in slot order and then ends.
\<close>

theorem manager_list_complete_without_holes:
  assumes "reg_step\<^sup>*\<^sup>* (registry_new_with_generation seed) r" "live_indices r = [0 ..< length (reg_slots r)]"
  shows "manager_walk r (Suc (length (reg_slots r))) 0
    = map (\<lambda>i. rg_handle (the (service_at r i))) [0 ..< length (reg_slots r)]"
proof -
  have inv: "reg_inv r" by (rule reg_inv_reachable) fact
  let ?n = "length (reg_slots r)"
  have walk: "manager_walk r (Suc k) (of_nat (?n - k)) = map (\<lambda>i. rg_handle (the (service_at r i))) [?n - k ..< ?n]"
    if "k \<le> ?n" for k
    using that
  proof (induction k)
    case 0
    have "?n < 2 ^ 64" using inv by (simp add: reg_inv_def)
    then show ?case by (simp add: manager_walk_step [OF inv] assms(2) unat_of_nat del: manager_walk.simps)
  next
    case (Suc k)
    define c where "c = ?n - Suc k"
    have "?n < 2 ^ 64" using inv by (simp add: reg_inv_def)
    then have c: "unat (of_nat c :: u64) = c" by (simp add: c_def unat_of_nat del: of_nat_diff)
    have c_less: "c < ?n" "?n - k = Suc c" using Suc.prems by (auto simp: c_def)
    have "manager_walk r (Suc (Suc k)) (of_nat c)
        = rg_handle (the (service_at r c)) # manager_walk r (Suc k) (of_nat (Suc c))"
      using c_less(1) by (simp add: manager_walk_step [OF inv, of "Suc k"] c assms(2) del: manager_walk.simps of_nat_Suc)
    moreover have "manager_walk r (Suc k) (of_nat (Suc c)) = map (\<lambda>i. rg_handle (the (service_at r i))) [Suc c ..< ?n]"
      using Suc.IH Suc.prems by (simp only: c_less(2))
    moreover have "[c ..< ?n] = c # [Suc c ..< ?n]" using c_less(1) by (rule upt_conv_Cons)
    ultimately show ?case unfolding c_def [symmetric] by simp
  qed
  show ?thesis using walk [of ?n] by simp
qed

theorem manager_list_complete_without_holes_witness:
  "manager_walk (snd demo_registered) 2 0 = [Handle 0x100000000]"
proof -
  have "live_indices (snd demo_registered) = [0 ..< length (reg_slots (snd demo_registered))]"
    by (simp add: live_indices_def demo_registered_eq)
  from manager_list_complete_without_holes [OF demo_registered_reachable this]
  show ?thesis by (simp add: demo_registered_eq service_at_def slice_get_def numeral_2_eq_2 del: manager_walk.simps)
qed

end
