(* ===== verification/Slot_Table.thy ===== *)
theory Slot_Table
  imports Generations Runtime_ABI
begin

text \<open>
  Growable tables of generation-stamped slots. \<open>src/runtime_events.rs\<close> and \<open>src/runtime_ipc.rs\<close>
  each keep \<open>Vec<Slot<T>>\<close> with the same allocation, lookup and retirement; they are written
  here once for any entry type. The locale \<open>slot_system\<close> is the contract of a system that keeps
  such a table, and gives the contract of \<open>Generations\<close> for it.
\<close>

section \<open>Operations\<close>

record 'a slot =
  sl_generation :: u32
  sl_value :: "'a option"

definition fresh_slot :: "u32 \<Rightarrow> 'a slot" where
  "fresh_slot generation = \<lparr>sl_generation = max generation 1, sl_value = None\<rparr>"

definition slot_next_generation :: "u32 \<Rightarrow> u32" where
  "slot_next_generation current = max (current + 1) 1"

text \<open>
  The first vacant slot, or a new one if the vector can grow: the index and the table, or nothing.
\<close>

definition slot_allocate :: "bool \<Rightarrow> u32 \<Rightarrow> 'a slot list \<Rightarrow> (nat \<times> 'a slot list) option" where
  "slot_allocate can_grow seed slots =
     (case position (\<lambda>slot. sl_value slot = None) slots of
        Some index \<Rightarrow> Some (index, slots)
      | None \<Rightarrow>
          if \<not> can_grow then None
          else Some (length slots, slots @ [fresh_slot seed]))"

text \<open>The index of a handle whose slot is occupied and has the generation of the handle.\<close>

definition slot_find :: "'a slot list \<Rightarrow> 'kind handle \<Rightarrow> nat option" where
  "slot_find slots h =
     (let index = unat (handle_index h)
      in case slice_get slots index of
           None \<Rightarrow> None
         | Some slot \<Rightarrow>
             if sl_generation slot \<noteq> handle_generation h \<or> sl_value slot = None then None else Some index)"

definition slot_get :: "'a slot list \<Rightarrow> 'kind handle \<Rightarrow> 'a option" where
  "slot_get slots h = Option.bind (slot_find slots h) (\<lambda>index. sl_value (slots ! index))"

definition slot_put :: "'a slot list \<Rightarrow> nat \<Rightarrow> 'a \<Rightarrow> 'a slot list" where
  "slot_put slots i v = slots[i := (slots ! i)\<lparr>sl_value := Some v\<rparr>]"

definition slot_retire :: "'a slot list \<Rightarrow> nat \<Rightarrow> 'a slot list" where
  "slot_retire slots i =
     slots[i := \<lparr>sl_generation = slot_next_generation (sl_generation (slots ! i)), sl_value = None\<rparr>]"

text \<open>The handles of the occupied slots whose entries satisfy a predicate, in slot order.\<close>

definition slot_handle_of :: "'a slot list \<Rightarrow> nat \<Rightarrow> 'kind handle option" where
  "slot_handle_of slots i = handle_new (of_nat i) (sl_generation (slots ! i))"

definition slot_select :: "('a \<Rightarrow> bool) \<Rightarrow> 'a slot list \<Rightarrow> 'kind handle list" where
  "slot_select P slots = List.map_filter (\<lambda>i.
     Option.bind (sl_value (slots ! i)) (\<lambda>v. if P v then slot_handle_of slots i else None)) [0 ..< length slots]"

section \<open>Lookup\<close>

definition slot_at :: "'a slot list \<Rightarrow> nat \<Rightarrow> 'a option" where
  "slot_at slots i = Option.bind (slice_get slots i) sl_value"

lemma slot_at_Some: "slot_at slots i = Some v \<longleftrightarrow> i < length slots \<and> sl_value (slots ! i) = Some v"
  by (auto simp: slot_at_def bind_eq_Some_conv)

lemma slot_at_None: "slot_at slots i = None \<longleftrightarrow> (i < length slots \<longrightarrow> sl_value (slots ! i) = None)"
  by (auto simp: slot_at_def slice_get_def)

lemma slot_find_Some:
  "slot_find slots h = Some i \<longleftrightarrow> i = unat (handle_index h) \<and> slot_at slots i \<noteq> None
     \<and> sl_generation (slots ! i) = handle_generation h"
  by (auto simp: slot_find_def Let_def slice_get_def slot_at_def)

lemma slot_find_None:
  "slot_find slots h = None \<longleftrightarrow> slot_at slots (unat (handle_index h)) = None
     \<or> sl_generation (slots ! unat (handle_index h)) \<noteq> handle_generation h"
  by (auto simp: slot_find_def Let_def slice_get_def slot_at_def)

text \<open>A lookup compares the generation and reads the entry.\<close>

lemma slot_get_eq:
  "slot_get slots h = (if sl_generation (slots ! unat (handle_index h)) = handle_generation h
     then slot_at slots (unat (handle_index h)) else None)"
  by (auto simp: slot_get_def slot_find_def Let_def slot_at_def slice_get_def)

lemma slot_get_Some:
  "slot_get slots h = Some v \<longleftrightarrow> slot_at slots (unat (handle_index h)) = Some v
     \<and> sl_generation (slots ! unat (handle_index h)) = handle_generation h"
  by (auto simp: slot_get_eq)

lemma slot_get_None: "slot_get slots h = None \<longleftrightarrow> slot_find slots h = None"
  by (auto simp: slot_get_eq slot_find_None)

lemma slot_get_index: "slot_get slots h = Some v \<Longrightarrow> slot_find slots h = Some (unat (handle_index h))"
  by (auto simp: slot_get_Some slot_find_Some)

lemma slot_at_put [slot_simps]:
  "i < length slots \<Longrightarrow> slot_at (slot_put slots i v) j = (if j = i then Some v else slot_at slots j)"
  by (auto simp: slot_at_def slot_put_def slot_simps)

lemma slot_at_retire [slot_simps]:
  "slot_at (slot_retire slots i) j = (if j = i then None else slot_at slots j)"
  by (auto simp: slot_at_def slot_retire_def slice_get_def nth_list_update)

lemma slot_generation_put [simp]: "sl_generation (slot_put slots i v ! j) = sl_generation (slots ! j)"
  by (cases "i < length slots") (auto simp: slot_put_def nth_list_update list_update_beyond)

lemma slot_length [simp]:
  "length (slot_put slots i v) = length slots" "length (slot_retire slots i) = length slots"
  by (simp_all add: slot_put_def slot_retire_def)

lemma slot_generation_retire:
  "i < length slots \<Longrightarrow> sl_generation (slot_retire slots i ! j) =
     (if j = i then wrapping_next (sl_generation (slots ! i)) else sl_generation (slots ! j))"
  by (simp add: slot_retire_def nth_list_update slot_next_generation_def max_wrapping_next)

text \<open>What an update through a handle does to every lookup.\<close>

lemma slot_get_put:
  assumes "slot_get slots h = Some v"
  shows "slot_get (slot_put slots (unat (handle_index h)) w) k = (if k = h then Some w else slot_get slots k)"
proof -
  have i: "unat (handle_index h) < length slots" "sl_generation (slots ! unat (handle_index h)) = handle_generation h"
    using assms by (auto simp: slot_get_Some slot_at_Some)
  then show ?thesis using assms
    by (auto simp: slot_get_eq slot_at_put handle_eq_fields unat_inject)
qed

lemma slot_get_retire:
  assumes "slot_get slots h = Some v"
  shows "slot_get (slot_retire slots (unat (handle_index h))) k = (if k = h then None else slot_get slots k)"
proof -
  have i: "unat (handle_index h) < length slots" "sl_generation (slots ! unat (handle_index h)) = handle_generation h"
    using assms by (auto simp: slot_get_Some slot_at_Some)
  then show ?thesis
    by (auto simp: slot_get_eq slot_at_retire slot_generation_retire handle_eq_fields unat_inject)
qed

section \<open>Well-formed tables\<close>

definition slots_ok :: "u32 \<Rightarrow> 'a slot list \<Rightarrow> bool" where
  "slots_ok seed slots \<longleftrightarrow> seed \<noteq> 0 \<and> length slots \<le> 2 ^ 32 \<and> (\<forall>slot \<in> set slots. sl_generation slot \<noteq> 0)"

lemma slots_ok_Nil [simp]: "slots_ok seed [] \<longleftrightarrow> seed \<noteq> 0"
  by (simp add: slots_ok_def)

lemma slots_ok_generation: "slots_ok seed slots \<Longrightarrow> i < length slots \<Longrightarrow> sl_generation (slots ! i) \<noteq> 0"
  by (simp add: slots_ok_def)

lemma slots_ok_put [invariant_intros]: "slots_ok seed slots \<Longrightarrow> slots_ok seed (slot_put slots i v)"
  by (cases "i < length slots")
    (auto simp: slots_ok_def slot_put_def list_update_beyond dest!: set_updateD)

lemma slots_ok_retire [invariant_intros]: "slots_ok seed slots \<Longrightarrow> slots_ok seed (slot_retire slots i)"
  by (auto simp: slots_ok_def slot_retire_def slot_next_generation_def max_wrapping_next dest!: set_updateD)

lemma max_seed: "seed \<noteq> 0 \<Longrightarrow> max seed 1 = seed" for seed :: u32
  by (rule max_absorb1) (simp add: word_le_nat_alt Suc_le_eq unat_gt_0)

lemma max_one_nonzero [simp]: "max (w :: u32) 1 \<noteq> 0"
  by (auto simp: max_def word_le_nat_alt)

text \<open>An index within a well-formed table survives the conversion to 32 bits.\<close>

lemma slot_handle_live:
  assumes "slots_ok seed slots" "slot_at slots i = Some v"
  shows "\<exists>h :: 'kind handle. slot_handle_of slots i = Some h \<and> slot_get slots h = Some v \<and> unat (handle_index h) = i"
proof -
  have i: "i < length slots" "i < 2 ^ 32" using assms by (auto simp: slots_ok_def slot_at_Some)
  then obtain h :: "'kind handle" where h: "slot_handle_of slots i = Some h"
    using assms(1) by (auto simp: slot_handle_of_def handle_new_def slots_ok_def)
  then have "unat (handle_index h) = i" "handle_generation h = sl_generation (slots ! i)"
    using i by (auto simp: slot_handle_of_def handle_new_Some unat_of_nat_u32)
  with h assms(2) show ?thesis by (intro exI [of _ h]) (simp add: slot_get_Some)
qed

lemma slot_handle_get:
  assumes "slots_ok seed slots" "slot_get slots h = Some v"
  shows "slot_handle_of slots (unat (handle_index h)) = Some h"
  using assms
  by (auto simp: slot_get_Some slot_handle_of_def handle_new_Some slots_ok_def slot_at_Some)

lemma set_slot_select:
  assumes "slots_ok seed slots"
  fixes h :: "'kind handle"
  shows "h \<in> set (slot_select P slots) \<longleftrightarrow> (\<exists>v. slot_get slots h = Some v \<and> P v)"
proof
  assume "h \<in> set (slot_select P slots)"
  then obtain i v where i: "slot_at slots i = Some v" "P v" "slot_handle_of slots i = Some h"
    by (auto simp: slot_select_def map_filter_def bind_eq_Some_conv slot_at_Some split: if_splits)
  obtain k :: "'kind handle" where "slot_handle_of slots i = Some k" "slot_get slots k = Some v"
    using slot_handle_live [OF assms i(1)] by blast
  with i show "\<exists>v. slot_get slots h = Some v \<and> P v" by auto
next
  assume "\<exists>v. slot_get slots h = Some v \<and> P v"
  then obtain v where v: "slot_get slots h = Some v" "P v" by blast
  then show "h \<in> set (slot_select P slots)"
    using slot_handle_get [OF assms v(1)]
    by (auto simp: slot_select_def map_filter_def slot_get_Some slot_at_Some image_iff
        intro!: exI [of _ "unat (handle_index h)"])
qed

text \<open>What an allocation does: nothing that was there changes, and the index is vacant.\<close>

lemma slot_allocate_outcome:
  assumes "slot_allocate can_grow seed slots = Some (i, slots')" "slots_ok seed slots" "length slots < 2 ^ 32"
  shows "slots_ok seed slots'" "i < length slots'" "slot_at slots' = slot_at slots" "slot_at slots i = None"
    "length slots \<le> length slots'" "\<And>j. j < length slots \<Longrightarrow> slots' ! j = slots ! j"
    "\<And>j. \<lbrakk>length slots \<le> j; j < length slots'\<rbrakk> \<Longrightarrow> sl_generation (slots' ! j) = seed"
    "\<exists>h :: 'kind handle. slot_handle_of slots' i = Some h"
proof -
  have all: "slots_ok seed slots' \<and> i < length slots' \<and> slot_at slots' = slot_at slots \<and> slot_at slots i = None
    \<and> length slots \<le> length slots' \<and> (\<forall>j < length slots. slots' ! j = slots ! j)
    \<and> (\<forall>j. length slots \<le> j \<longrightarrow> j < length slots' \<longrightarrow> sl_generation (slots' ! j) = seed)"
  proof (cases "position (\<lambda>slot. sl_value slot = None) slots")
    case (Some k)
    then show ?thesis using assms position_SomeD [OF Some]
      by (auto simp: slot_allocate_def slot_at_None)
  next
    case None
    have seed: "seed \<noteq> 0" using assms(2) by (simp add: slots_ok_def)
    have new: "i = length slots" "slots' = slots @ [fresh_slot seed]"
      using assms(1) by (auto simp: slot_allocate_def None simp del: position_None split: if_splits)
    have "slot_at slots' = slot_at slots"
      by (rule ext) (auto simp: new slot_at_def slice_get_def nth_append fresh_slot_def)
    moreover have "slots_ok seed slots'"
      using assms(2,3) by (auto simp: new slots_ok_def fresh_slot_def)
    ultimately show ?thesis
      by (auto simp: new slot_at_None nth_append fresh_slot_def max_seed [OF seed])
  qed
  then show "slots_ok seed slots'" "i < length slots'" "slot_at slots' = slot_at slots" "slot_at slots i = None"
    "length slots \<le> length slots'" "\<And>j. j < length slots \<Longrightarrow> slots' ! j = slots ! j"
    "\<And>j. \<lbrakk>length slots \<le> j; j < length slots'\<rbrakk> \<Longrightarrow> sl_generation (slots' ! j) = seed" by blast+
  have "sl_generation (slots' ! i) \<noteq> 0" using all slots_ok_generation by blast
  then show "\<exists>h :: 'kind handle. slot_handle_of slots' i = Some h" by (simp add: slot_handle_of_def handle_new_def)
qed

text \<open>Filling an allocated slot: the new handle resolves to the entry, every other as before.\<close>

lemma slot_get_allocated:
  assumes "slot_allocate can_grow seed slots = Some (i, slots')" "slots_ok seed slots" "length slots < 2 ^ 32"
    "slot_handle_of slots' i = Some h"
  shows "slot_get (slot_put slots' i v) k = (if k = h then Some v else slot_get slots k)"
    "slot_get slots h = None" "unat (handle_index h) = i"
proof -
  note new = slot_allocate_outcome [OF assms(1-3)]
  have i: "i < 2 ^ 32" using new(1,2) by (simp add: slots_ok_def)
  then show index: "unat (handle_index h) = i"
    using assms(4) by (simp add: slot_handle_of_def handle_new_Some unat_of_nat_u32)
  have gen: "handle_generation h = sl_generation (slots' ! i)"
    using assms(4) by (simp add: slot_handle_of_def handle_new_Some)
  show "slot_get slots h = None" using new(4) index by (simp add: slot_get_None slot_find_None)
  show "slot_get (slot_put slots' i v) k = (if k = h then Some v else slot_get slots k)"
  proof (cases "unat (handle_index k) = i")
    case True
    have "slot_get slots k = None" using new(4) True by (simp add: slot_get_None slot_find_None)
    moreover have "k = h \<longleftrightarrow> handle_generation k = sl_generation (slots' ! i)"
      using True index gen by (auto simp: handle_eq_fields unat_inject)
    moreover have "slot_get (slot_put slots' i v) k =
        (if handle_generation k = sl_generation (slots' ! i) then Some v else None)"
      using True new(2) by (auto simp: slot_get_eq slot_at_put)
    ultimately show ?thesis by simp
  next
    case False
    have same: "sl_generation (slots' ! unat (handle_index k)) = sl_generation (slots ! unat (handle_index k))"
      if "slot_at slots (unat (handle_index k)) \<noteq> None"
      using new(6) [of "unat (handle_index k)"] that by (auto simp: slot_at_Some)
    have "k \<noteq> h" using False index by auto
    moreover have "slot_get (slot_put slots' i v) k = slot_get slots k"
      using False new(2,3) same
      by (cases "slot_at slots (unat (handle_index k))") (simp_all add: slot_get_eq slot_at_put)
    ultimately show ?thesis by simp
  qed
qed

section \<open>Generations\<close>

definition slot_gen :: "u32 \<Rightarrow> 'a slot list \<Rightarrow> nat \<Rightarrow> nat" where
  "slot_gen seed slots i = (if i < length slots then unat (sl_generation (slots ! i)) else unat seed)"

definition slot_live :: "'a slot list \<Rightarrow> nat \<Rightarrow> bool" where
  "slot_live slots i \<longleftrightarrow> slot_at slots i \<noteq> None"

text \<open>One table follows another: a slot keeps its generation and its entry, or moves on.\<close>

definition slot_moves :: "u32 \<Rightarrow> 'a slot list \<Rightarrow> 'a slot list \<Rightarrow> bool" where
  "slot_moves seed slots slots' \<longleftrightarrow>
     (\<forall>i. slot_gen seed slots' i = slot_gen seed slots i \<and> (slot_live slots i \<longrightarrow> slot_live slots' i)
        \<or> slot_gen seed slots' i = cyc_next (2 ^ 32) (slot_gen seed slots i))"

lemma slot_moves_refl [simp]: "slot_moves seed slots slots"
  by (simp add: slot_moves_def)

lemma slot_moves_put [simp]: "slot_moves seed slots (slot_put slots i v)"
  by (cases "i < length slots")
    (auto simp: slot_moves_def slot_gen_def slot_live_def slot_at_put, simp_all add: slot_put_def list_update_beyond)

lemma slot_moves_retire: "i < length slots \<Longrightarrow> slot_moves seed slots (slot_retire slots i)"
  using unat_wrapping_next [of "sl_generation (slots ! i)"]
  by (auto simp: slot_moves_def slot_gen_def slot_live_def slot_at_retire slot_generation_retire)

lemma slot_moves_allocate:
  assumes "slot_allocate can_grow seed slots = Some (i, slots')" "slots_ok seed slots" "length slots < 2 ^ 32"
  shows "slot_moves seed slots slots'" "slot_moves seed slots (slot_put slots' i v)"
proof -
  note new = slot_allocate_outcome [OF assms]
  have gen: "slot_gen seed slots' j = slot_gen seed slots j" for j
    using new(5) new(6) [of j] new(7) [of j] by (auto simp: slot_gen_def not_less)
  moreover have "slot_gen seed (slot_put slots' i v) j = slot_gen seed slots' j" for j
    by (simp add: slot_gen_def)
  ultimately show "slot_moves seed slots slots'" "slot_moves seed slots (slot_put slots' i v)"
    using new(2,3) by (simp_all add: slot_moves_def slot_live_def slot_at_put)
qed

text \<open>Two tables with the same generations and occupancy, whatever the entries.\<close>

definition slot_shape :: "'a slot list \<Rightarrow> (u32 \<times> bool) list" where
  "slot_shape slots = map (\<lambda>slot. (sl_generation slot, sl_value slot = None)) slots"

lemma slot_shape_nth:
  assumes "slot_shape ys = slot_shape xs" "i < length xs"
  shows "sl_generation (ys ! i) = sl_generation (xs ! i)" "sl_value (ys ! i) = None \<longleftrightarrow> sl_value (xs ! i) = None"
proof -
  have "length ys = length xs" using assms(1) by (metis length_map slot_shape_def)
  moreover have "slot_shape ys ! i = slot_shape xs ! i" using assms(1) by simp
  ultimately have "(sl_generation (ys ! i), sl_value (ys ! i) = None) = (sl_generation (xs ! i), sl_value (xs ! i) = None)"
    using assms(2) by (simp add: slot_shape_def)
  then show "sl_generation (ys ! i) = sl_generation (xs ! i)" "sl_value (ys ! i) = None \<longleftrightarrow> sl_value (xs ! i) = None"
    by simp_all
qed

lemma slot_shape_length: "slot_shape ys = slot_shape xs \<Longrightarrow> length ys = length xs"
  by (metis length_map slot_shape_def)

lemma slot_shape_same:
  assumes "slot_shape ys = slot_shape xs"
  shows "slot_gen seed ys = slot_gen seed xs" "slot_live ys = slot_live xs"
  using slot_shape_nth [OF assms] slot_shape_length [OF assms]
  by (auto simp: slot_gen_def slot_live_def fun_eq_iff slot_at_None)

lemma slot_shape_moves:
  assumes "slot_shape ys = slot_shape xs"
  shows "slot_moves seed xs ys" "slot_moves seed ys zs \<longleftrightarrow> slot_moves seed xs zs"
  by (simp_all add: slot_moves_def slot_shape_same [OF assms])

lemma slot_shape_ok:
  assumes "slot_shape ys = slot_shape xs" "slots_ok seed xs"
  shows "slots_ok seed ys"
  using assms(2) slot_shape_nth(1) [OF assms(1)] slot_shape_length [OF assms(1)]
  by (auto simp: slots_ok_def all_set_conv_all_nth)

lemma slot_shape_put: "slot_at slots i \<noteq> None \<Longrightarrow> slot_shape (slot_put slots i v) = slot_shape slots"
  by (rule nth_equalityI) (auto simp: slot_shape_def slot_put_def slot_at_Some nth_list_update)

text \<open>Every entry rewritten in place.\<close>

definition slot_map :: "('a \<Rightarrow> 'a) \<Rightarrow> 'a slot list \<Rightarrow> 'a slot list" where
  "slot_map f slots = map (\<lambda>slot. slot\<lparr>sl_value := map_option f (sl_value slot)\<rparr>) slots"

lemma slot_map_shape [simp]: "slot_shape (slot_map f slots) = slot_shape slots"
  by (simp add: slot_shape_def slot_map_def)

lemma slot_at_map [slot_simps]: "slot_at (slot_map f slots) i = map_option f (slot_at slots i)"
  by (simp add: slot_at_def slot_map_def slice_get_def)

lemma slot_get_map [slot_simps]: "slot_get (slot_map f slots) h = map_option f (slot_get slots h)"
proof (cases "unat (handle_index h) < length slots")
  case True
  then show ?thesis by (simp add: slot_get_eq slot_at_map) (simp add: slot_map_def)
next
  case False
  then have "slot_at slots (unat (handle_index h)) = None" by (simp add: slot_at_None)
  then show ?thesis by (simp add: slot_get_eq slot_at_map)
qed

section \<open>Sweeps and listings\<close>

definition live_values :: "'a slot list \<Rightarrow> 'a list" where
  "live_values slots = List.map_filter sl_value slots"

lemma set_live_values: "x \<in> set (live_values slots) \<longleftrightarrow> (\<exists>i. slot_at slots i = Some x)"
proof
  assume "x \<in> set (live_values slots)"
  then obtain slot where "slot \<in> set slots" "sl_value slot = Some x" by (auto simp: live_values_def map_filter_def)
  then show "\<exists>i. slot_at slots i = Some x" by (auto simp: slot_at_Some in_set_conv_nth)
next
  assume "\<exists>i. slot_at slots i = Some x"
  then obtain i where "i < length slots" "sl_value (slots ! i) = Some x" by (auto simp: slot_at_Some)
  then show "x \<in> set (live_values slots)" by (force simp: live_values_def map_filter_def)
qed

lemma live_value_handle:
  assumes "slots_ok seed slots"
  shows "x \<in> set (live_values slots) \<longleftrightarrow> (\<exists>h :: 'kind handle. slot_get slots h = Some x)"
proof
  assume "x \<in> set (live_values slots)"
  then obtain i where "slot_at slots i = Some x" by (auto simp: set_live_values)
  then obtain h :: "'kind handle" where "slot_get slots h = Some x" using slot_handle_live [OF assms] by blast
  then show "\<exists>h :: 'kind handle. slot_get slots h = Some x" by blast
qed (auto simp: set_live_values slot_get_Some)

text \<open>Retiring every slot whose entry satisfies a predicate.\<close>

definition slot_sweep :: "('a \<Rightarrow> bool) \<Rightarrow> 'a slot list \<Rightarrow> 'a slot list" where
  "slot_sweep P slots = map (\<lambda>slot.
     case sl_value slot of
       None \<Rightarrow> slot
     | Some v \<Rightarrow> if P v then \<lparr>sl_generation = slot_next_generation (sl_generation slot), sl_value = None\<rparr> else slot) slots"

lemma slot_sweep_length [simp]: "length (slot_sweep P slots) = length slots"
  by (simp add: slot_sweep_def)

lemma slot_at_sweep:
  "slot_at (slot_sweep P slots) i = (case slot_at slots i of None \<Rightarrow> None | Some v \<Rightarrow> if P v then None else Some v)"
  by (auto simp: slot_at_def slice_get_def slot_sweep_def split: option.splits)

lemma slot_sweep_generation:
  "i < length slots \<Longrightarrow> sl_generation (slot_sweep P slots ! i) =
     (case slot_at slots i of
        None \<Rightarrow> sl_generation (slots ! i)
      | Some v \<Rightarrow> if P v then slot_next_generation (sl_generation (slots ! i)) else sl_generation (slots ! i))"
  by (auto simp: slot_at_def slice_get_def slot_sweep_def split: option.splits)

lemma slot_get_sweep:
  "slot_get (slot_sweep P slots) h = (case slot_get slots h of None \<Rightarrow> None | Some v \<Rightarrow> if P v then None else Some v)"
proof (cases "slot_at slots (unat (handle_index h))")
  case None
  then show ?thesis by (simp add: slot_get_eq slot_at_sweep)
next
  case (Some v)
  then have "unat (handle_index h) < length slots" by (simp add: slot_at_Some)
  then show ?thesis using Some by (auto simp: slot_get_eq slot_at_sweep slot_sweep_generation)
qed

lemma slots_ok_sweep [invariant_intros]: "slots_ok seed slots \<Longrightarrow> slots_ok seed (slot_sweep P slots)"
  by (auto simp: slots_ok_def slot_sweep_def slot_next_generation_def max_wrapping_next split: option.splits)

lemma slot_moves_sweep: "slot_moves seed slots (slot_sweep P slots)"
  unfolding slot_moves_def
proof
  fix i
  show "slot_gen seed (slot_sweep P slots) i = slot_gen seed slots i \<and> (slot_live slots i \<longrightarrow> slot_live (slot_sweep P slots) i)
    \<or> slot_gen seed (slot_sweep P slots) i = cyc_next (2 ^ 32) (slot_gen seed slots i)"
  proof (cases "slot_at slots i")
    case (Some v)
    then have "i < length slots" by (simp add: slot_at_Some)
    then show ?thesis
      using Some unat_wrapping_next [of "sl_generation (slots ! i)"]
      by (simp add: slot_gen_def slot_live_def slot_at_sweep slot_sweep_generation slot_next_generation_def max_wrapping_next)
  qed (auto simp: slot_gen_def slot_live_def slot_sweep_generation)
qed

section \<open>Systems with a slot table\<close>

locale slot_system =
  fixes step :: "'s \<Rightarrow> 's \<Rightarrow> bool"
    and inv :: "'s \<Rightarrow> bool"
    and seed :: "'s \<Rightarrow> u32"
    and slots :: "'s \<Rightarrow> 'a slot list"
  assumes inv_step: "\<lbrakk>inv s; step s t\<rbrakk> \<Longrightarrow> inv t"
    and inv_slots: "inv s \<Longrightarrow> slots_ok (seed s) (slots s)"
    and seed_step: "\<lbrakk>inv s; step s t\<rbrakk> \<Longrightarrow> seed t = seed s"
    and moves_step: "\<lbrakk>inv s; step s t\<rbrakk> \<Longrightarrow> slot_moves (seed s) (slots s) (slots t)"

sublocale slot_system \<subseteq>
  slots: generation_slots "2 ^ 32" step inv "\<lambda>s. slot_gen (seed s) (slots s)" "\<lambda>s. slot_live (slots s)"
proof
  fix s t :: 's and i
  assume inv: "inv s"
  then show "0 < slot_gen (seed s) (slots s) i \<and> slot_gen (seed s) (slots s) i < 2 ^ 32"
    using inv_slots [OF inv] u32_bound [of "sl_generation (slots s ! i)"] u32_bound [of "seed s"]
    by (auto simp: slot_gen_def slots_ok_def unat_gt_0)
  assume step: "step s t"
  show "inv t" using inv step by (rule inv_step)
  have moves: "slot_moves (seed s) (slots s) (slots t)" "seed t = seed s"
    using inv step by (simp_all add: moves_step seed_step)
  then show "slot_gen (seed t) (slots t) i = slot_gen (seed s) (slots s) i
      \<or> slot_gen (seed t) (slots t) i = cyc_next (2 ^ 32) (slot_gen (seed s) (slots s) i)"
    by (auto simp: slot_moves_def)
  assume "slot_live (slots s) i" "\<not> slot_live (slots t) i"
  then have "slot_gen (seed t) (slots t) i = cyc_next (2 ^ 32) (slot_gen (seed s) (slots s) i)"
    using moves by (auto simp: slot_moves_def)
  then show "slot_gen (seed t) (slots t) i \<noteq> slot_gen (seed s) (slots s) i"
    using cyc_next_neq [of "2 ^ 32" "slot_gen (seed s) (slots s) i"] by simp
qed simp

context slot_system
begin

text \<open>A handle that stops resolving stays dead for all but one full cycle of generations.\<close>

lemma dead_handle_stays_dead:
  assumes "inv s" "step s t" "slot_get (slots s) h = Some v" "slot_at (slots t) (unat (handle_index h)) = None"
    "retire_run step (\<lambda>s. slot_gen (seed s) (slots s) (unat (handle_index h))) t k u" "k < 2 ^ 32 - 2"
  shows "slot_get (slots u) h = None"
proof -
  let ?i = "unat (handle_index h)"
  have h: "?i < length (slots s)" "sl_generation (slots s ! ?i) = handle_generation h" "slot_live (slots s) ?i"
    using assms(3) by (auto simp: slot_get_Some slot_at_Some slot_live_def)
  have "slot_gen (seed u) (slots u) ?i \<noteq> slot_gen (seed s) (slots s) ?i"
    using assms(1,2) h(3) assms(4-6)
    by (intro slots.freed_handle_dead [of s t ?i k u]) (simp_all add: slot_live_def)
  then have "slot_at (slots u) ?i = None \<or> sl_generation (slots u ! ?i) \<noteq> handle_generation h"
    using h by (cases "?i < length (slots u)") (auto simp: slot_gen_def slot_at_None)
  then show ?thesis by (simp add: slot_get_None slot_find_None)
qed

end

end
