(* ===== verification/Runtime_Events.thy ===== *)
theory Runtime_Events
  imports Slot_Table
begin

text \<open>
  The event table, \<open>src/runtime_events.rs\<close>: events that services signal and wait for, event sets
  that collect them, and the three hardware lines that interrupts raise. The statics of the source
  that hold the hardware lines are a field of the state, and so is the sequence of event sets
  passed to \<open>wake_event_set\<close>, which the architecture layer hands to the scheduler. The outcome of
  \<open>Vec::try_reserve\<close> is a parameter, indexed by the vector it grows.
\<close>

section \<open>Data\<close>

datatype hardware_source = HwNetwork | HwKeyboard | HwPointer

record hardware_line =
  hl_event_raw :: u64
  hl_set_raw :: u64
  hl_pending :: bool

definition hardware_idle :: hardware_line where
  "hardware_idle = \<lparr>hl_event_raw = 0, hl_set_raw = 0, hl_pending = False\<rparr>"

record event_record =
  ev_owner :: service_handle
  ev_directory_flags :: u16
  ev_signaled :: bool

record event_set_record =
  es_owner :: service_handle
  es_members :: "event_handle list"
  es_waiting :: bool
  es_invalidated :: bool

datatype event_wait = WaitReady event_handle | WaitPending | WaitTimeout

datatype event_error =
    EeStale | EeUnauthorized | EeCapacity | EeDuplicate | EeNotMember | EeInvalidDeadline | EeBusy

record event_registry =
  er_events :: "event_record slot list"
  er_sets :: "event_set_record slot list"
  er_generation_seed :: u32
  er_hardware :: "hardware_source \<Rightarrow> hardware_line"
  er_woken :: "event_set_handle list"

datatype event_vector = EventSlots | SetSlots | SetMembers

abbreviation NO_DEADLINE :: u64 where "NO_DEADLINE \<equiv> - 1"
abbreviation DIRECTORY_EVENT_FLAG_HARDWARE_KEYBOARD :: u16 where "DIRECTORY_EVENT_FLAG_HARDWARE_KEYBOARD \<equiv> 1"
abbreviation DIRECTORY_EVENT_FLAG_HARDWARE_POINTER :: u16 where "DIRECTORY_EVENT_FLAG_HARDWARE_POINTER \<equiv> 2"

text \<open>A registry starts over the hardware lines as they are.\<close>

definition event_registry_new_with_generation ::
    "u32 \<Rightarrow> (hardware_source \<Rightarrow> hardware_line) \<Rightarrow> event_registry" where
  "event_registry_new_with_generation generation hardware =
     \<lparr>er_events = [], er_sets = [], er_generation_seed = max generation 1, er_hardware = hardware, er_woken = []\<rparr>"

definition event_registry_new :: "(hardware_source \<Rightarrow> hardware_line) \<Rightarrow> event_registry" where
  "event_registry_new hardware = event_registry_new_with_generation 1 hardware"

section \<open>Hardware lines\<close>

definition hardware_sources :: "hardware_source list" where
  "hardware_sources = [HwNetwork, HwKeyboard, HwPointer]"

definition put_line :: "event_registry \<Rightarrow> hardware_source \<Rightarrow> hardware_line \<Rightarrow> event_registry" where
  "put_line r source line = r\<lparr>er_hardware := (er_hardware r)(source := line)\<rparr>"

definition wake_event_set :: "event_registry \<Rightarrow> event_set_handle \<Rightarrow> event_registry" where
  "wake_event_set r s = r\<lparr>er_woken := er_woken r @ [s]\<rparr>"

definition bind_hardware_event :: "event_registry \<Rightarrow> hardware_source \<Rightarrow> event_handle \<Rightarrow> event_registry" where
  "bind_hardware_event r source e =
     put_line r source \<lparr>hl_event_raw = raw e, hl_set_raw = 0, hl_pending = False\<rparr>"

definition clear_hardware_event :: "event_registry \<Rightarrow> hardware_source \<Rightarrow> event_registry" where
  "clear_hardware_event r source = put_line r source hardware_idle"

definition bind_hardware_wait_set ::
    "event_handle \<Rightarrow> event_set_handle \<Rightarrow> hardware_source \<Rightarrow> event_registry \<Rightarrow> event_registry" where
  "bind_hardware_wait_set e s source r =
     (let line = er_hardware r source
      in if hl_event_raw line = raw e then put_line r source (line\<lparr>hl_set_raw := raw s\<rparr>) else r)"

definition unbind_hardware_wait_set ::
    "event_handle \<Rightarrow> event_set_handle \<Rightarrow> hardware_source \<Rightarrow> event_registry \<Rightarrow> event_registry" where
  "unbind_hardware_wait_set e s source r =
     (let line = er_hardware r source
      in if hl_event_raw line = raw e
         then (if hl_set_raw line = raw s then put_line r source (line\<lparr>hl_set_raw := 0\<rparr>) else r)
         else r)"

definition signal_hardware_event :: "event_registry \<Rightarrow> hardware_source \<Rightarrow> event_registry" where
  "signal_hardware_event r source =
     (let line = er_hardware r source
      in if hl_event_raw line = 0 then r
         else
           let r = put_line r source (line\<lparr>hl_pending := True\<rparr>)
           in case handle_from_raw (hl_set_raw line) of
                None \<Rightarrow> r
              | Some s \<Rightarrow> wake_event_set r s)"

definition hardware_event_is_pending :: "event_registry \<Rightarrow> event_handle \<Rightarrow> bool" where
  "hardware_event_is_pending r e \<longleftrightarrow>
     list_ex (\<lambda>source. hl_event_raw (er_hardware r source) = raw e \<and> hl_pending (er_hardware r source))
       hardware_sources"

definition consume_hardware_event :: "event_registry \<Rightarrow> event_handle \<Rightarrow> event_registry" where
  "consume_hardware_event r e =
     fold (\<lambda>source r. let line = er_hardware r source
            in if hl_event_raw line = raw e then put_line r source (line\<lparr>hl_pending := False\<rparr>) else r)
       hardware_sources r"

definition bind_all_hardware_wait_sets ::
    "event_registry \<Rightarrow> event_handle \<Rightarrow> event_set_handle \<Rightarrow> event_registry" where
  "bind_all_hardware_wait_sets r e s = fold (bind_hardware_wait_set e s) hardware_sources r"

definition unbind_all_hardware_wait_sets ::
    "event_registry \<Rightarrow> event_handle \<Rightarrow> event_set_handle \<Rightarrow> event_registry" where
  "unbind_all_hardware_wait_sets r e s = fold (unbind_hardware_wait_set e s) hardware_sources r"

section \<open>Lookup and allocation\<close>

definition event_index :: "event_registry \<Rightarrow> event_handle \<Rightarrow> event_error + nat" where
  "event_index r h = ok_or (slot_find (er_events r) h) EeStale"

definition set_index :: "event_registry \<Rightarrow> event_set_handle \<Rightarrow> event_error + nat" where
  "set_index r h = ok_or (slot_find (er_sets r) h) EeStale"

definition get_event :: "event_registry \<Rightarrow> event_handle \<Rightarrow> event_error + event_record" where
  "get_event r h = result_bind (event_index r h) (\<lambda>i. ok_or (sl_value (er_events r ! i)) EeStale)"

definition get_set :: "event_registry \<Rightarrow> event_set_handle \<Rightarrow> event_error + event_set_record" where
  "get_set r h = result_bind (set_index r h) (\<lambda>i. ok_or (sl_value (er_sets r ! i)) EeStale)"

text \<open>Assignments through the references that \<open>event\<close> and \<open>set_mut\<close> return.\<close>

definition put_event :: "event_registry \<Rightarrow> event_handle \<Rightarrow> event_record \<Rightarrow> event_registry" where
  "put_event r h e = r\<lparr>er_events := slot_put (er_events r) (unat (handle_index h)) e\<rparr>"

definition put_set :: "event_registry \<Rightarrow> event_set_handle \<Rightarrow> event_set_record \<Rightarrow> event_registry" where
  "put_set r h s = r\<lparr>er_sets := slot_put (er_sets r) (unat (handle_index h)) s\<rparr>"

definition allocate_event_slot ::
    "(event_vector \<Rightarrow> bool) \<Rightarrow> event_registry \<Rightarrow> (event_error + nat) \<times> event_registry" where
  "allocate_event_slot reserve r =
     (case slot_allocate (reserve EventSlots) (er_generation_seed r) (er_events r) of
        None \<Rightarrow> (Err EeCapacity, r)
      | Some (i, events) \<Rightarrow> (Ok i, r\<lparr>er_events := events\<rparr>))"

definition allocate_set_slot ::
    "(event_vector \<Rightarrow> bool) \<Rightarrow> event_registry \<Rightarrow> (event_error + nat) \<times> event_registry" where
  "allocate_set_slot reserve r =
     (case slot_allocate (reserve SetSlots) (er_generation_seed r) (er_sets r) of
        None \<Rightarrow> (Err EeCapacity, r)
      | Some (i, sets) \<Rightarrow> (Ok i, r\<lparr>er_sets := sets\<rparr>))"

definition create_event_with_flags ::
    "(event_vector \<Rightarrow> bool) \<Rightarrow> event_registry \<Rightarrow> service_handle \<Rightarrow> u16
      \<Rightarrow> (event_error + event_handle) \<times> event_registry" where
  "create_event_with_flags reserve r owner flags =
     (if \<not> handle_is_valid owner then (Err EeUnauthorized, r)
      else state_bind (allocate_event_slot reserve r) (\<lambda>i r.
        case slot_handle_of (er_events r) i of
          None \<Rightarrow> (Err EeCapacity, r)
        | Some h \<Rightarrow> (Ok h, r\<lparr>er_events := slot_put (er_events r) i
            \<lparr>ev_owner = owner, ev_directory_flags = flags, ev_signaled = False\<rparr>\<rparr>)))"

definition create_event ::
    "(event_vector \<Rightarrow> bool) \<Rightarrow> event_registry \<Rightarrow> service_handle
      \<Rightarrow> (event_error + event_handle) \<times> event_registry" where
  "create_event reserve r owner = create_event_with_flags reserve r owner 0"

definition create_hardware_event ::
    "(event_vector \<Rightarrow> bool) \<Rightarrow> event_registry \<Rightarrow> service_handle \<Rightarrow> hardware_source
      \<Rightarrow> (event_error + event_handle) \<times> event_registry" where
  "create_hardware_event reserve r owner source =
     (let flags = (case source of HwNetwork \<Rightarrow> 0 | HwKeyboard \<Rightarrow> DIRECTORY_EVENT_FLAG_HARDWARE_KEYBOARD
                   | HwPointer \<Rightarrow> DIRECTORY_EVENT_FLAG_HARDWARE_POINTER)
      in state_bind (create_event_with_flags reserve r owner flags)
           (\<lambda>e r. (Ok e, bind_hardware_event r source e)))"

definition create_set ::
    "(event_vector \<Rightarrow> bool) \<Rightarrow> event_registry \<Rightarrow> service_handle
      \<Rightarrow> (event_error + event_set_handle) \<times> event_registry" where
  "create_set reserve r owner =
     (if \<not> handle_is_valid owner then (Err EeUnauthorized, r)
      else state_bind (allocate_set_slot reserve r) (\<lambda>i r.
        case slot_handle_of (er_sets r) i of
          None \<Rightarrow> (Err EeCapacity, r)
        | Some h \<Rightarrow> (Ok h, r\<lparr>er_sets := slot_put (er_sets r) i
            \<lparr>es_owner = owner, es_members = [], es_waiting = False, es_invalidated = False\<rparr>\<rparr>)))"

section \<open>Membership\<close>

definition set_add ::
    "(event_vector \<Rightarrow> bool) \<Rightarrow> event_registry \<Rightarrow> service_handle \<Rightarrow> event_set_handle \<Rightarrow> event_handle
      \<Rightarrow> (event_error + unit) \<times> event_registry" where
  "set_add reserve r owner s e =
     (case get_event r e of
        Inl err \<Rightarrow> (Err err, r)
      | Inr ev \<Rightarrow>
          if ev_owner ev \<noteq> owner then (Err EeUnauthorized, r)
          else case get_set r s of
            Inl err \<Rightarrow> (Err err, r)
          | Inr rec \<Rightarrow>
              if es_owner rec \<noteq> owner then (Err EeUnauthorized, r)
              else if es_invalidated rec then (Err EeStale, r)
              else if es_waiting rec then (Err EeBusy, r)
              else if e \<in> set (es_members rec) then (Err EeDuplicate, r)
              else if \<not> reserve SetMembers then (Err EeCapacity, r)
              else (Ok (), bind_all_hardware_wait_sets
                     (put_set r s (rec\<lparr>es_members := es_members rec @ [e]\<rparr>)) e s))"

text \<open>\<open>Vec::remove\<close> at an index.\<close>

definition remove_at :: "nat \<Rightarrow> 'a list \<Rightarrow> 'a list" where
  "remove_at i xs = take i xs @ drop (Suc i) xs"

definition set_remove ::
    "event_registry \<Rightarrow> service_handle \<Rightarrow> event_set_handle \<Rightarrow> event_handle
      \<Rightarrow> (event_error + unit) \<times> event_registry" where
  "set_remove r owner s e =
     (case get_set r s of
        Inl err \<Rightarrow> (Err err, r)
      | Inr rec \<Rightarrow>
          if es_owner rec \<noteq> owner then (Err EeUnauthorized, r)
          else if es_invalidated rec then (Err EeStale, r)
          else if es_waiting rec then (Err EeBusy, r)
          else case position (\<lambda>m. m = e) (es_members rec) of
            None \<Rightarrow> (Err EeNotMember, r)
          | Some i \<Rightarrow> (Ok (), unbind_all_hardware_wait_sets
              (put_set r s (rec\<lparr>es_members := remove_at i (es_members rec)\<rparr>)) e s))"

section \<open>Signals\<close>

text \<open>The sets and owners that \<open>for_each_waiter\<close> passes to its callback, in order.\<close>

definition waiters :: "event_registry \<Rightarrow> event_handle \<Rightarrow> (event_set_handle \<times> service_handle) list" where
  "waiters r e = List.map_filter (\<lambda>i.
     case sl_value (er_sets r ! i) of
       None \<Rightarrow> None
     | Some rec \<Rightarrow>
         if \<not> es_waiting rec \<or> e \<notin> set (es_members rec) then None
         else case slot_handle_of (er_sets r) i of
           None \<Rightarrow> None
         | Some s \<Rightarrow> Some (s, es_owner rec)) [0 ..< length (er_sets r)]"

definition wake_waiters :: "event_registry \<Rightarrow> event_handle \<Rightarrow> event_registry" where
  "wake_waiters r e = fold (\<lambda>(s, _) r. wake_event_set r s) (waiters r e) r"

definition signal_irq :: "event_registry \<Rightarrow> event_handle \<Rightarrow> (event_error + unit) \<times> event_registry" where
  "signal_irq r e =
     (case get_event r e of
        Inl err \<Rightarrow> (Err err, r)
      | Inr ev \<Rightarrow> (Ok (), wake_waiters (put_event r e (ev\<lparr>ev_signaled := True\<rparr>)) e))"

definition event_signal ::
    "event_registry \<Rightarrow> service_handle \<Rightarrow> event_handle \<Rightarrow> (event_error + unit) \<times> event_registry" where
  "event_signal r owner e =
     (case get_event r e of
        Inl err \<Rightarrow> (Err err, r)
      | Inr ev \<Rightarrow>
          if ev_owner ev \<noteq> owner then (Err EeUnauthorized, r)
          else (Ok (), wake_waiters (put_event r e (ev\<lparr>ev_signaled := True\<rparr>)) e))"

section \<open>Waiting\<close>

definition event_ready :: "event_registry \<Rightarrow> event_handle \<Rightarrow> event_error + bool" where
  "event_ready r e = result_bind (get_event r e) (\<lambda>ev. Ok (ev_signaled ev \<or> hardware_event_is_pending r e))"

text \<open>The loop over the member indices: the first member that is ready.\<close>

fun wait_scan :: "event_registry \<Rightarrow> event_set_handle \<Rightarrow> nat list \<Rightarrow> event_error + event_handle option" where
  "wait_scan r s [] = Ok None"
| "wait_scan r s (i # is) =
     result_bind (get_set r s) (\<lambda>rec.
     result_bind (ok_or (slice_get (es_members rec) i) EeStale) (\<lambda>e.
     result_bind (event_ready r e) (\<lambda>ready.
     if ready then Ok (Some e) else wait_scan r s is)))"

definition clear_signal :: "event_registry \<Rightarrow> event_handle \<Rightarrow> event_registry" where
  "clear_signal r e =
     (case get_event r e of Inl _ \<Rightarrow> r | Inr ev \<Rightarrow> put_event r e (ev\<lparr>ev_signaled := False\<rparr>))"

definition set_waiting :: "event_registry \<Rightarrow> event_set_handle \<Rightarrow> bool \<Rightarrow> (event_error + unit) \<times> event_registry" where
  "set_waiting r s w =
     (case get_set r s of
        Inl err \<Rightarrow> (Err err, r)
      | Inr rec \<Rightarrow> (Ok (), put_set r s (rec\<lparr>es_waiting := w\<rparr>)))"

definition wait_any ::
    "event_registry \<Rightarrow> service_handle \<Rightarrow> event_set_handle \<Rightarrow> u64 \<Rightarrow> u64 option
      \<Rightarrow> (event_error + event_wait) \<times> event_registry" where
  "wait_any r owner s now deadline =
     (let deadline = (case deadline of None \<Rightarrow> NO_DEADLINE | Some d \<Rightarrow> d)
      in if deadline \<noteq> NO_DEADLINE \<and> deadline < now then (Err EeInvalidDeadline, r)
         else case get_set r s of
           Inl err \<Rightarrow> (Err err, r)
         | Inr rec \<Rightarrow>
             if es_owner rec \<noteq> owner then (Err EeUnauthorized, r)
             else if es_invalidated rec then (Err EeStale, r)
             else case wait_scan r s [0 ..< length (es_members rec)] of
               Inl err \<Rightarrow> (Err err, r)
             | Inr (Some e) \<Rightarrow>
                 state_bind (set_waiting (consume_hardware_event (clear_signal r e) e) s False)
                   (\<lambda>_ r. (Ok (WaitReady e), r))
             | Inr None \<Rightarrow>
                 if deadline \<noteq> NO_DEADLINE \<and> now \<ge> deadline
                 then state_bind (set_waiting r s False) (\<lambda>_ r. (Ok WaitTimeout, r))
                 else state_bind (set_waiting r s True) (\<lambda>_ r. (Ok WaitPending, r)))"

definition set_members :: "event_registry \<Rightarrow> service_handle \<Rightarrow> event_set_handle \<Rightarrow> event_error + event_handle list" where
  "set_members r owner s =
     result_bind (get_set r s) (\<lambda>rec. if es_owner rec \<noteq> owner then Err EeUnauthorized else Ok (es_members rec))"

fun any_ready :: "event_registry \<Rightarrow> event_handle list \<Rightarrow> event_error + bool" where
  "any_ready r [] = Ok False"
| "any_ready r (e # es) = result_bind (event_ready r e) (\<lambda>ready. if ready then Ok True else any_ready r es)"

definition has_ready_event :: "event_registry \<Rightarrow> service_handle \<Rightarrow> event_set_handle \<Rightarrow> event_error + bool" where
  "has_ready_event r owner s =
     result_bind (get_set r s) (\<lambda>rec.
       if es_owner rec \<noteq> owner then Err EeUnauthorized else any_ready r (es_members rec))"

definition is_waiting :: "event_registry \<Rightarrow> service_handle \<Rightarrow> event_set_handle \<Rightarrow> event_error + bool" where
  "is_waiting r owner s =
     result_bind (get_set r s) (\<lambda>rec. if es_owner rec \<noteq> owner then Err EeUnauthorized else Ok (es_waiting rec))"

definition cancel_wait ::
    "event_registry \<Rightarrow> service_handle \<Rightarrow> event_set_handle \<Rightarrow> (event_error + unit) \<times> event_registry" where
  "cancel_wait r owner s =
     (case get_set r s of
        Inl err \<Rightarrow> (Err err, r)
      | Inr rec \<Rightarrow>
          if es_owner rec \<noteq> owner then (Err EeUnauthorized, r)
          else if es_invalidated rec then (Err EeStale, r)
          else
            let r = put_set r s (rec\<lparr>es_waiting := False\<rparr>)
            in (Ok (), if es_waiting rec then wake_event_set r s else r))"

section \<open>Destruction\<close>

text \<open>The body of the loop over the sets in \<open>destroy_event\<close>.\<close>

definition detach_set :: "event_handle \<Rightarrow> nat \<Rightarrow> event_registry \<Rightarrow> event_registry" where
  "detach_set e i r =
     (case slot_handle_of (er_sets r) i of
        None \<Rightarrow> r
      | Some s \<Rightarrow>
          (case sl_value (er_sets r ! i) of
             None \<Rightarrow> r
           | Some rec \<Rightarrow>
               if e \<in> set (es_members rec)
               then unbind_all_hardware_wait_sets (r\<lparr>er_sets := slot_put (er_sets r) i
                      (rec\<lparr>es_members := filter (\<lambda>m. m \<noteq> e) (es_members rec), es_waiting := False,
                           es_invalidated := True\<rparr>)\<rparr>) e s
               else r\<lparr>er_sets := slot_put (er_sets r) i
                      (rec\<lparr>es_members := filter (\<lambda>m. m \<noteq> e) (es_members rec)\<rparr>)\<rparr>))"

definition destroy_event ::
    "event_registry \<Rightarrow> service_handle \<Rightarrow> event_handle \<Rightarrow> (event_error + unit) \<times> event_registry" where
  "destroy_event r owner e =
     (case event_index r e of
        Inl err \<Rightarrow> (Err err, r)
      | Inr i \<Rightarrow>
          if (case sl_value (er_events r ! i) of None \<Rightarrow> False | Some ev \<Rightarrow> ev_owner ev \<noteq> owner)
          then (Err EeUnauthorized, r)
          else
            let r = wake_waiters r e;
                r = r\<lparr>er_events := slot_retire (er_events r) i\<rparr>;
                r = fold (detach_set e) [0 ..< length (er_sets r)] r
            in (Ok (), fold (\<lambda>source r. if hl_event_raw (er_hardware r source) = raw e
                        then clear_hardware_event r source else r) hardware_sources r))"

definition destroy_set ::
    "event_registry \<Rightarrow> service_handle \<Rightarrow> event_set_handle \<Rightarrow> (event_error + unit) \<times> event_registry" where
  "destroy_set r owner s =
     (case set_index r s of
        Inl err \<Rightarrow> (Err err, r)
      | Inr i \<Rightarrow>
          (case sl_value (er_sets r ! i) of
             None \<Rightarrow> (Ok (), r\<lparr>er_sets := slot_retire (er_sets r) i\<rparr>)
           | Some rec \<Rightarrow>
               if es_owner rec \<noteq> owner then (Err EeUnauthorized, r)
               else
                 let r = (if es_waiting rec then wake_event_set r s else r);
                     r = fold (\<lambda>e r. unbind_all_hardware_wait_sets r e s) (es_members rec) r
                 in (Ok (), r\<lparr>er_sets := slot_retire (er_sets r) i\<rparr>)))"

definition ownership_count :: "event_registry \<Rightarrow> service_handle \<Rightarrow> nat" where
  "ownership_count r owner =
     length (filter (\<lambda>ev. ev_owner ev = owner) (List.map_filter sl_value (er_events r)))"

definition event_set_count :: "event_registry \<Rightarrow> service_handle \<Rightarrow> nat" where
  "event_set_count r owner =
     length (filter (\<lambda>s. es_owner s = owner) (List.map_filter sl_value (er_sets r)))"

definition owned_events :: "event_registry \<Rightarrow> service_handle \<Rightarrow> event_handle list" where
  "owned_events r owner = slot_select (\<lambda>ev. ev_owner ev = owner) (er_events r)"

definition owned_sets :: "event_registry \<Rightarrow> service_handle \<Rightarrow> event_set_handle list" where
  "owned_sets r owner = slot_select (\<lambda>s. es_owner s = owner) (er_sets r)"

text \<open>The two loops of \<open>destroy_service\<close>.\<close>

definition destroy_events :: "service_handle \<Rightarrow> event_handle list \<Rightarrow> event_registry \<Rightarrow> event_registry" where
  "destroy_events owner = fold (\<lambda>e r. snd (destroy_event (wake_waiters r e) owner e))"

definition destroy_sets :: "service_handle \<Rightarrow> event_set_handle list \<Rightarrow> event_registry \<Rightarrow> event_registry" where
  "destroy_sets owner = fold (\<lambda>s r. snd (destroy_set
     (case get_set r s of Inl _ \<Rightarrow> r | Inr rec \<Rightarrow> if es_waiting rec then wake_event_set r s else r) owner s))"

definition events_destroy_service :: "event_registry \<Rightarrow> service_handle \<Rightarrow> event_registry" where
  "events_destroy_service r owner =
     (let r = destroy_events owner (owned_events r owner) r
      in destroy_sets owner (owned_sets r owner) r)"

section \<open>Lookups\<close>

lemma get_event_eq: "get_event r h = ok_or (slot_get (er_events r) h) EeStale"
  by (auto simp: get_event_def event_index_def slot_get_def ok_or_def split: option.splits)

lemma get_set_eq: "get_set r h = ok_or (slot_get (er_sets r) h) EeStale"
  by (auto simp: get_set_def set_index_def slot_get_def ok_or_def split: option.splits)

lemma get_event_Ok: "get_event r h = Ok e \<longleftrightarrow> slot_get (er_events r) h = Some e"
  by (simp add: get_event_eq ok_or_Ok)

lemma get_set_Ok: "get_set r h = Ok s \<longleftrightarrow> slot_get (er_sets r) h = Some s"
  by (simp add: get_set_eq ok_or_Ok)

lemma event_index_Ok: "event_index r h = Ok i \<longleftrightarrow> i = unat (handle_index h) \<and> slot_get (er_events r) h \<noteq> None"
  by (auto simp: event_index_def ok_or_Ok slot_find_Some slot_get_eq)

lemma set_index_Ok: "set_index r h = Ok i \<longleftrightarrow> i = unat (handle_index h) \<and> slot_get (er_sets r) h \<noteq> None"
  by (auto simp: set_index_def ok_or_Ok slot_find_Some slot_get_eq)

text \<open>Operations on the hardware lines and on the wake sequence leave the tables alone.\<close>

definition same_tables :: "event_registry \<Rightarrow> event_registry \<Rightarrow> bool" where
  "same_tables r r' \<longleftrightarrow> er_events r' = er_events r \<and> er_sets r' = er_sets r
     \<and> er_generation_seed r' = er_generation_seed r"

lemma same_tables_refl [simp]: "same_tables r r"
  by (simp add: same_tables_def)

lemma same_tables_trans: "same_tables r s \<Longrightarrow> same_tables s t \<Longrightarrow> same_tables r t"
  by (simp add: same_tables_def)

lemma same_tables_fold: "(\<And>x r. same_tables r (f x r)) \<Longrightarrow> same_tables r (fold f xs r)"
  by (induction xs arbitrary: r) (auto intro: same_tables_trans)

lemma same_tables_line [simp]: "same_tables r (put_line r source line)"
  by (simp add: same_tables_def put_line_def)

lemma same_tables_wake [simp]: "same_tables r (wake_event_set r s)"
  by (simp add: same_tables_def wake_event_set_def)

lemma same_tables_hardware:
  "same_tables r (bind_hardware_event r source e)" "same_tables r (clear_hardware_event r source)"
  "same_tables r (bind_all_hardware_wait_sets r e s)" "same_tables r (unbind_all_hardware_wait_sets r e s)"
  "same_tables r (consume_hardware_event r e)" "same_tables r (signal_hardware_event r source)"
  unfolding bind_hardware_event_def clear_hardware_event_def bind_all_hardware_wait_sets_def
    unbind_all_hardware_wait_sets_def consume_hardware_event_def
  by (auto simp: bind_hardware_wait_set_def unbind_hardware_wait_set_def Let_def signal_hardware_event_def
      intro!: same_tables_fold intro: same_tables_trans [OF same_tables_line same_tables_wake] split: option.splits)

lemmas tables_simps [simp] = same_tables_hardware [unfolded same_tables_def, THEN conjunct1]
  same_tables_hardware [unfolded same_tables_def, THEN conjunct2, THEN conjunct1]
  same_tables_hardware [unfolded same_tables_def, THEN conjunct2, THEN conjunct2]
  same_tables_wake [unfolded same_tables_def, THEN conjunct1]
  same_tables_wake [unfolded same_tables_def, THEN conjunct2, THEN conjunct1]
  same_tables_wake [unfolded same_tables_def, THEN conjunct2, THEN conjunct2]

lemma wake_all_eq: "fold (\<lambda>(s, _) r. wake_event_set r s) ws r = r\<lparr>er_woken := er_woken r @ map fst ws\<rparr>"
  by (induction ws arbitrary: r) (auto simp: wake_event_set_def)

lemma wake_waiters_eq: "wake_waiters r e = r\<lparr>er_woken := er_woken r @ map fst (waiters r e)\<rparr>"
  by (simp add: wake_waiters_def wake_all_eq)

section \<open>The loop over the sets\<close>

text \<open>What destroying an event does to one set.\<close>

definition detach_record :: "event_handle \<Rightarrow> event_set_record \<Rightarrow> event_set_record" where
  "detach_record e rec = (if e \<in> set (es_members rec)
     then rec\<lparr>es_members := filter (\<lambda>m. m \<noteq> e) (es_members rec), es_waiting := False, es_invalidated := True\<rparr> else rec)"

lemma detach_set_eq:
  assumes "i < length (er_sets r)" "sl_generation (er_sets r ! i) \<noteq> 0"
  shows "er_sets (detach_set e i r) = (er_sets r)[i := (er_sets r ! i)
      \<lparr>sl_value := map_option (detach_record e) (sl_value (er_sets r ! i))\<rparr>]"
proof (cases "sl_value (er_sets r ! i)")
  case None
  then have same: "(er_sets r ! i)\<lparr>sl_value := None\<rparr> = er_sets r ! i"
    by (intro slot.equality) simp_all
  show ?thesis using None by (auto simp: detach_set_def same split: option.splits)
next
  case (Some rec)
  obtain s :: event_set_handle where s: "slot_handle_of (er_sets r) i = Some s"
    using assms(2) by (auto simp: slot_handle_of_def handle_new_def)
  have "filter (\<lambda>m. m \<noteq> e) (es_members rec) = es_members rec" if "e \<notin> set (es_members rec)"
    using that by (auto simp: filter_id_conv)
  then show ?thesis using Some s by (simp add: detach_set_def detach_record_def slot_put_def)
qed

lemma detach_set_rest [simp]:
  "er_events (detach_set e i r) = er_events r" "er_generation_seed (detach_set e i r) = er_generation_seed r"
  "er_woken (detach_set e i r) = er_woken r"
  by (auto simp: detach_set_def unbind_all_hardware_wait_sets_def hardware_sources_def unbind_hardware_wait_set_def
      put_line_def Let_def split: option.splits)

lemma detach_all:
  assumes "\<forall>slot \<in> set (er_sets r). sl_generation slot \<noteq> 0"
  shows "er_sets (fold (detach_set e) [0 ..< length (er_sets r)] r) = slot_map (detach_record e) (er_sets r)"
proof -
  let ?f = "\<lambda>slot. slot\<lparr>sl_value := map_option (detach_record e) (sl_value slot)\<rparr>"
  have "er_sets (fold (detach_set e) [0 ..< n] r) = map ?f (take n (er_sets r)) @ drop n (er_sets r)"
    if "n \<le> length (er_sets r)" for n
    using that
  proof (induction n)
    case (Suc n)
    let ?r = "fold (detach_set e) [0 ..< n] r"
    have IH: "er_sets ?r = map ?f (take n (er_sets r)) @ drop n (er_sets r)" and n: "n < length (er_sets r)"
      using Suc by simp_all
    then have len: "length (er_sets ?r) = length (er_sets r)" and here: "er_sets ?r ! n = er_sets r ! n"
      by (simp_all add: nth_append)
    have "er_sets (detach_set e n ?r) = (er_sets ?r)[n := ?f (er_sets r ! n)]"
      using detach_set_eq [of n ?r e] assms n by (simp add: len here)
    also have "\<dots> = map ?f (take (Suc n) (er_sets r)) @ drop (Suc n) (er_sets r)"
      using n by (simp add: IH list_update_append take_Suc_conv_app_nth Cons_nth_drop_Suc [symmetric])
    finally show ?case by simp
  qed simp
  then show ?thesis by (simp add: slot_map_def)
qed

lemma detach_all_rest:
  "er_events (fold (detach_set e) is r) = er_events r"
  "er_generation_seed (fold (detach_set e) is r) = er_generation_seed r"
  "er_woken (fold (detach_set e) is r) = er_woken r"
  by (induction "is" arbitrary: r) simp_all

end
