(* ===== verification/Directory_Pages.thy ===== *)
theory Directory_Pages
  imports Runtime_ABI
begin

text \<open>
  The pages of the directory listings of \<open>src/runtime_events.rs\<close> and \<open>src/runtime_ipc.rs\<close>. The three
  listings run the same loop over their live records: pass over the records before the cursor,
  write up to 32 records, and set the continuation flag if there is another one. The loop is
  written once, with what a listing does at one record as a parameter.
\<close>

datatype page_action = Emit directory_record | Skip | Abort

datatype page_end = PageDone | PageMore | PageAbort

fun page_loop ::
    "('a \<Rightarrow> page_action) \<Rightarrow> u64 \<Rightarrow> u64 \<Rightarrow> directory_record list \<Rightarrow> 'a list \<Rightarrow> directory_record list \<times> page_end" where
  "page_loop emit cursor seen written [] = (written, PageDone)"
| "page_loop emit cursor seen written (x # xs) =
     (if seen < cursor then page_loop emit cursor (seen + 1) written xs
      else if length written = DIRECTORY_RECORDS_PER_PAGE then (written, PageMore)
      else case emit x of
        Skip \<Rightarrow> page_loop emit cursor seen written xs
      | Abort \<Rightarrow> (written, PageAbort)
      | Emit record \<Rightarrow> page_loop emit cursor (seen + 1) (written @ [record]) xs)"

definition page_response ::
    "directory_request \<Rightarrow> directory_record list \<times> page_end \<Rightarrow> directory_status \<times> directory_response" where
  "page_response request page =
     (let response = directory_response_empty (drq_operation request) DsOk (drq_request_id request);
          written = fst page;
          response = response\<lparr>drp_records := written @ drop (length written) (drp_records response)\<rparr>;
          cursor = saturating_add (drq_cursor request) (of_nat (length written))
      in case snd page of
           PageAbort \<Rightarrow> (DsMalformed, response)
         | PageMore \<Rightarrow> (DsOk, response\<lparr>drp_flags := drp_flags response OR DIRECTORY_FLAG_MORE,
             drp_cursor := cursor, drp_count := of_nat (length written)\<rparr>)
         | PageDone \<Rightarrow> (DsOk, response\<lparr>drp_count := of_nat (length written), drp_cursor := cursor\<rparr>))"

section \<open>What a page holds\<close>

text \<open>When every record is emitted, a page is the window of 32 records behind the cursor.\<close>

lemma page_loop_emits:
  assumes "\<And>x. x \<in> set xs \<Longrightarrow> emit x = Emit (f x)" "length written \<le> 32" "cursor \<le> seen" "unat seen + length xs < 2 ^ 64"
  shows "page_loop emit cursor seen written xs =
    (written @ map f (take (32 - length written) xs), if 32 - length written < length xs then PageMore else PageDone)"
  using assms
proof (induction xs arbitrary: seen written)
  case (Cons x xs)
  have next_seen: "cursor \<le> seen + 1" "unat (seen + 1) = Suc (unat seen)"
    using Cons.prems(3,4) by (simp_all add: word_le_nat_alt unat_add_no_overflow)
  show ?case
  proof (cases "length written = 32")
    case False
    then have "32 - length written = Suc (31 - length written)" using Cons.prems(2) by simp
    then show ?thesis
      using Cons.IH [of "written @ [f x]" "seen + 1"] Cons.prems next_seen False by (simp add: leD)
  qed (use Cons.prems in \<open>simp add: leD\<close>)
qed simp

lemma page_loop_window:
  assumes "\<And>x. x \<in> set xs \<Longrightarrow> emit x = Emit (f x)" "seen \<le> cursor" "unat seen + length xs < 2 ^ 64"
  shows "page_loop emit cursor seen [] xs = (map f (take 32 (drop (unat cursor - unat seen) xs)),
    if 32 < length (drop (unat cursor - unat seen) xs) then PageMore else PageDone)"
  using assms
proof (induction xs arbitrary: seen)
  case (Cons x xs)
  show ?case
  proof (cases "seen < cursor")
    case True
    then have less: "unat seen < unat cursor" by (simp add: word_less_nat_alt)
    have "unat (seen + 1) = Suc (unat seen)" using Cons.prems(3) by (simp add: unat_add_no_overflow)
    moreover have "drop (unat cursor - unat seen) (x # xs) = drop (unat cursor - Suc (unat seen)) xs"
      using less by (simp add: drop_Cons' Suc_diff_Suc)
    ultimately show ?thesis
      using Cons.IH [of "seen + 1"] Cons.prems less True by (simp add: word_le_nat_alt)
  next
    case False
    then have "seen = cursor" using Cons.prems(2) by simp
    then show ?thesis using page_loop_emits [of "x # xs" emit f "[]" cursor seen] Cons.prems by simp
  qed
qed simp

text \<open>The pages a client collects by following the cursors.\<close>

fun page_walk :: "(directory_request \<Rightarrow> directory_status \<times> directory_response) \<Rightarrow> nat \<Rightarrow> directory_request \<Rightarrow> directory_record list" where
  "page_walk listing 0 request = []"
| "page_walk listing (Suc n) request =
     (let response = snd (listing request)
      in take (unat (drp_count response)) (drp_records response)
         @ (if drp_flags response AND DIRECTORY_FLAG_MORE \<noteq> 0
            then page_walk listing n (request\<lparr>drq_cursor := drp_cursor response\<rparr>) else []))"

lemma page_walk_complete:
  assumes "\<And>x. x \<in> set xs \<Longrightarrow> emit x = Emit (f x)" "length xs < 2 ^ 64" "length xs < unat (drq_cursor request) + 32 * n"
    "\<And>cursor. listing (request\<lparr>drq_cursor := cursor\<rparr>)
       = page_response (request\<lparr>drq_cursor := cursor\<rparr>) (page_loop emit cursor 0 [] xs)"
  shows "page_walk listing n request = drop (unat (drq_cursor request)) (map f xs)"
  using assms(3,4)
proof (induction n arbitrary: request)
  case 0
  then show ?case by simp
next
  case (Suc n)
  let ?c = "drq_cursor request" and ?rest = "drop (unat (drq_cursor request)) xs"
  have "listing request = page_response request (page_loop emit ?c 0 [] xs)"
    using Suc.prems(2) [of ?c] by simp
  then have page: "listing request = page_response request (map f (take 32 ?rest), if 32 < length ?rest then PageMore else PageDone)"
    using page_loop_window [of xs emit f 0 ?c] assms(1,2) by simp
  have count: "unat (of_nat (length (take 32 ?rest)) :: u8) = length (take 32 ?rest)" by (simp add: unat_of_nat_u8)
  show ?case
  proof (cases "32 < length ?rest")
    case True
    have bound: "unat ?c + 32 < 2 ^ 64" using True assms(2) by simp
    then have cursor: "saturating_add ?c 32 = ?c + 32" "unat (?c + 32) = unat ?c + 32"
      by (simp_all add: saturating_add_def unat_add_no_overflow)
    have "page_walk listing n (request\<lparr>drq_cursor := ?c + 32\<rparr>) = drop (unat ?c + 32) (map f xs)"
      using Suc.IH [of "request\<lparr>drq_cursor := ?c + 32\<rparr>"] Suc.prems cursor(2) by simp
    moreover have "map f (take 32 ?rest) @ drop (unat ?c + 32) (map f xs) = drop (unat ?c) (map f xs)"
      using append_take_drop_id [of 32 "drop (unat ?c) (map f xs)"] by (simp add: take_map drop_map add.commute)
    ultimately show ?thesis
      using True cursor(1) by (simp add: page page_response_def Let_def directory_response_empty_def min_def)
  next
    case False
    then have "take 32 ?rest = ?rest" by simp
    then show ?thesis
      using False count by (simp add: page page_response_def Let_def directory_response_empty_def drop_map)
  qed
qed

end
