(* ===== verification/Runtime_IPC.thy ===== *)
theory Runtime_IPC
  imports Runtime_Events Directory_Pages
begin

text \<open>
  Message queues between services, \<open>src/runtime_ipc.rs\<close>: endpoints with a bounded ring of messages,
  capabilities that allow one service to send or receive on one endpoint, and their teardown. The
  ring of an endpoint is kept on the heap or in physical frames; the bytes of the frames are in an
  explicit memory. Sizes of type \<open>usize\<close> are natural numbers: they are bounded by the checks of
  the code, and the one sum that saturates is written out. The outcomes of \<open>Vec::try_reserve\<close> and
  the frame pool that takes back the frames are parameters. An out-of-range access, on which the
  code panics, is the value \<open>None\<close>.
\<close>

section \<open>Data\<close>

datatype ipc_rights = IrSend | IrReceive

fun ipc_rights_raw :: "ipc_rights \<Rightarrow> u8" where
  "ipc_rights_raw IrSend = 1"
| "ipc_rights_raw IrReceive = 2"

datatype ipc_status =
    IpcOk | IpcFull | IpcEmpty | IpcStale | IpcDisconnected | IpcUnauthorized | IpcMalformed

record frame_address =
  fa_raw :: u64
  fa_id :: "(u16 \<times> u32) option"
  fa_generation :: u16

datatype queue_storage = QueueHeap "u8 list list" | QueueFrames "frame_address list"

record endpoint_record =
  ep_handle :: endpoint_handle
  ep_producer :: service_handle
  ep_consumer :: service_handle
  ep_contract_id :: u16
  ep_message_bytes :: nat
  ep_queue_capacity :: nat
  ep_service_epoch :: u64
  ep_read_event :: event_handle
  ep_write_event :: event_handle
  ep_queue :: queue_storage
  ep_queue_head :: nat
  ep_queue_tail :: nat
  ep_queue_len :: nat

definition queue_message_empty :: "u8 list" where
  "queue_message_empty = replicate IPC_PAGE_BYTES 0"

record capability_record =
  cr_handle :: capability_handle
  cr_owner :: service_handle
  cr_endpoint :: endpoint_handle
  cr_rights :: ipc_rights
  cr_service_epoch :: u64

record ipc_registry =
  ir_endpoints :: "endpoint_record slot list"
  ir_capabilities :: "capability_record slot list"
  ir_generation_seed :: u32
  ir_capability_generation :: u32
  ir_queue_budget_messages :: nat
  ir_queue_committed_messages :: nat

abbreviation USIZE_MAX :: nat where "USIZE_MAX \<equiv> 2 ^ 64 - 1"

text \<open>The vectors that grow.\<close>

datatype ipc_vector = QueueBuffer | EndpointSlots | CapabilitySlots

type_synonym memory = "u64 \<Rightarrow> u8"

definition ipc_registry_new_with_generation_and_budget :: "u32 \<Rightarrow> nat \<Rightarrow> ipc_registry" where
  "ipc_registry_new_with_generation_and_budget generation queue_budget_messages =
     (let generation_seed = max generation 1
      in \<lparr>ir_endpoints = [], ir_capabilities = [], ir_generation_seed = generation_seed,
          ir_capability_generation = slot_next_generation generation_seed,
          ir_queue_budget_messages = queue_budget_messages, ir_queue_committed_messages = 0\<rparr>)"

definition ipc_registry_new_with_generation :: "u32 \<Rightarrow> ipc_registry" where
  "ipc_registry_new_with_generation generation = ipc_registry_new_with_generation_and_budget generation USIZE_MAX"

definition ipc_registry_new :: ipc_registry where
  "ipc_registry_new = ipc_registry_new_with_generation 1"

section \<open>Lookup and allocation\<close>

definition endpoint_slot :: "ipc_registry \<Rightarrow> endpoint_handle \<Rightarrow> ipc_status + nat" where
  "endpoint_slot r h = ok_or (slot_find (ir_endpoints r) h) IpcStale"

definition get_endpoint :: "ipc_registry \<Rightarrow> endpoint_handle \<Rightarrow> ipc_status + endpoint_record" where
  "get_endpoint r h = result_bind (endpoint_slot r h) (\<lambda>i. ok_or (sl_value (ir_endpoints r ! i)) IpcStale)"

text \<open>An assignment through the reference that \<open>endpoint_mut\<close> returns.\<close>

definition put_endpoint :: "ipc_registry \<Rightarrow> endpoint_handle \<Rightarrow> endpoint_record \<Rightarrow> ipc_registry" where
  "put_endpoint r h ep = r\<lparr>ir_endpoints := slot_put (ir_endpoints r) (unat (handle_index h)) ep\<rparr>"

definition get_capability :: "ipc_registry \<Rightarrow> capability_handle \<Rightarrow> ipc_status + capability_record" where
  "get_capability r h = ok_or (slot_get (ir_capabilities r) h) IpcStale"

definition allocate_endpoint_slot ::
    "(ipc_vector \<Rightarrow> bool) \<Rightarrow> ipc_registry \<Rightarrow> (ipc_status + nat) \<times> ipc_registry" where
  "allocate_endpoint_slot reserve r =
     (case slot_allocate (reserve EndpointSlots) (ir_generation_seed r) (ir_endpoints r) of
        None \<Rightarrow> (Err IpcDisconnected, r)
      | Some (i, endpoints) \<Rightarrow> (Ok i, r\<lparr>ir_endpoints := endpoints\<rparr>))"

definition allocate_capability_record ::
    "(ipc_vector \<Rightarrow> bool) \<Rightarrow> ipc_registry \<Rightarrow> (ipc_status + nat) \<times> ipc_registry" where
  "allocate_capability_record reserve r =
     (case slot_allocate (reserve CapabilitySlots) (ir_capability_generation r) (ir_capabilities r) of
        None \<Rightarrow> (Err IpcDisconnected, r)
      | Some (i, capabilities) \<Rightarrow> (Ok i, r\<lparr>ir_capabilities := capabilities\<rparr>))"

section \<open>Creation\<close>

text \<open>The arguments that the three creation functions share.\<close>

record endpoint_args =
  ea_producer :: service_handle
  ea_consumer :: service_handle
  ea_contract_id :: u16
  ea_message_bytes :: nat
  ea_queue_capacity :: nat
  ea_service_epoch :: u64

definition endpoint_args_malformed :: "endpoint_args \<Rightarrow> bool" where
  "endpoint_args_malformed a \<longleftrightarrow> \<not> handle_is_valid (ea_producer a) \<or> \<not> handle_is_valid (ea_consumer a)
     \<or> ea_producer a = ea_consumer a \<or> ea_message_bytes a = 0 \<or> ea_message_bytes a > IPC_PAGE_BYTES
     \<or> ea_queue_capacity a = 0 \<or> ea_queue_capacity a > 65535 \<or> ea_service_epoch a = 0"

definition over_budget :: "ipc_registry \<Rightarrow> endpoint_args \<Rightarrow> bool" where
  "over_budget r a \<longleftrightarrow> ea_queue_capacity a > ir_queue_budget_messages r - ir_queue_committed_messages r"

definition create_endpoint_with_queue ::
    "(ipc_vector \<Rightarrow> bool) \<Rightarrow> (event_vector \<Rightarrow> bool) \<Rightarrow> (event_vector \<Rightarrow> bool) \<Rightarrow> ipc_registry \<Rightarrow> event_registry
      \<Rightarrow> endpoint_args \<Rightarrow> queue_storage \<Rightarrow> (ipc_status + endpoint_handle) \<times> ipc_registry \<times> event_registry" where
  "create_endpoint_with_queue reserve reserve_read reserve_write r events a queue =
     (if endpoint_args_malformed a then (Err IpcMalformed, r, events)
      else if over_budget r a then (Err IpcFull, r, events)
      else case allocate_endpoint_slot reserve r of
        (Inl status, r) \<Rightarrow> (Err status, r, events)
      | (Inr slot, r) \<Rightarrow>
          (case slot_handle_of (ir_endpoints r) slot of
             None \<Rightarrow> (Err IpcMalformed, r, events)
           | Some handle \<Rightarrow>
               (case create_event reserve_read events (ea_consumer a) of
                  (Inl _, events) \<Rightarrow> (Err IpcDisconnected, r, events)
                | (Inr read_event, events) \<Rightarrow>
                    (case create_event reserve_write events (ea_producer a) of
                       (Inl error, events) \<Rightarrow>
                         (Err (case error of EeUnauthorized \<Rightarrow> IpcUnauthorized | _ \<Rightarrow> IpcDisconnected), r,
                          snd (destroy_event events (ea_consumer a) read_event))
                     | (Inr write_event, events) \<Rightarrow>
                         (Ok handle,
                          r\<lparr>ir_endpoints := slot_put (ir_endpoints r) slot
                              \<lparr>ep_handle = handle, ep_producer = ea_producer a, ep_consumer = ea_consumer a,
                               ep_contract_id = ea_contract_id a, ep_message_bytes = ea_message_bytes a,
                               ep_queue_capacity = ea_queue_capacity a, ep_service_epoch = ea_service_epoch a,
                               ep_read_event = read_event, ep_write_event = write_event, ep_queue = queue,
                               ep_queue_head = 0, ep_queue_tail = 0, ep_queue_len = 0\<rparr>,
                            ir_queue_committed_messages :=
                              min (ir_queue_committed_messages r + ea_queue_capacity a) USIZE_MAX\<rparr>,
                          events)))))"

definition create_endpoint ::
    "(ipc_vector \<Rightarrow> bool) \<Rightarrow> (event_vector \<Rightarrow> bool) \<Rightarrow> (event_vector \<Rightarrow> bool) \<Rightarrow> ipc_registry \<Rightarrow> event_registry
      \<Rightarrow> endpoint_args \<Rightarrow> (ipc_status + endpoint_handle) \<times> ipc_registry \<times> event_registry" where
  "create_endpoint reserve reserve_read reserve_write r events a =
     (if endpoint_args_malformed a then (Err IpcMalformed, r, events)
      else if over_budget r a then (Err IpcFull, r, events)
      else if \<not> reserve QueueBuffer then (Err IpcDisconnected, r, events)
      else create_endpoint_with_queue reserve reserve_read reserve_write r events a
             (QueueHeap (replicate (ea_queue_capacity a) queue_message_empty)))"

definition create_endpoint_with_frames ::
    "(ipc_vector \<Rightarrow> bool) \<Rightarrow> (event_vector \<Rightarrow> bool) \<Rightarrow> (event_vector \<Rightarrow> bool) \<Rightarrow> ipc_registry \<Rightarrow> event_registry
      \<Rightarrow> endpoint_args \<Rightarrow> frame_address list \<Rightarrow> (ipc_status + endpoint_handle) \<times> ipc_registry \<times> event_registry" where
  "create_endpoint_with_frames reserve reserve_read reserve_write r events a queue_frames =
     (if length queue_frames \<noteq> ea_queue_capacity a then (Err IpcMalformed, r, events)
      else if \<not> reserve QueueBuffer then (Err IpcDisconnected, r, events)
      else create_endpoint_with_queue reserve reserve_read reserve_write r events a (QueueFrames queue_frames))"

section \<open>Grants and lookups\<close>

definition ipc_grant ::
    "(ipc_vector \<Rightarrow> bool) \<Rightarrow> ipc_registry \<Rightarrow> service_handle \<Rightarrow> endpoint_handle \<Rightarrow> ipc_rights
      \<Rightarrow> (ipc_status + capability_handle) \<times> ipc_registry" where
  "ipc_grant reserve r owner endpoint rights =
     (case get_endpoint r endpoint of
        Inl status \<Rightarrow> (Err status, r)
      | Inr ep \<Rightarrow>
          if (case rights of IrSend \<Rightarrow> ep_producer ep | IrReceive \<Rightarrow> ep_consumer ep) \<noteq> owner
          then (Err IpcUnauthorized, r)
          else state_bind (allocate_capability_record reserve r) (\<lambda>slot r.
            case slot_handle_of (ir_capabilities r) slot of
              None \<Rightarrow> (Err IpcMalformed, r)
            | Some handle \<Rightarrow> (Ok handle, r\<lparr>ir_capabilities := slot_put (ir_capabilities r) slot
                \<lparr>cr_handle = handle, cr_owner = owner, cr_endpoint = endpoint, cr_rights = rights,
                 cr_service_epoch = ep_service_epoch ep\<rparr>\<rparr>)))"

definition capability_for ::
    "ipc_registry \<Rightarrow> service_handle \<Rightarrow> endpoint_handle \<Rightarrow> ipc_rights \<Rightarrow> ipc_status + capability_handle" where
  "capability_for r owner endpoint rights =
     ok_or (map_option cr_handle (find (\<lambda>grant. cr_owner grant = owner \<and> cr_endpoint grant = endpoint \<and> cr_rights grant = rights)
              (live_values (ir_capabilities r)))) IpcUnauthorized"

definition ownership_counts :: "ipc_registry \<Rightarrow> service_handle \<Rightarrow> nat \<times> nat" where
  "ownership_counts r owner =
     (length (filter (\<lambda>ep. ep_producer ep = owner \<or> ep_consumer ep = owner) (live_values (ir_endpoints r))),
      length (filter (\<lambda>grant. cr_owner grant = owner) (live_values (ir_capabilities r))))"

definition endpoint_contract_id :: "ipc_registry \<Rightarrow> endpoint_handle \<Rightarrow> ipc_status + u16" where
  "endpoint_contract_id r h = result_bind (get_endpoint r h) (\<lambda>ep. Ok (ep_contract_id ep))"

definition endpoint_matches ::
    "ipc_registry \<Rightarrow> endpoint_handle \<Rightarrow> service_handle \<Rightarrow> service_handle \<Rightarrow> u16 \<Rightarrow> ipc_status + bool" where
  "endpoint_matches r h producer consumer contract_id =
     result_bind (get_endpoint r h) (\<lambda>ep.
       Ok (ep_producer ep = producer \<and> ep_consumer ep = consumer \<and> ep_contract_id ep = contract_id))"

definition all_endpoint_generations_differ :: "ipc_registry \<Rightarrow> u32 \<Rightarrow> bool" where
  "all_endpoint_generations_differ r generation \<longleftrightarrow>
     list_all (\<lambda>ep. handle_generation (ep_handle ep) \<noteq> generation) (live_values (ir_endpoints r))"

definition find_endpoint :: "ipc_registry \<Rightarrow> service_handle \<Rightarrow> service_handle \<Rightarrow> u16 \<Rightarrow> ipc_status + endpoint_handle" where
  "find_endpoint r producer consumer contract_id =
     (if \<not> handle_is_valid producer \<or> \<not> handle_is_valid consumer \<or> contract_id = 0 then Err IpcMalformed
      else ok_or (map_option ep_handle (find (\<lambda>ep. ep_producer ep = producer \<and> ep_consumer ep = consumer
             \<and> ep_contract_id ep = contract_id) (live_values (ir_endpoints r)))) IpcDisconnected)"

definition endpoint_events :: "ipc_registry \<Rightarrow> endpoint_handle \<Rightarrow> ipc_status + event_handle \<times> event_handle" where
  "endpoint_events r h = result_bind (get_endpoint r h) (\<lambda>ep. Ok (ep_read_event ep, ep_write_event ep))"

definition capability_endpoint ::
    "ipc_registry \<Rightarrow> service_handle \<Rightarrow> capability_handle \<Rightarrow> ipc_rights \<Rightarrow> ipc_status + endpoint_handle \<times> nat" where
  "capability_endpoint r caller capability rights =
     result_bind (get_capability r capability) (\<lambda>grant.
       if cr_owner grant \<noteq> caller \<or> cr_rights grant \<noteq> rights then Err IpcUnauthorized
       else result_bind (get_endpoint r (cr_endpoint grant)) (\<lambda>ep.
         if cr_service_epoch grant \<noteq> ep_service_epoch ep then Err IpcStale
         else Ok (ep_handle ep, ep_message_bytes ep)))"

definition validate_capability ::
    "ipc_registry \<Rightarrow> service_handle \<Rightarrow> capability_handle \<Rightarrow> ipc_rights \<Rightarrow> nat \<Rightarrow> ipc_status + endpoint_handle" where
  "validate_capability r caller capability rights message_bytes =
     result_bind (capability_endpoint r caller capability rights) (\<lambda>(endpoint, expected_bytes).
       if message_bytes \<noteq> expected_bytes then Err IpcMalformed else Ok endpoint)"

section \<open>Teardown\<close>

definition queue_frames :: "queue_storage \<Rightarrow> frame_address list" where
  "queue_frames queue = (case queue of QueueHeap _ \<Rightarrow> [] | QueueFrames frames \<Rightarrow> frames)"

text \<open>The argument \<open>reserve\<close> is the outcome of the reservation for the copied frame list.\<close>

definition destroy_endpoint_inner ::
    "bool \<Rightarrow> ipc_registry \<Rightarrow> event_registry \<Rightarrow> endpoint_handle
      \<Rightarrow> (ipc_status + frame_address list) \<times> ipc_registry \<times> event_registry" where
  "destroy_endpoint_inner reserve r events endpoint =
     (case endpoint_slot r endpoint of
        Inl status \<Rightarrow> (Err status, r, events)
      | Inr slot \<Rightarrow>
          let retire = (\<lambda>r. r\<lparr>ir_endpoints := slot_retire (ir_endpoints r) slot,
                 ir_capabilities := slot_sweep (\<lambda>grant. cr_endpoint grant = endpoint) (ir_capabilities r)\<rparr>)
          in case sl_value (ir_endpoints r ! slot) of
               None \<Rightarrow> (Ok [], retire r, events)
             | Some ep \<Rightarrow>
                 let r = r\<lparr>ir_queue_committed_messages := ir_queue_committed_messages r - ep_queue_capacity ep\<rparr>;
                     events = snd (destroy_event events (ep_consumer ep) (ep_read_event ep));
                     events = snd (destroy_event events (ep_producer ep) (ep_write_event ep))
                 in case ep_queue ep of
                      QueueHeap _ \<Rightarrow> (Ok [], retire r, events)
                    | QueueFrames frames \<Rightarrow>
                        if \<not> reserve then (Err IpcDisconnected, r, events) else (Ok frames, retire r, events))"

definition destroy_endpoint ::
    "bool \<Rightarrow> ipc_registry \<Rightarrow> event_registry \<Rightarrow> endpoint_handle \<Rightarrow> (ipc_status + unit) \<times> ipc_registry \<times> event_registry" where
  "destroy_endpoint reserve r events endpoint =
     (case destroy_endpoint_inner reserve r events endpoint of
        (Inl status, rest) \<Rightarrow> (Err status, rest)
      | (Inr _, rest) \<Rightarrow> (Ok (), rest))"

text \<open>The frame pool: releasing a frame succeeds or not and changes the pool.\<close>

type_synonym 'pool release = "'pool \<Rightarrow> frame_address \<Rightarrow> bool \<times> 'pool"

fun release_frames :: "'pool release \<Rightarrow> 'pool \<Rightarrow> frame_address list \<Rightarrow> (ipc_status + unit) \<times> 'pool" where
  "release_frames release pool [] = (Ok (), pool)"
| "release_frames release pool (frame # frames) =
     (case release pool frame of
        (False, pool) \<Rightarrow> (Err IpcDisconnected, pool)
      | (True, pool) \<Rightarrow> release_frames release pool frames)"

definition destroy_endpoint_with_pool ::
    "'pool release \<Rightarrow> bool \<Rightarrow> ipc_registry \<Rightarrow> event_registry \<Rightarrow> 'pool \<Rightarrow> endpoint_handle
      \<Rightarrow> (ipc_status + unit) \<times> ipc_registry \<times> event_registry \<times> 'pool" where
  "destroy_endpoint_with_pool release reserve r events pool endpoint =
     (case destroy_endpoint_inner reserve r events endpoint of
        (Inl status, r, events) \<Rightarrow> (Err status, r, events, pool)
      | (Inr frames, r, events) \<Rightarrow>
          (case release_frames release pool frames of (result, pool) \<Rightarrow> (result, r, events, pool)))"

definition service_endpoints :: "ipc_registry \<Rightarrow> service_handle \<Rightarrow> endpoint_handle list" where
  "service_endpoints r service = map ep_handle
     (filter (\<lambda>ep. ep_producer ep = service \<or> ep_consumer ep = service) (live_values (ir_endpoints r)))"

fun destroy_endpoints ::
    "'pool release \<Rightarrow> (endpoint_handle \<Rightarrow> bool) \<Rightarrow> endpoint_handle list \<Rightarrow> ipc_registry \<Rightarrow> event_registry \<Rightarrow> 'pool option
      \<Rightarrow> ipc_registry \<times> event_registry \<times> 'pool option" where
  "destroy_endpoints release reserve [] r events pool = (r, events, pool)"
| "destroy_endpoints release reserve (h # hs) r events None =
     (case destroy_endpoint (reserve h) r events h of
        (_, r, events) \<Rightarrow> destroy_endpoints release reserve hs r events None)"
| "destroy_endpoints release reserve (h # hs) r events (Some pool) =
     (case destroy_endpoint_with_pool release (reserve h) r events pool h of
        (_, r, events, pool) \<Rightarrow> destroy_endpoints release reserve hs r events (Some pool))"

definition destroy_service_inner ::
    "'pool release \<Rightarrow> (endpoint_handle \<Rightarrow> bool) \<Rightarrow> ipc_registry \<Rightarrow> event_registry \<Rightarrow> service_handle \<Rightarrow> 'pool option
      \<Rightarrow> ipc_registry \<times> event_registry \<times> 'pool option" where
  "destroy_service_inner release reserve r events service pool =
     (case destroy_endpoints release reserve (service_endpoints r service) r events pool of
        (r, events, pool) \<Rightarrow>
          (r\<lparr>ir_capabilities := slot_sweep (\<lambda>grant. cr_owner grant = service) (ir_capabilities r)\<rparr>,
           events_destroy_service events service, pool))"

definition ipc_destroy_service ::
    "(endpoint_handle \<Rightarrow> bool) \<Rightarrow> ipc_registry \<Rightarrow> event_registry \<Rightarrow> service_handle \<Rightarrow> ipc_registry \<times> event_registry" where
  "ipc_destroy_service reserve r events service =
     (case destroy_service_inner (\<lambda>pool _. (True, pool)) reserve r events service (None :: unit option) of
        (r, events, _) \<Rightarrow> (r, events))"

definition ipc_destroy_service_with_pool ::
    "'pool release \<Rightarrow> (endpoint_handle \<Rightarrow> bool) \<Rightarrow> ipc_registry \<Rightarrow> event_registry \<Rightarrow> service_handle \<Rightarrow> 'pool
      \<Rightarrow> ipc_registry \<times> event_registry \<times> 'pool option" where
  "ipc_destroy_service_with_pool release reserve r events service pool =
     destroy_service_inner release reserve r events service (Some pool)"

fun drain_endpoints ::
    "(endpoint_handle \<Rightarrow> bool) \<Rightarrow> endpoint_handle list \<Rightarrow> frame_address list \<Rightarrow> ipc_registry \<Rightarrow> event_registry
      \<Rightarrow> frame_address list \<times> ipc_registry \<times> event_registry" where
  "drain_endpoints reserve [] frames r events = (frames, r, events)"
| "drain_endpoints reserve (h # hs) frames r events =
     (case destroy_endpoint_inner (reserve h) r events h of
        (Inr taken, r, events) \<Rightarrow> drain_endpoints reserve hs (frames @ taken) r events
      | (Inl _, r, events) \<Rightarrow> drain_endpoints reserve hs frames r events)"

definition drain_queue_frames ::
    "(endpoint_handle \<Rightarrow> bool) \<Rightarrow> ipc_registry \<Rightarrow> event_registry \<Rightarrow> frame_address list \<times> ipc_registry \<times> event_registry" where
  "drain_queue_frames reserve r events =
     drain_endpoints reserve (map ep_handle (live_values (ir_endpoints r))) [] r events"

section \<open>Messages\<close>

definition memory_write :: "memory \<Rightarrow> u64 \<Rightarrow> u8 list \<Rightarrow> memory" where
  "memory_write mem base bytes = (\<lambda>a. if unat (a - base) < length bytes then bytes ! unat (a - base) else mem a)"

definition memory_read :: "memory \<Rightarrow> u64 \<Rightarrow> nat \<Rightarrow> u8 list" where
  "memory_read mem base n = map (\<lambda>k. mem (base + of_nat k)) [0 ..< n]"

definition queue_write :: "memory \<Rightarrow> queue_storage \<Rightarrow> nat \<Rightarrow> u8 list \<Rightarrow> (queue_storage \<times> memory) option" where
  "queue_write mem queue index bytes =
     (case queue of
        QueueHeap q \<Rightarrow>
          if index < length q \<and> length bytes \<le> length (q ! index)
          then Some (QueueHeap (q[index := bytes @ drop (length bytes) (q ! index)]), mem) else None
      | QueueFrames q \<Rightarrow>
          if index < length q then Some (queue, memory_write mem (fa_raw (q ! index)) bytes) else None)"

definition queue_read :: "memory \<Rightarrow> queue_storage \<Rightarrow> nat \<Rightarrow> nat \<Rightarrow> u8 list option" where
  "queue_read mem queue index n =
     (case queue of
        QueueHeap q \<Rightarrow> if index < length q \<and> n \<le> length (q ! index) then Some (take n (q ! index)) else None
      | QueueFrames q \<Rightarrow> if index < length q then Some (memory_read mem (fa_raw (q ! index)) n) else None)"

definition ipc_send ::
    "ipc_registry \<Rightarrow> event_registry \<Rightarrow> memory \<Rightarrow> service_handle \<Rightarrow> capability_handle \<Rightarrow> u8 list
      \<Rightarrow> (ipc_status \<times> ipc_registry \<times> event_registry \<times> memory) option" where
  "ipc_send r events mem caller capability bytes =
     (case get_capability r capability of
        Inl status \<Rightarrow> Some (status, r, events, mem)
      | Inr grant \<Rightarrow>
          if cr_owner grant \<noteq> caller \<or> cr_rights grant \<noteq> IrSend then Some (IpcUnauthorized, r, events, mem)
          else case get_endpoint r (cr_endpoint grant) of
            Inl status \<Rightarrow> Some (status, r, events, mem)
          | Inr ep \<Rightarrow>
              if cr_service_epoch grant \<noteq> ep_service_epoch ep then Some (IpcStale, r, events, mem)
              else if length bytes \<noteq> ep_message_bytes ep then Some (IpcMalformed, r, events, mem)
              else if ep_queue_len ep \<ge> ep_queue_capacity ep then Some (IpcFull, r, events, mem)
              else case queue_write mem (ep_queue ep) (ep_queue_tail ep) bytes of
                None \<Rightarrow> None
              | Some (queue, mem) \<Rightarrow>
                  Some (IpcOk,
                    put_endpoint r (cr_endpoint grant) (ep\<lparr>ep_queue := queue,
                      ep_queue_tail := (ep_queue_tail ep + 1) mod ep_queue_capacity ep, ep_queue_len := ep_queue_len ep + 1\<rparr>),
                    snd (signal_irq events (ep_read_event ep)), mem))"

text \<open>The buffer of the caller comes back with the message, or as it was.\<close>

definition ipc_receive ::
    "ipc_registry \<Rightarrow> event_registry \<Rightarrow> memory \<Rightarrow> service_handle \<Rightarrow> capability_handle \<Rightarrow> u8 list
      \<Rightarrow> (ipc_status \<times> u8 list \<times> ipc_registry \<times> event_registry) option" where
  "ipc_receive r events mem caller capability buffer =
     (case get_capability r capability of
        Inl status \<Rightarrow> Some (status, buffer, r, events)
      | Inr grant \<Rightarrow>
          if cr_owner grant \<noteq> caller \<or> cr_rights grant \<noteq> IrReceive then Some (IpcUnauthorized, buffer, r, events)
          else case get_endpoint r (cr_endpoint grant) of
            Inl status \<Rightarrow> Some (status, buffer, r, events)
          | Inr ep \<Rightarrow>
              if cr_service_epoch grant \<noteq> ep_service_epoch ep then Some (IpcStale, buffer, r, events)
              else if length buffer \<noteq> ep_message_bytes ep then Some (IpcMalformed, buffer, r, events)
              else if ep_queue_len ep = 0 then Some (IpcEmpty, buffer, r, events)
              else case queue_read mem (ep_queue ep) (ep_queue_head ep) (ep_message_bytes ep) of
                None \<Rightarrow> None
              | Some message \<Rightarrow>
                  Some (IpcOk, message,
                    put_endpoint r (cr_endpoint grant) (ep\<lparr>
                      ep_queue_head := (ep_queue_head ep + 1) mod ep_queue_capacity ep, ep_queue_len := ep_queue_len ep - 1\<rparr>),
                    snd (signal_irq events (ep_write_event ep))))"

section \<open>Lookups as table lookups\<close>

lemma get_endpoint_eq: "get_endpoint r h = ok_or (slot_get (ir_endpoints r) h) IpcStale"
  by (auto simp: get_endpoint_def endpoint_slot_def slot_get_def ok_or_def split: option.splits)

lemma get_endpoint_Ok [simp]: "get_endpoint r h = Ok ep \<longleftrightarrow> slot_get (ir_endpoints r) h = Some ep"
  by (simp add: get_endpoint_eq ok_or_Ok)

lemma get_capability_Ok [simp]: "get_capability r h = Ok grant \<longleftrightarrow> slot_get (ir_capabilities r) h = Some grant"
  by (simp add: get_capability_def ok_or_Ok)

end
