(* ===== verification/IPC_Queues.thy ===== *)
theory IPC_Queues
  imports Runtime_IPC
begin

text \<open>
  The ring of messages of an endpoint as a list: the messages between head and tail, in order. A
  send appends to the list and a receive takes its first message, and both leave the memory outside
  the frames of the ring as it is.
\<close>

section \<open>Memory\<close>

lemma unat_of_nat_u64: "k < 2 ^ 64 \<Longrightarrow> unat (of_nat k :: u64) = k"
  by (simp add: unsigned_of_nat take_bit_nat_eq_self)

lemma memory_read_length [simp]: "length (memory_read mem base n) = n"
  by (simp add: memory_read_def)

lemma memory_read_write: "length bytes < 2 ^ 64 \<Longrightarrow> memory_read (memory_write mem base bytes) base (length bytes) = bytes"
  by (rule nth_equalityI) (simp_all add: memory_read_def memory_write_def unat_of_nat_u64)

definition frame_range :: "frame_address \<Rightarrow> u64 set" where
  "frame_range f = {a. unat (a - fa_raw f) < IPC_PAGE_BYTES}"

lemma memory_read_cong:
  assumes "\<And>a. a \<in> frame_range f \<Longrightarrow> mem' a = mem a" "n \<le> IPC_PAGE_BYTES"
  shows "memory_read mem' (fa_raw f) n = memory_read mem (fa_raw f) n"
  using assms by (auto simp: memory_read_def frame_range_def unat_of_nat_u64)

lemma memory_write_outside:
  "length bytes \<le> IPC_PAGE_BYTES \<Longrightarrow> a \<notin> frame_range f \<Longrightarrow> memory_write mem (fa_raw f) bytes a = mem a"
  by (auto simp: memory_write_def frame_range_def)

section \<open>Rings\<close>

definition frames_apart :: "frame_address list \<Rightarrow> bool" where
  "frames_apart fs \<longleftrightarrow> (\<forall>i < length fs. \<forall>j < length fs. i \<noteq> j \<longrightarrow> frame_range (fs ! i) \<inter> frame_range (fs ! j) = {})"

definition footprint :: "frame_address list \<Rightarrow> u64 set" where
  "footprint fs = (\<Union>f \<in> set fs. frame_range f)"

definition queue_ok :: "nat \<Rightarrow> queue_storage \<Rightarrow> bool" where
  "queue_ok capacity queue = (case queue of
     QueueHeap q \<Rightarrow> length q = capacity \<and> (\<forall>m \<in> set q. length m = IPC_PAGE_BYTES)
   | QueueFrames q \<Rightarrow> length q = capacity \<and> frames_apart q)"

text \<open>Reading and writing well-formed rings never leaves them.\<close>

lemma queue_read_ok:
  assumes "queue_ok capacity queue" "i < capacity" "n \<le> IPC_PAGE_BYTES"
  shows "\<exists>m. queue_read mem queue i n = Some m \<and> length m = n"
  using assms by (cases queue) (auto simp: queue_ok_def queue_read_def all_set_conv_all_nth)

lemma queue_read_cong:
  assumes "queue_ok capacity queue" "n \<le> IPC_PAGE_BYTES" "\<And>a. a \<in> footprint (queue_frames queue) \<Longrightarrow> mem' a = mem a"
  shows "queue_read mem' queue i n = queue_read mem queue i n"
  using assms by (cases queue) (auto simp: queue_read_def queue_frames_def footprint_def intro!: memory_read_cong intro: nth_mem)

lemma queue_write_ok:
  assumes "queue_ok capacity queue" "i < capacity" "length bytes \<le> IPC_PAGE_BYTES"
  shows "\<exists>queue' mem'. queue_write mem queue i bytes = Some (queue', mem') \<and> queue_ok capacity queue'
    \<and> queue_frames queue' = queue_frames queue \<and> (\<forall>a. a \<notin> footprint (queue_frames queue) \<longrightarrow> mem' a = mem a)
    \<and> queue_read mem' queue' i (length bytes) = Some bytes
    \<and> (\<forall>j n. j < capacity \<longrightarrow> j \<noteq> i \<longrightarrow> n \<le> IPC_PAGE_BYTES \<longrightarrow> queue_read mem' queue' j n = queue_read mem queue j n)"
proof (cases queue)
  case (QueueHeap q)
  then have i: "i < length q" "length (q ! i) = IPC_PAGE_BYTES" using assms by (auto simp: queue_ok_def)
  let ?m = "bytes @ drop (length bytes) (q ! i)"
  have "length ?m = IPC_PAGE_BYTES" using assms(3) i(2) by simp
  then have "queue_ok capacity (QueueHeap (q[i := ?m]))"
    using assms(1) QueueHeap by (auto simp: queue_ok_def dest!: set_updateD)
  then show ?thesis using i assms(3) QueueHeap
    by (auto simp: queue_write_def queue_read_def queue_frames_def)
next
  case (QueueFrames q)
  then have q: "length q = capacity" "frames_apart q" using assms(1) by (auto simp: queue_ok_def)
  let ?mem = "memory_write mem (fa_raw (q ! i)) bytes"
  have other: "memory_read ?mem (fa_raw (q ! j)) n = memory_read mem (fa_raw (q ! j)) n"
    if "j < capacity" "j \<noteq> i" "n \<le> IPC_PAGE_BYTES" for j n
  proof (rule memory_read_cong)
    fix a assume "a \<in> frame_range (q ! j)"
    then have "a \<notin> frame_range (q ! i)" using q that(1,2) assms(2) by (auto simp: frames_apart_def)
    then show "?mem a = mem a" using assms(3) by (rule memory_write_outside [rotated])
  qed (use that in simp)
  have "a \<notin> footprint q \<Longrightarrow> ?mem a = mem a" for a
    using assms(2,3) q(1) by (intro memory_write_outside) (auto simp: footprint_def)
  moreover have "memory_read ?mem (fa_raw (q ! i)) (length bytes) = bytes"
    using assms(3) by (intro memory_read_write) simp
  ultimately show ?thesis
    using q assms(1,2) other QueueFrames by (auto simp: queue_write_def queue_read_def queue_frames_def)
qed

lemma ring_positions_differ: "k < l \<Longrightarrow> l - k < c \<Longrightarrow> (h + k) mod c \<noteq> (h + l) mod (c :: nat)"
proof
  assume "k < l" "l - k < c" "(h + k) mod c = (h + l) mod c"
  then have "c dvd (h + l) - (h + k)" by (metis mod_eq_dvd_iff_nat nat_add_left_cancel_le less_imp_le)
  then show False using \<open>k < l\<close> \<open>l - k < c\<close> by (auto dest: dvd_imp_le)
qed

section \<open>Endpoints\<close>

definition message_at :: "memory \<Rightarrow> endpoint_record \<Rightarrow> nat \<Rightarrow> u8 list" where
  "message_at mem ep k =
     (case queue_read mem (ep_queue ep) ((ep_queue_head ep + k) mod ep_queue_capacity ep) (ep_message_bytes ep) of
        None \<Rightarrow> [] | Some m \<Rightarrow> m)"

definition queue_contents :: "memory \<Rightarrow> endpoint_record \<Rightarrow> u8 list list" where
  "queue_contents mem ep = map (message_at mem ep) [0 ..< ep_queue_len ep]"

definition endpoint_ok :: "endpoint_handle \<Rightarrow> endpoint_record \<Rightarrow> bool" where
  "endpoint_ok h ep \<longleftrightarrow> ep_handle ep = h \<and> handle_is_valid (ep_producer ep) \<and> handle_is_valid (ep_consumer ep)
     \<and> ep_producer ep \<noteq> ep_consumer ep \<and> 0 < ep_message_bytes ep \<and> ep_message_bytes ep \<le> IPC_PAGE_BYTES
     \<and> 0 < ep_queue_capacity ep \<and> ep_queue_capacity ep \<le> 65535 \<and> ep_service_epoch ep \<noteq> 0
     \<and> queue_ok (ep_queue_capacity ep) (ep_queue ep) \<and> ep_queue_head ep < ep_queue_capacity ep
     \<and> ep_queue_len ep \<le> ep_queue_capacity ep
     \<and> ep_queue_tail ep = (ep_queue_head ep + ep_queue_len ep) mod ep_queue_capacity ep"

abbreviation ep_footprint :: "endpoint_record \<Rightarrow> u64 set" where
  "ep_footprint ep \<equiv> footprint (queue_frames (ep_queue ep))"

lemma queue_contents_length [simp]: "length (queue_contents mem ep) = ep_queue_len ep"
  by (simp add: queue_contents_def)

lemma queue_contents_cong:
  assumes "endpoint_ok h ep" "\<And>a. a \<in> ep_footprint ep \<Longrightarrow> mem' a = mem a"
  shows "queue_contents mem' ep = queue_contents mem ep"
proof -
  have "queue_read mem' (ep_queue ep) i (ep_message_bytes ep) = queue_read mem (ep_queue ep) i (ep_message_bytes ep)" for i
    using assms by (intro queue_read_cong) (auto simp: endpoint_ok_def)
  then show ?thesis by (simp add: queue_contents_def message_at_def)
qed

text \<open>The effect of a send that finds room.\<close>

lemma send_appends:
  assumes "endpoint_ok h ep" "length bytes = ep_message_bytes ep" "ep_queue_len ep < ep_queue_capacity ep"
  shows "\<exists>queue mem'. queue_write mem (ep_queue ep) (ep_queue_tail ep) bytes = Some (queue, mem')
    \<and> queue_frames queue = queue_frames (ep_queue ep) \<and> (\<forall>a. a \<notin> ep_footprint ep \<longrightarrow> mem' a = mem a)
    \<and> (let ep' = ep\<lparr>ep_queue := queue, ep_queue_tail := (ep_queue_tail ep + 1) mod ep_queue_capacity ep,
             ep_queue_len := ep_queue_len ep + 1\<rparr>
       in endpoint_ok h ep' \<and> queue_contents mem' ep' = queue_contents mem ep @ [bytes])"
proof -
  let ?c = "ep_queue_capacity ep" and ?l = "ep_queue_len ep" and ?n = "ep_message_bytes ep"
  have ok: "queue_ok ?c (ep_queue ep)" "ep_queue_tail ep = (ep_queue_head ep + ?l) mod ?c" "0 < ?c" "?n \<le> IPC_PAGE_BYTES"
    using assms(1) by (auto simp: endpoint_ok_def)
  obtain queue mem' where w: "queue_write mem (ep_queue ep) (ep_queue_tail ep) bytes = Some (queue, mem')"
    and q: "queue_ok ?c queue" "queue_frames queue = queue_frames (ep_queue ep)"
    and mem: "\<forall>a. a \<notin> ep_footprint ep \<longrightarrow> mem' a = mem a"
    and here: "queue_read mem' queue (ep_queue_tail ep) ?n = Some bytes"
    and other: "\<And>j. j < ?c \<Longrightarrow> j \<noteq> ep_queue_tail ep \<Longrightarrow> queue_read mem' queue j ?n = queue_read mem (ep_queue ep) j ?n"
    using queue_write_ok [OF ok(1), of "ep_queue_tail ep" bytes mem] assms(2) ok by auto
  define ep' where "ep' = ep\<lparr>ep_queue := queue, ep_queue_tail := (ep_queue_tail ep + 1) mod ?c, ep_queue_len := ?l + 1\<rparr>"
  have "message_at mem' ep' k = message_at mem ep k" if "k < ?l" for k
  proof -
    have "(ep_queue_head ep + k) mod ?c \<noteq> ep_queue_tail ep"
      unfolding ok(2) using that assms(3) by (intro ring_positions_differ) auto
    then show ?thesis using other [of "(ep_queue_head ep + k) mod ?c"] ok(3) by (simp add: message_at_def ep'_def)
  qed
  moreover have "message_at mem' ep' ?l = bytes" using here ok(2) by (simp add: message_at_def ep'_def)
  ultimately have "queue_contents mem' ep' = queue_contents mem ep @ [bytes]"
    by (simp add: queue_contents_def ep'_def)
  moreover have "endpoint_ok h ep'"
    using assms(1,3) q(1) ok(2) by (auto simp: endpoint_ok_def ep'_def mod_Suc_eq)
  ultimately show ?thesis using w q(2) mem unfolding ep'_def Let_def by blast
qed

text \<open>The effect of a receive that finds a message.\<close>

lemma receive_takes:
  assumes "endpoint_ok h ep" "0 < ep_queue_len ep"
  defines "ep' \<equiv> ep\<lparr>ep_queue_head := (ep_queue_head ep + 1) mod ep_queue_capacity ep, ep_queue_len := ep_queue_len ep - 1\<rparr>"
  shows "\<exists>m. queue_read mem (ep_queue ep) (ep_queue_head ep) (ep_message_bytes ep) = Some m
    \<and> queue_contents mem ep = m # queue_contents mem ep' \<and> endpoint_ok h ep'"
proof -
  let ?c = "ep_queue_capacity ep"
  have ok: "queue_ok ?c (ep_queue ep)" "ep_queue_head ep < ?c" "ep_message_bytes ep \<le> IPC_PAGE_BYTES"
    using assms(1) by (auto simp: endpoint_ok_def)
  obtain m where m: "queue_read mem (ep_queue ep) (ep_queue_head ep) (ep_message_bytes ep) = Some m"
    using queue_read_ok [OF ok] by blast
  have "message_at mem ep 0 = m" using m ok(2) by (simp add: message_at_def)
  moreover have "message_at mem ep (Suc k) = message_at mem ep' k" for k
    by (simp add: message_at_def ep'_def mod_add_left_eq)
  moreover have "[0 ..< ep_queue_len ep] = 0 # map Suc [0 ..< ep_queue_len ep - 1]"
    using assms(2) by (simp add: upt_conv_Cons map_Suc_upt)
  ultimately have "queue_contents mem ep = m # queue_contents mem ep'"
    by (simp add: queue_contents_def ep'_def comp_def)
  moreover obtain l where l: "ep_queue_len ep = Suc l" using assms(2) by (cases "ep_queue_len ep") auto
  have "(Suc (ep_queue_head ep) mod ?c + l) mod ?c = (ep_queue_head ep + Suc l) mod ?c" by (simp add: mod_add_left_eq)
  then have "endpoint_ok h ep'" using assms(1) l by (auto simp: endpoint_ok_def ep'_def)
  ultimately show ?thesis using m by blast
qed

end
