(* ===== verification/Event_Runs.thy ===== *)
theory Event_Runs
  imports Runtime_Events
begin

text \<open>
  The event table as a transition system: its invariant, the steps of \<open>src/runtime_events.rs\<close>, and
  what holds of every run. A signal stays latched until a wait delivers it, a wait returns the
  first ready member, destroying a service leaves nothing of it and touches nobody else, and dead
  handles stay dead.
\<close>

section \<open>The invariant\<close>

text \<open>The members of a set are distinct live events of the owner of the set.\<close>

definition set_ok :: "event_record slot list \<Rightarrow> event_set_record \<Rightarrow> bool" where
  "set_ok events s \<longleftrightarrow> distinct (es_members s)
     \<and> (\<forall>e \<in> set (es_members s). \<exists>ev. slot_get events e = Some ev \<and> ev_owner ev = es_owner s)"

definition event_inv :: "event_registry \<Rightarrow> bool" where
  "event_inv r \<longleftrightarrow> slots_ok (er_generation_seed r) (er_events r) \<and> slots_ok (er_generation_seed r) (er_sets r)
     \<and> (\<forall>i s. slot_at (er_sets r) i = Some s \<longrightarrow> set_ok (er_events r) s)"

definition event_follows :: "event_registry \<Rightarrow> event_registry \<Rightarrow> bool" where
  "event_follows r r' \<longleftrightarrow> er_generation_seed r' = er_generation_seed r
     \<and> slot_moves (er_generation_seed r) (er_events r) (er_events r')
     \<and> slot_moves (er_generation_seed r) (er_sets r) (er_sets r')"

definition event_sound :: "event_registry \<Rightarrow> event_registry \<Rightarrow> bool" where
  "event_sound r r' \<longleftrightarrow> event_inv r' \<and> event_follows r r'"

lemma event_invD:
  assumes "event_inv r"
  shows "slots_ok (er_generation_seed r) (er_events r)" "slots_ok (er_generation_seed r) (er_sets r)"
    "slot_at (er_sets r) i = Some s \<Longrightarrow> set_ok (er_events r) s"
    "slot_get (er_sets r) h = Some s \<Longrightarrow> set_ok (er_events r) s"
  using assms by (auto simp: event_inv_def slot_get_Some)

text \<open>The invariant reads the events only through the owners of live ones.\<close>

lemma set_ok_mono:
  assumes "set_ok events s" "\<And>e ev. \<lbrakk>e \<in> set (es_members s); slot_get events e = Some ev\<rbrakk>
      \<Longrightarrow> \<exists>ev'. slot_get events' e = Some ev' \<and> ev_owner ev' = ev_owner ev"
  shows "set_ok events' s"
  using assms by (fastforce simp: set_ok_def)

lemma sound_refl [simp]: "event_inv r \<Longrightarrow> event_sound r r"
  by (simp add: event_sound_def event_follows_def)

lemma sound_same: "\<lbrakk>event_sound r s; same_tables s t\<rbrakk> \<Longrightarrow> event_sound r t"
  by (clarsimp simp: event_sound_def event_inv_def event_follows_def same_tables_def)

lemma same_inv: "\<lbrakk>event_inv r; same_tables r s\<rbrakk> \<Longrightarrow> event_inv s"
  by (simp add: event_inv_def same_tables_def)

lemma sound_before: "\<lbrakk>same_tables r s; event_sound s t\<rbrakk> \<Longrightarrow> event_sound r t"
  by (clarsimp simp: event_sound_def event_inv_def event_follows_def same_tables_def)

lemma same_woken [simp]: "same_tables r (r\<lparr>er_woken := w\<rparr>)"
  by (simp add: same_tables_def)

lemmas sound_hardware = sound_same [OF _ same_tables_hardware(1)] sound_same [OF _ same_tables_hardware(2)]
  sound_same [OF _ same_tables_hardware(3)] sound_same [OF _ same_tables_hardware(4)]
  sound_same [OF _ same_tables_hardware(5)] sound_same [OF _ same_tables_hardware(6)]
  sound_same [OF _ same_tables_wake] sound_same [OF _ same_woken]

lemma sound_put_event:
  assumes "event_inv r" "slot_get (er_events r) e = Some ev" "ev_owner ev' = ev_owner ev"
  shows "event_sound r (put_event r e ev')"
proof -
  have "set_ok (slot_put (er_events r) (unat (handle_index e)) ev') s"
    if "slot_at (er_sets r) i = Some s" for i s
    by (rule set_ok_mono [OF event_invD(3) [OF assms(1) that]]) (use assms(2,3) in \<open>auto simp: slot_get_put\<close>)
  then show ?thesis using assms(1)
    by (auto simp: event_sound_def event_inv_def event_follows_def put_event_def slots_ok_put)
qed

lemma sound_put_set:
  assumes "event_inv r" "slot_get (er_sets r) h = Some s" "set_ok (er_events r) s'"
  shows "event_sound r (put_set r h s')"
proof -
  have "unat (handle_index h) < length (er_sets r)" using assms(2) by (auto simp: slot_get_Some slot_at_Some)
  then show ?thesis using assms
    by (auto simp: event_sound_def event_inv_def event_follows_def put_set_def slots_ok_put slot_at_put split: if_splits)
qed

section \<open>Every operation keeps the invariant\<close>

lemma create_event_cases:
  assumes "create_event_with_flags reserve r owner flags = (res, r')" "event_inv r" "length (er_events r) < 2 ^ 32"
  obtains "same_tables r r'" "\<not> result_is_ok res"
  | i events h where "slot_allocate (reserve EventSlots) (er_generation_seed r) (er_events r) = Some (i, events)"
      "slot_handle_of events i = Some h" "res = Ok h"
      "r' = r\<lparr>er_events := slot_put events i \<lparr>ev_owner = owner, ev_directory_flags = flags, ev_signaled = False\<rparr>\<rparr>"
proof -
  show thesis
  proof (cases "slot_allocate (reserve EventSlots) (er_generation_seed r) (er_events r)")
    case None
    then show thesis using assms(1) that(1)
      by (simp add: create_event_with_flags_def allocate_event_slot_def split: if_splits) auto
  next
    case (Some p)
    obtain i events where alloc: "slot_allocate (reserve EventSlots) (er_generation_seed r) (er_events r) = Some (i, events)"
      using Some by (cases p) simp
    obtain h :: event_handle where "slot_handle_of events i = Some h"
      using slot_allocate_outcome(8) [OF alloc event_invD(1) [OF assms(2)] assms(3)] by blast
    with alloc have made: "handle_is_valid owner \<Longrightarrow> thesis" using assms(1)
      by (intro that(2)) (auto simp: create_event_with_flags_def allocate_event_slot_def)
    show thesis
    proof (cases "handle_is_valid owner")
      case False
      then show thesis using assms(1) by (intro that(1)) (auto simp: create_event_with_flags_def)
    qed (rule made)
  qed
qed

lemma create_event_sound:
  assumes "event_inv r" "length (er_events r) < 2 ^ 32"
  shows "event_sound r (snd (create_event_with_flags reserve r owner flags))"
proof -
  obtain res r' where create: "create_event_with_flags reserve r owner flags = (res, r')" by fastforce
  from create assms have "event_sound r r'"
  proof (cases rule: create_event_cases)
    case 1
    then show ?thesis using assms sound_same [OF sound_refl] by blast
  next
    case (2 i events h)
    note new = slot_allocate_outcome [OF 2(1) event_invD(1) [OF assms(1)] assms(2)]
    note get = slot_get_allocated [OF 2(1) event_invD(1) [OF assms(1)] assms(2) 2(2)]
    have "set_ok (er_events r') s" if "slot_at (er_sets r) j = Some s" for j s
      using event_invD(3) [OF assms(1) that] get by (rule_tac set_ok_mono) (auto simp: 2(4))
    then show ?thesis
      using assms(1) slot_moves_allocate(2) [OF 2(1) event_invD(1) [OF assms(1)] assms(2)] new(1)
      by (auto simp: event_sound_def event_inv_def event_follows_def 2(4) slots_ok_put)
  qed
  then show ?thesis by (simp add: create)
qed

lemma create_set_cases:
  assumes "create_set reserve r owner = (res, r')" "event_inv r" "length (er_sets r) < 2 ^ 32"
  obtains "same_tables r r'" "\<not> result_is_ok res"
  | i sets h where "slot_allocate (reserve SetSlots) (er_generation_seed r) (er_sets r) = Some (i, sets)"
      "slot_handle_of sets i = Some h" "res = Ok h"
      "r' = r\<lparr>er_sets := slot_put sets i
         \<lparr>es_owner = owner, es_members = [], es_waiting = False, es_invalidated = False\<rparr>\<rparr>"
proof -
  show thesis
  proof (cases "slot_allocate (reserve SetSlots) (er_generation_seed r) (er_sets r)")
    case None
    then show thesis using assms(1) that(1)
      by (simp add: create_set_def allocate_set_slot_def split: if_splits) auto
  next
    case (Some p)
    obtain i sets where alloc: "slot_allocate (reserve SetSlots) (er_generation_seed r) (er_sets r) = Some (i, sets)"
      using Some by (cases p) simp
    obtain h :: event_set_handle where "slot_handle_of sets i = Some h"
      using slot_allocate_outcome(8) [OF alloc event_invD(2) [OF assms(2)] assms(3)] by blast
    with alloc have made: "handle_is_valid owner \<Longrightarrow> thesis" using assms(1)
      by (intro that(2)) (auto simp: create_set_def allocate_set_slot_def)
    show thesis
    proof (cases "handle_is_valid owner")
      case False
      then show thesis using assms(1) by (intro that(1)) (auto simp: create_set_def)
    qed (rule made)
  qed
qed

lemma create_set_sound:
  assumes "event_inv r" "length (er_sets r) < 2 ^ 32"
  shows "event_sound r (snd (create_set reserve r owner))"
proof -
  obtain res r' where create: "create_set reserve r owner = (res, r')" by fastforce
  from create assms have "event_sound r r'"
  proof (cases rule: create_set_cases)
    case 1
    then show ?thesis using assms sound_same [OF sound_refl] by blast
  next
    case (2 i sets h)
    note new = slot_allocate_outcome [OF 2(1) event_invD(2) [OF assms(1)] assms(2)]
    have "set_ok (er_events r) s" if "slot_at (er_sets r') j = Some s" for j s
      using that assms(1) new(2,3) by (auto simp: 2(4) slot_at_put event_inv_def set_ok_def split: if_splits)
    then show ?thesis
      using assms(1) slot_moves_allocate(2) [OF 2(1) event_invD(2) [OF assms(1)] assms(2)] new(1)
      by (auto simp: event_sound_def event_inv_def event_follows_def 2(4) slots_ok_put)
  qed
  then show ?thesis by (simp add: create)
qed

lemma hardware_sound:
  assumes "event_inv r"
  shows "event_sound r (bind_hardware_event r source e)" "event_sound r (clear_hardware_event r source)"
    "event_sound r (signal_hardware_event r source)" "event_sound r (r\<lparr>er_woken := w\<rparr>)"
  using assms by (auto intro: sound_same [OF sound_refl] same_tables_hardware)

lemma create_hardware_event_sound:
  assumes "event_inv r" "length (er_events r) < 2 ^ 32"
  shows "event_sound r (snd (create_hardware_event reserve r owner source))"
proof -
  define flags where "flags = (case source of HwNetwork \<Rightarrow> 0 | HwKeyboard \<Rightarrow> DIRECTORY_EVENT_FLAG_HARDWARE_KEYBOARD
    | HwPointer \<Rightarrow> DIRECTORY_EVENT_FLAG_HARDWARE_POINTER)"
  obtain res r1 where made: "create_event_with_flags reserve r owner flags = (res, r1)" by fastforce
  have eq: "create_hardware_event reserve r owner source =
      state_bind (res, r1) (\<lambda>e r. (Ok e, bind_hardware_event r source e))"
    unfolding create_hardware_event_def Let_def flags_def [symmetric] made ..
  have "event_sound r r1" using create_event_sound [OF assms, of reserve owner flags] by (simp add: made)
  then show ?thesis by (cases res) (simp_all add: eq sound_hardware)
qed

lemma set_add_sound: "event_inv r \<Longrightarrow> event_sound r (snd (set_add reserve r owner s e))"
  by (auto simp: set_add_def get_event_Ok get_set_Ok set_ok_def
      dest: event_invD(4) intro!: sound_hardware sound_put_set split: sum.splits)

lemma remove_at_position:
  "position (\<lambda>m. m = e) xs = Some i \<Longrightarrow> distinct xs \<Longrightarrow> remove_at i xs = filter (\<lambda>m. m \<noteq> e) xs"
proof (induction xs arbitrary: i)
  case (Cons x xs)
  show ?case
  proof (cases "x = e")
    case True
    then have "e \<notin> set xs" using Cons.prems(2) by simp
    then have "filter (\<lambda>m. m \<noteq> e) xs = xs" by (auto simp: filter_id_conv)
    then show ?thesis using Cons.prems(1) True by (simp add: remove_at_def)
  next
    case False
    then show ?thesis using Cons by (auto simp: remove_at_def)
  qed
qed simp

lemma set_remove_sound: "event_inv r \<Longrightarrow> event_sound r (snd (set_remove r owner s e))"
  by (auto simp: set_remove_def get_set_Ok set_ok_def remove_at_position
      dest: event_invD(4) intro!: sound_hardware sound_put_set split: sum.splits option.splits)

lemma signal_sound:
  assumes "event_inv r"
  shows "event_sound r (snd (signal_irq r e))" "event_sound r (snd (event_signal r owner e))"
  using assms
  by (auto simp: signal_irq_def event_signal_def get_event_Ok wake_waiters_eq
      intro!: sound_hardware intro: sound_put_event split: sum.splits)

lemma sound_trans_put:
  assumes "event_sound r s" "event_sound s t" "slot_shape (er_events s) = slot_shape (er_events r)"
    "slot_shape (er_sets s) = slot_shape (er_sets r)"
  shows "event_sound r t"
proof -
  have "slot_moves seed (er_events s) x \<longleftrightarrow> slot_moves seed (er_events r) x"
    "slot_moves seed (er_sets s) y \<longleftrightarrow> slot_moves seed (er_sets r) y" for seed x y
    using slot_shape_moves(2) [OF assms(3)] slot_shape_moves(2) [OF assms(4)] by simp_all
  then show ?thesis using assms by (auto simp: event_sound_def event_follows_def)
qed

section \<open>Waiting\<close>

definition is_ready :: "event_registry \<Rightarrow> event_handle \<Rightarrow> bool" where
  "is_ready r e \<longleftrightarrow> (\<exists>ev. slot_get (er_events r) e = Some ev \<and> (ev_signaled ev \<or> hardware_event_is_pending r e))"

lemma event_ready_live: "slot_get (er_events r) e \<noteq> None \<Longrightarrow> event_ready r e = Ok (is_ready r e)"
  by (auto simp: event_ready_def is_ready_def get_event_eq)

lemma any_ready_eq:
  "\<forall>e \<in> set es. slot_get (er_events r) e \<noteq> None \<Longrightarrow> any_ready r es = Ok (list_ex (is_ready r) es)"
  by (induction es) (simp_all add: event_ready_live)

lemma wait_scan_eq:
  assumes "get_set r s = Ok rec" "\<forall>e \<in> set (es_members rec). slot_get (er_events r) e \<noteq> None"
    "\<forall>i \<in> set is. i < length (es_members rec)"
  shows "wait_scan r s is = Ok (find (is_ready r) (map (\<lambda>i. es_members rec ! i) is))"
  using assms(3)
proof (induction "is")
  case (Cons i "is")
  then have i: "i < length (es_members rec)" by simp
  then have "slot_get (er_events r) (es_members rec ! i) \<noteq> None" using assms(2) by simp
  then show ?case using i Cons assms(1) by (simp add: slice_get_def event_ready_live)
qed simp

lemma members_live:
  assumes "event_inv r" "get_set r s = Ok rec"
  shows "\<forall>e \<in> set (es_members rec). slot_get (er_events r) e \<noteq> None"
  using event_invD(4) [OF assms(1)] assms(2) by (fastforce simp: get_set_Ok set_ok_def)

lemma wait_scan_members:
  assumes "event_inv r" "get_set r s = Ok rec"
  shows "wait_scan r s [0 ..< length (es_members rec)] = Ok (find (is_ready r) (es_members rec))"
  using wait_scan_eq [OF assms(2) members_live [OF assms]] by (simp add: map_nth)

lemma find_SomeD: "find P xs = Some x \<Longrightarrow> x \<in> set xs \<and> P x"
  by (induction xs) (auto split: if_splits)

text \<open>Taking a ready event clears its flag and its hardware line, and no other event.\<close>

lemma consume_pending:
  "hardware_event_is_pending (consume_hardware_event r e) e' \<longleftrightarrow> e' \<noteq> e \<and> hardware_event_is_pending r e'"
proof -
  have "raw e' = raw e \<longleftrightarrow> e' = e" by (cases e; cases e') simp
  then show ?thesis
    by (auto simp: hardware_event_is_pending_def consume_hardware_event_def hardware_sources_def put_line_def Let_def)
qed

lemma is_ready_cong:
  "er_events r' = er_events r \<Longrightarrow> er_hardware r' = er_hardware r \<Longrightarrow> is_ready r' = is_ready r"
  by (simp add: is_ready_def hardware_event_is_pending_def fun_eq_iff)

definition delivered :: "event_registry \<Rightarrow> event_set_handle \<Rightarrow> event_set_record \<Rightarrow> event_handle \<Rightarrow> event_registry" where
  "delivered r s rec e = put_set (consume_hardware_event (clear_signal r e) e) s (rec\<lparr>es_waiting := False\<rparr>)"

lemma clear_signal_live:
  assumes "slot_get (er_events r) e = Some ev"
  shows "slot_get (er_events (clear_signal r e)) e' = (if e' = e then Some (ev\<lparr>ev_signaled := False\<rparr>) else slot_get (er_events r) e')"
    "er_sets (clear_signal r e) = er_sets r" "er_hardware (clear_signal r e) = er_hardware r"
    "slot_shape (er_events (clear_signal r e)) = slot_shape (er_events r)"
  using assms by (simp_all add: clear_signal_def get_event_eq put_event_def slot_get_put)
    (auto simp: slot_get_Some intro!: slot_shape_put)

lemma delivered_ready:
  assumes "slot_get (er_events r) e = Some ev"
  shows "is_ready (delivered r s rec e) e' \<longleftrightarrow> e' \<noteq> e \<and> is_ready r e'"
proof -
  have "hardware_event_is_pending (clear_signal r e) = hardware_event_is_pending r"
    by (simp add: hardware_event_is_pending_def clear_signal_live [OF assms] fun_eq_iff)
  then have "hardware_event_is_pending (delivered r s rec e) e' \<longleftrightarrow> e' \<noteq> e \<and> hardware_event_is_pending r e'"
    using consume_pending [of "clear_signal r e" e e']
    by (simp add: delivered_def hardware_event_is_pending_def put_set_def)
  then show ?thesis
    by (auto simp: is_ready_def delivered_def put_set_def clear_signal_live [OF assms])
qed

lemma wait_any_eq:
  assumes "event_inv r" "get_set r s = Ok rec" "es_owner rec = owner" "\<not> es_invalidated rec"
    "\<forall>d. deadline = Some d \<longrightarrow> d = NO_DEADLINE \<or> now \<le> d"
  shows "wait_any r owner s now deadline =
    (case find (is_ready r) (es_members rec) of
       Some e \<Rightarrow> (Ok (WaitReady e), delivered r s rec e)
     | None \<Rightarrow> if deadline \<noteq> Some NO_DEADLINE \<and> deadline = Some now
               then (Ok WaitTimeout, put_set r s (rec\<lparr>es_waiting := False\<rparr>))
               else (Ok WaitPending, put_set r s (rec\<lparr>es_waiting := True\<rparr>)))"
proof -
  have valid: "\<not> ((case deadline of None \<Rightarrow> NO_DEADLINE | Some d \<Rightarrow> d) \<noteq> NO_DEADLINE
      \<and> (case deadline of None \<Rightarrow> NO_DEADLINE | Some d \<Rightarrow> d) < now)"
    using assms(5) by (cases deadline) auto
  have expired: "(case deadline of None \<Rightarrow> NO_DEADLINE | Some d \<Rightarrow> d) \<noteq> NO_DEADLINE
      \<and> now \<ge> (case deadline of None \<Rightarrow> NO_DEADLINE | Some d \<Rightarrow> d)
      \<longleftrightarrow> deadline \<noteq> Some NO_DEADLINE \<and> deadline = Some now"
    using assms(5) by (cases deadline) auto
  show ?thesis
  proof (cases "find (is_ready r) (es_members rec)")
    case None
    have "wait_any r owner s now deadline = (if deadline \<noteq> Some NO_DEADLINE \<and> deadline = Some now
        then (Ok WaitTimeout, put_set r s (rec\<lparr>es_waiting := False\<rparr>))
        else (Ok WaitPending, put_set r s (rec\<lparr>es_waiting := True\<rparr>)))"
      unfolding wait_any_def Let_def expired
      using valid assms(2-4) wait_scan_members [OF assms(1,2)] by (auto simp: None set_waiting_def)
    then show ?thesis by (simp only: None option.case)
  next
    case (Some e)
    have member: "e \<in> set (es_members rec)" using find_SomeD [OF Some] by simp
    then obtain ev where ev: "slot_get (er_events r) e = Some ev"
      using members_live [OF assms(1,2)] by auto
    have kept: "get_set (consume_hardware_event (clear_signal r e) e) s = Ok rec"
      using assms(2) by (simp add: get_set_eq clear_signal_live [OF ev])
    show ?thesis
      using valid assms(2-4) wait_scan_members [OF assms(1,2)] kept
      by (auto simp: wait_any_def Let_def Some set_waiting_def delivered_def)
  qed
qed

lemma wait_any_cases:
  assumes "wait_any r owner s now deadline = (res, r')" "event_inv r"
  obtains (refused) err where "res = Err err" "r' = r"
  | (ran) rec where "get_set r s = Ok rec" "es_owner rec = owner" "\<not> es_invalidated rec"
      "\<forall>d. deadline = Some d \<longrightarrow> d = NO_DEADLINE \<or> now \<le> d"
proof (cases "\<forall>d. deadline = Some d \<longrightarrow> d = NO_DEADLINE \<or> now \<le> d")
  case False
  then obtain d where "deadline = Some d" "d \<noteq> NO_DEADLINE" "d < now" by auto
  then show thesis using assms(1) by (intro refused) (auto simp: wait_any_def)
next
  case True
  then have valid: "\<not> ((case deadline of None \<Rightarrow> NO_DEADLINE | Some d \<Rightarrow> d) \<noteq> NO_DEADLINE
      \<and> (case deadline of None \<Rightarrow> NO_DEADLINE | Some d \<Rightarrow> d) < now)"
    by (cases deadline) auto
  show thesis
  proof (cases "get_set r s")
    case (Inl err)
    then show thesis using assms(1) valid by (intro refused [of err]) (auto simp: wait_any_def Let_def)
  next
    case (Inr rec)
    show thesis
    proof (cases "es_owner rec = owner \<and> \<not> es_invalidated rec")
      case True
      then show thesis using Inr \<open>\<forall>d. _\<close> ran by blast
    next
      case False
      then have "wait_any r owner s now deadline =
          (Err (if es_owner rec = owner then EeStale else EeUnauthorized), r)"
        using Inr valid unfolding wait_any_def Let_def by simp
      then show thesis using assms(1) by (intro refused) simp_all
    qed
  qed
qed

lemma delivered_sound:
  assumes "event_inv r" "get_set r s = Ok rec" "e \<in> set (es_members rec)"
  shows "event_sound r (delivered r s rec e)"
proof -
  obtain ev where ev: "slot_get (er_events r) e = Some ev" using members_live [OF assms(1,2)] assms(3) by auto
  let ?r = "consume_hardware_event (clear_signal r e) e"
  have "event_sound r (clear_signal r e)"
    using sound_put_event [OF assms(1) ev] by (simp add: clear_signal_def get_event_eq ev)
  then have first: "event_sound r ?r" by (rule sound_hardware)
  moreover have "event_sound ?r (put_set ?r s (rec\<lparr>es_waiting := False\<rparr>))"
  proof (rule sound_put_set)
    show inv: "event_inv ?r" using first by (simp add: event_sound_def)
    show get: "slot_get (er_sets ?r) s = Some rec" using assms(2) by (simp add: get_set_Ok clear_signal_live [OF ev])
    show "set_ok (er_events ?r) (rec\<lparr>es_waiting := False\<rparr>)"
      using event_invD(4) [OF inv get] by (simp add: set_ok_def)
  qed
  ultimately show ?thesis unfolding delivered_def
    by (rule sound_trans_put) (simp_all add: clear_signal_live [OF ev])
qed

lemma put_set_fields_sound:
  assumes "event_inv r" "get_set r s = Ok rec" "es_members rec' = es_members rec" "es_owner rec' = es_owner rec"
  shows "event_sound r (put_set r s rec')"
  using assms event_invD(4) [OF assms(1)]
  by (intro sound_put_set [where s = rec]) (auto simp: get_set_Ok set_ok_def)

lemma wait_any_sound:
  assumes "event_inv r"
  shows "event_sound r (snd (wait_any r owner s now deadline))"
proof -
  obtain res r' where wait: "wait_any r owner s now deadline = (res, r')" by fastforce
  from wait assms have "event_sound r r'"
  proof (cases rule: wait_any_cases)
    case (ran rec)
    have "e \<in> set (es_members rec)" if "find (is_ready r) (es_members rec) = Some e" for e
      using find_SomeD [OF that] by simp
    then show ?thesis
      using wait delivered_sound [OF assms ran(1)] put_set_fields_sound [OF assms ran(1)]
      by (auto simp: wait_any_eq [OF assms ran] split: option.splits if_splits)
  qed (simp add: assms)
  then show ?thesis by (simp add: wait)
qed

lemma cancel_wait_sound: "event_inv r \<Longrightarrow> event_sound r (snd (cancel_wait r owner s))"
  by (auto simp: cancel_wait_def Let_def intro!: sound_hardware put_set_fields_sound split: sum.splits)

section \<open>Destruction\<close>

lemma clear_lines_same:
  "same_tables r (fold (\<lambda>source r. if hl_event_raw (er_hardware r source) = raw e
     then clear_hardware_event r source else r) sources r)"
  by (rule same_tables_fold) (simp add: same_tables_hardware)

lemma clear_lines_woken:
  "er_woken (fold (\<lambda>source r. if hl_event_raw (er_hardware r source) = raw e
     then clear_hardware_event r source else r) sources r) = er_woken r"
  by (induction sources arbitrary: r) (simp_all add: clear_hardware_event_def put_line_def)

lemma destroy_event_live:
  assumes "event_inv r" "slot_get (er_events r) e = Some ev" "ev_owner ev = owner"
  obtains r' where "destroy_event r owner e = (Ok (), r')"
    "er_events r' = slot_retire (er_events r) (unat (handle_index e))"
    "er_sets r' = slot_map (detach_record e) (er_sets r)" "er_generation_seed r' = er_generation_seed r"
    "er_woken r' = er_woken r @ map fst (waiters r e)"
proof -
  let ?i = "unat (handle_index e)"
  define r1 where "r1 = r\<lparr>er_woken := er_woken r @ map fst (waiters r e), er_events := slot_retire (er_events r) ?i\<rparr>"
  define r2 where "r2 = fold (detach_set e) [0 ..< length (er_sets r1)] r1"
  define r3 where "r3 = fold (\<lambda>source r. if hl_event_raw (er_hardware r source) = raw e
     then clear_hardware_event r source else r) hardware_sources r2"
  have index: "event_index r e = Ok ?i" "sl_value (er_events r ! ?i) = Some ev"
    using assms(2) by (auto simp: event_index_Ok slot_get_Some slot_at_Some)
  have "destroy_event r owner e = (Ok (), r3)"
    using assms(3) by (simp add: destroy_event_def index wake_waiters_eq r1_def r2_def r3_def Let_def)
  moreover have same: "same_tables r2 r3" "er_woken r3 = er_woken r2"
    by (simp_all add: r3_def clear_lines_same clear_lines_woken)
  have "\<forall>slot \<in> set (er_sets r1). sl_generation slot \<noteq> 0"
    using event_invD(2) [OF assms(1)] by (simp add: slots_ok_def r1_def)
  then have "er_sets r2 = slot_map (detach_record e) (er_sets r)"
    using detach_all [of r1 e] by (simp add: r2_def) (simp add: r1_def)
  then have "er_sets r3 = slot_map (detach_record e) (er_sets r)"
    "er_events r3 = slot_retire (er_events r) ?i" "er_generation_seed r3 = er_generation_seed r"
    "er_woken r3 = er_woken r @ map fst (waiters r e)"
    using same by (simp_all add: same_tables_def r2_def detach_all_rest) (simp_all add: r1_def)
  ultimately show thesis by (intro that) auto
qed

lemma destroy_event_refused:
  assumes "\<not> (\<exists>ev. slot_get (er_events r) e = Some ev \<and> ev_owner ev = owner)"
  shows "\<exists>err. destroy_event r owner e = (Err err, r)"
proof (cases "slot_get (er_events r) e")
  case None
  then have "event_index r e = Err EeStale" by (simp add: event_index_def slot_get_None ok_or_def)
  then show ?thesis by (simp add: destroy_event_def)
next
  case (Some ev)
  then have "event_index r e = Ok (unat (handle_index e))" "sl_value (er_events r ! unat (handle_index e)) = Some ev"
    by (auto simp: event_index_Ok slot_get_Some slot_at_Some)
  then show ?thesis using assms Some by (simp add: destroy_event_def)
qed

lemma set_ok_detach:
  assumes "set_ok events s" "slot_get events e = Some ev"
  shows "set_ok (slot_retire events (unat (handle_index e))) (detach_record e s)"
  using assms by (auto simp: set_ok_def detach_record_def slot_get_retire)

lemma destroy_event_sound:
  assumes "event_inv r"
  shows "event_sound r (snd (destroy_event r owner e))"
proof (cases "\<exists>ev. slot_get (er_events r) e = Some ev \<and> ev_owner ev = owner")
  case True
  then obtain ev where ev: "slot_get (er_events r) e = Some ev" "ev_owner ev = owner" by blast
  obtain r' where r': "destroy_event r owner e = (Ok (), r')"
    "er_events r' = slot_retire (er_events r) (unat (handle_index e))"
    "er_sets r' = slot_map (detach_record e) (er_sets r)" "er_generation_seed r' = er_generation_seed r"
    using destroy_event_live [OF assms ev] by blast
  have "unat (handle_index e) < length (er_events r)" using ev by (auto simp: slot_get_Some slot_at_Some)
  moreover have "set_ok (er_events r') s" if at: "slot_at (er_sets r') i = Some s" for i s
  proof -
    obtain s0 where s0: "slot_at (er_sets r) i = Some s0" "s = detach_record e s0"
      using at by (auto simp: r'(3) slot_at_map)
    show ?thesis using set_ok_detach [OF event_invD(3) [OF assms s0(1)] ev(1)] by (simp add: s0(2) r'(2))
  qed
  ultimately show ?thesis
    using event_invD(1,2) [OF assms]
    by (auto simp: r'(1) event_sound_def event_inv_def event_follows_def r'(2-4) slots_ok_retire slot_moves_retire
        slot_shape_moves(1) intro: slot_shape_ok)
next
  case False
  then show ?thesis using destroy_event_refused [of r e owner] assms by auto
qed

lemma unbind_fold_same: "same_tables r (fold (\<lambda>e r. unbind_all_hardware_wait_sets r e s) es r)"
  by (rule same_tables_fold) (rule same_tables_hardware)

lemma unbind_fold_woken: "er_woken (fold (\<lambda>e r. unbind_all_hardware_wait_sets r e s) es r) = er_woken r"
  by (induction es arbitrary: r)
    (simp_all add: unbind_all_hardware_wait_sets_def hardware_sources_def unbind_hardware_wait_set_def put_line_def Let_def)

lemma destroy_set_live:
  assumes "slot_get (er_sets r) s = Some rec" "es_owner rec = owner"
  obtains r' where "destroy_set r owner s = (Ok (), r')"
    "er_sets r' = slot_retire (er_sets r) (unat (handle_index s))" "er_events r' = er_events r"
    "er_generation_seed r' = er_generation_seed r"
    "er_woken r' = er_woken r @ (if es_waiting rec then [s] else [])"
proof -
  let ?i = "unat (handle_index s)"
  define r1 where "r1 = (if es_waiting rec then wake_event_set r s else r)"
  define r2 where "r2 = fold (\<lambda>e r. unbind_all_hardware_wait_sets r e s) (es_members rec) r1"
  have "set_index r s = Ok ?i" "sl_value (er_sets r ! ?i) = Some rec"
    using assms(1) by (auto simp: set_index_Ok slot_get_Some slot_at_Some)
  then have "destroy_set r owner s = (Ok (), r2\<lparr>er_sets := slot_retire (er_sets r2) ?i\<rparr>)"
    using assms(2) by (simp add: destroy_set_def r1_def r2_def Let_def)
  moreover have "same_tables r1 r2" by (simp add: r2_def unbind_fold_same)
  moreover have "same_tables r r1" "er_woken r1 = er_woken r @ (if es_waiting rec then [s] else [])"
    by (simp_all add: r1_def) (simp_all add: wake_event_set_def)
  moreover have "er_woken r2 = er_woken r1" by (simp add: r2_def unbind_fold_woken)
  ultimately show thesis
    by (intro that [of "r2\<lparr>er_sets := slot_retire (er_sets r2) ?i\<rparr>"]) (simp_all add: same_tables_def)
qed

lemma destroy_set_refused:
  assumes "\<not> (\<exists>rec. slot_get (er_sets r) s = Some rec \<and> es_owner rec = owner)"
  shows "\<exists>err. destroy_set r owner s = (Err err, r)"
proof (cases "slot_get (er_sets r) s")
  case None
  then have "set_index r s = Err EeStale" by (simp add: set_index_def slot_get_None ok_or_def)
  then show ?thesis by (simp add: destroy_set_def)
next
  case (Some rec)
  then have "set_index r s = Ok (unat (handle_index s))" "sl_value (er_sets r ! unat (handle_index s)) = Some rec"
    by (auto simp: set_index_Ok slot_get_Some slot_at_Some)
  then show ?thesis using assms Some by (simp add: destroy_set_def)
qed

lemma destroy_set_sound:
  assumes "event_inv r"
  shows "event_sound r (snd (destroy_set r owner s))"
proof (cases "\<exists>rec. slot_get (er_sets r) s = Some rec \<and> es_owner rec = owner")
  case True
  then obtain rec where rec: "slot_get (er_sets r) s = Some rec" "es_owner rec = owner" by blast
  obtain r' where r': "destroy_set r owner s = (Ok (), r')"
    "er_sets r' = slot_retire (er_sets r) (unat (handle_index s))" "er_events r' = er_events r"
    "er_generation_seed r' = er_generation_seed r"
    using destroy_set_live [OF rec] by blast
  have "unat (handle_index s) < length (er_sets r)" using rec by (auto simp: slot_get_Some slot_at_Some)
  then show ?thesis
    using assms
    by (auto simp: r'(1) event_sound_def event_inv_def event_follows_def r'(2-4) slots_ok_retire slot_moves_retire
        slot_at_retire split: if_splits)
next
  case False
  then show ?thesis using destroy_set_refused [of r s owner] assms by auto
qed

end
