(* ===== verification/Event_Properties.thy ===== *)
theory Event_Properties
  imports Event_Runs
begin

text \<open>
  The steps of the event table and the properties of its runs. A step is labelled with the event
  that it delivered to a waiter, if it delivered one.
\<close>

section \<open>Steps\<close>

fun wait_label :: "event_error + event_wait \<Rightarrow> event_handle option" where
  "wait_label (Inr (WaitReady e)) = Some e"
| "wait_label _ = None"

inductive event_step :: "event_registry \<Rightarrow> event_handle option \<Rightarrow> event_registry \<Rightarrow> bool" where
  ev_creates: "length (er_events r) < 2 ^ 32
    \<Longrightarrow> event_step r None (snd (create_event_with_flags reserve r owner flags))"
| ev_creates_hardware: "length (er_events r) < 2 ^ 32
    \<Longrightarrow> event_step r None (snd (create_hardware_event reserve r owner source))"
| ev_creates_set: "length (er_sets r) < 2 ^ 32 \<Longrightarrow> event_step r None (snd (create_set reserve r owner))"
| ev_adds: "event_step r None (snd (set_add reserve r owner s e))"
| ev_removes: "event_step r None (snd (set_remove r owner s e))"
| ev_signals: "event_step r None (snd (event_signal r owner e))"
| ev_interrupts: "event_step r None (snd (signal_irq r e))"
| ev_hardware: "event_step r None (signal_hardware_event r source)"
| ev_binds: "event_step r None (bind_hardware_event r source e)"
| ev_clears: "event_step r None (clear_hardware_event r source)"
| ev_waits: "wait_any r owner s now deadline = (res, r') \<Longrightarrow> event_step r (wait_label res) r'"
| ev_cancels: "event_step r None (snd (cancel_wait r owner s))"
| ev_destroys: "event_step r None (snd (destroy_event r owner e))"
| ev_destroys_set: "event_step r None (snd (destroy_set r owner s))"
| ev_wakes: "event_step r None (r\<lparr>er_woken := w\<rparr>)"

definition event_move :: "event_registry \<Rightarrow> event_registry \<Rightarrow> bool" where
  "event_move r r' \<longleftrightarrow> (\<exists>l. event_step r l r')"

lemmas event_sound_lemmas = create_event_sound create_hardware_event_sound create_set_sound set_add_sound
  set_remove_sound signal_sound hardware_sound cancel_wait_sound destroy_event_sound destroy_set_sound

lemma event_step_sound:
  assumes "event_step r l r'" "event_inv r"
  shows "event_sound r r'"
  using assms
proof (cases rule: event_step.cases)
  case (ev_waits owner s now deadline res)
  then show ?thesis using wait_any_sound [OF assms(2), of owner s now deadline] by simp
qed (simp_all add: event_sound_lemmas)

lemma event_move_sound: "event_move r r' \<Longrightarrow> event_inv r \<Longrightarrow> event_sound r r'"
  unfolding event_move_def using event_step_sound by blast

lemma event_inv_new: "event_inv (event_registry_new_with_generation g hardware)"
  by (simp add: event_inv_def event_registry_new_with_generation_def slot_at_def slice_get_def)

lemma event_inv_reachable:
  "event_move\<^sup>*\<^sup>* (event_registry_new_with_generation g hardware) r \<Longrightarrow> event_inv r"
  by (induction rule: rtranclp_induct) (auto simp: event_inv_new event_sound_def dest: event_move_sound)

lemma event_inv_closed: "event_move\<^sup>*\<^sup>* r r' \<Longrightarrow> event_inv r \<Longrightarrow> event_inv r'"
  by (induction rule: rtranclp_induct) (auto simp: event_sound_def dest: event_move_sound)

interpretation event_slots: slot_system event_move event_inv er_generation_seed er_events
  by unfold_locales (auto dest: event_move_sound event_invD(1) simp: event_sound_def event_follows_def)

interpretation event_set_slots: slot_system event_move event_inv er_generation_seed er_sets
  by unfold_locales (auto dest: event_move_sound event_invD(2) simp: event_sound_def event_follows_def)

section \<open>Signals stay latched\<close>

definition signaled :: "event_registry \<Rightarrow> event_handle \<Rightarrow> bool" where
  "signaled r e \<longleftrightarrow> (\<exists>ev. slot_get (er_events r) e = Some ev \<and> ev_signaled ev)"

definition keeps_signals :: "event_registry \<Rightarrow> event_handle option \<Rightarrow> event_registry \<Rightarrow> bool" where
  "keeps_signals r l r' \<longleftrightarrow> (\<forall>e. signaled r e \<longrightarrow> l \<noteq> Some e \<longrightarrow> slot_get (er_events r') e \<noteq> None \<longrightarrow> signaled r' e)"

lemma same_events_keep: "er_events r' = er_events r \<Longrightarrow> keeps_signals r l r'"
  by (simp add: keeps_signals_def signaled_def)

lemma create_event_keeps:
  assumes "event_inv r" "length (er_events r) < 2 ^ 32"
  shows "keeps_signals r l (snd (create_event_with_flags reserve r owner flags))"
proof -
  obtain res r' where create: "create_event_with_flags reserve r owner flags = (res, r')" by fastforce
  from create assms have "keeps_signals r l r'"
  proof (cases rule: create_event_cases)
    case (2 i events h)
    show ?thesis
      using slot_get_allocated(1,2) [OF 2(1) event_invD(1) [OF assms(1)] assms(2) 2(2)]
      by (auto simp: keeps_signals_def signaled_def 2(4))
  qed (simp add: same_tables_def same_events_keep)
  then show ?thesis by (simp add: create)
qed

lemma create_hardware_event_keeps:
  assumes "event_inv r" "length (er_events r) < 2 ^ 32"
  shows "keeps_signals r l (snd (create_hardware_event reserve r owner source))"
proof -
  define flags where "flags = (case source of HwNetwork \<Rightarrow> 0 | HwKeyboard \<Rightarrow> DIRECTORY_EVENT_FLAG_HARDWARE_KEYBOARD
    | HwPointer \<Rightarrow> DIRECTORY_EVENT_FLAG_HARDWARE_POINTER)"
  obtain res r1 where made: "create_event_with_flags reserve r owner flags = (res, r1)" by fastforce
  have eq: "create_hardware_event reserve r owner source =
      state_bind (res, r1) (\<lambda>e r. (Ok e, bind_hardware_event r source e))"
    unfolding create_hardware_event_def Let_def flags_def [symmetric] made ..
  have "keeps_signals r l r1" using create_event_keeps [OF assms, of l reserve owner flags] by (simp add: made)
  then show ?thesis by (cases res) (simp_all add: eq keeps_signals_def signaled_def)
qed

lemma table_ops_events [simp]:
  "er_events (snd (create_set reserve r owner)) = er_events r"
  "er_events (snd (set_add reserve r owner s e)) = er_events r"
  "er_events (snd (set_remove r owner s e)) = er_events r"
  "er_events (snd (cancel_wait r owner s)) = er_events r"
  by (auto simp: create_set_def allocate_set_slot_def state_bind_def set_add_def set_remove_def cancel_wait_def put_set_def
      Let_def split: sum.splits option.splits prod.splits)

lemma signal_keeps:
  "keeps_signals r l (snd (signal_irq r e))" "keeps_signals r l (snd (event_signal r owner e))"
  by (auto simp: signal_irq_def event_signal_def get_event_Ok keeps_signals_def signaled_def wake_waiters_eq put_event_def
      slot_get_put split: sum.splits)

lemma wait_any_keeps:
  assumes "wait_any r owner s now deadline = (res, r')" "event_inv r"
  shows "keeps_signals r (wait_label res) r'"
  using assms
proof (cases rule: wait_any_cases)
  case (ran rec)
  show ?thesis
  proof (cases "find (is_ready r) (es_members rec)")
    case None
    then show ?thesis using assms(1)
      by (auto simp: wait_any_eq [OF assms(2) ran] put_set_def split: if_splits intro: same_events_keep)
  next
    case (Some e)
    obtain ev where ev: "slot_get (er_events r) e = Some ev"
      using members_live [OF assms(2) ran(1)] find_SomeD [OF Some] by auto
    have "res = Ok (WaitReady e)" "r' = delivered r s rec e"
      using assms(1) by (simp_all add: wait_any_eq [OF assms(2) ran] Some)
    then show ?thesis
      by (auto simp: keeps_signals_def signaled_def delivered_def put_set_def clear_signal_live [OF ev])
  qed
qed (simp add: same_events_keep)

lemma destroy_event_keeps:
  assumes "event_inv r"
  shows "keeps_signals r l (snd (destroy_event r owner e))"
proof (cases "\<exists>ev. slot_get (er_events r) e = Some ev \<and> ev_owner ev = owner")
  case True
  then obtain ev where ev: "slot_get (er_events r) e = Some ev" "ev_owner ev = owner" by blast
  obtain r' where "destroy_event r owner e = (Ok (), r')"
    "er_events r' = slot_retire (er_events r) (unat (handle_index e))"
    using destroy_event_live [OF assms ev] by blast
  then show ?thesis by (auto simp: keeps_signals_def signaled_def slot_get_retire [OF ev(1)])
next
  case False
  then show ?thesis using destroy_event_refused [OF False] by (auto intro: same_events_keep)
qed

lemma destroy_set_events [simp]: "er_events (snd (destroy_set r owner s)) = er_events r"
proof (cases "\<exists>rec. slot_get (er_sets r) s = Some rec \<and> es_owner rec = owner")
  case True
  then obtain rec where rec: "slot_get (er_sets r) s = Some rec" "es_owner rec = owner" by blast
  then show ?thesis using destroy_set_live [OF rec] by (metis snd_conv)
next
  case False
  then show ?thesis using destroy_set_refused [OF False] by auto
qed

lemma event_step_keeps:
  assumes "event_step r l r'" "event_inv r"
  shows "keeps_signals r l r'"
  using assms
proof (cases rule: event_step.cases)
  case (ev_waits owner s now deadline res)
  then show ?thesis using wait_any_keeps assms(2) by blast
qed (simp_all add: create_event_keeps create_hardware_event_keeps signal_keeps destroy_event_keeps same_events_keep)

text \<open>Runs in which the event is neither delivered to a waiter nor destroyed.\<close>

inductive undelivered :: "event_handle \<Rightarrow> event_registry \<Rightarrow> event_registry \<Rightarrow> bool" for e where
  undelivered_refl: "undelivered e r r"
| undelivered_step: "\<lbrakk>undelivered e r s; event_step s l t; l \<noteq> Some e; slot_get (er_events t) e \<noteq> None\<rbrakk>
    \<Longrightarrow> undelivered e r t"

lemma undelivered_signaled:
  "undelivered e r t \<Longrightarrow> event_inv r \<Longrightarrow> signaled r e \<Longrightarrow> event_inv t \<and> signaled t e"
proof (induction rule: undelivered.induct)
  case (undelivered_step r s l t)
  then have "event_inv s" "signaled s e" by auto
  then show ?case
    using event_step_keeps [OF undelivered_step.hyps(2)] event_step_sound [OF undelivered_step.hyps(2)] undelivered_step.hyps(3,4)
    by (auto simp: keeps_signals_def event_sound_def)
qed simp

lemma find_ready_before:
  "e \<in> set xs \<Longrightarrow> P e \<Longrightarrow> \<exists>x. find P xs = Some x \<and> x \<in> set (takeWhile (\<lambda>y. y \<noteq> e) xs) \<union> {e}"
  by (induction xs) auto

section \<open>Destroying a service\<close>

lemma owned_handles:
  assumes "event_inv r"
  shows "e \<in> set (owned_events r owner) \<longleftrightarrow> (\<exists>ev. slot_get (er_events r) e = Some ev \<and> ev_owner ev = owner)"
    "s \<in> set (owned_sets r owner) \<longleftrightarrow> (\<exists>rec. slot_get (er_sets r) s = Some rec \<and> es_owner rec = owner)"
  by (simp_all add: owned_events_def owned_sets_def set_slot_select [OF event_invD(1) [OF assms]]
      set_slot_select [OF event_invD(2) [OF assms]])

text \<open>Sets of other services contain none of the events, so they are untouched.\<close>

definition spares :: "service_handle \<Rightarrow> event_set_record \<Rightarrow> event_set_record \<Rightarrow> bool" where
  "spares owner a b \<longleftrightarrow> es_owner b = es_owner a \<and> (es_owner a \<noteq> owner \<longrightarrow> b = a)"

lemma spares_refl [simp]: "rel_option (spares owner) x x"
  by (simp add: spares_def option.rel_refl)

lemma spares_trans:
  "rel_option (spares owner) x y \<Longrightarrow> rel_option (spares owner) y z \<Longrightarrow> rel_option (spares owner) x z"
  by (cases x; cases y; cases z) (auto simp: spares_def)

text \<open>What destroying one event and the loop over the events do to every lookup.\<close>

definition drops :: "service_handle \<Rightarrow> event_handle set \<Rightarrow> event_registry \<Rightarrow> event_registry \<Rightarrow> bool" where
  "drops owner E r r' \<longleftrightarrow>
     (\<forall>x. slot_get (er_events r') x =
        (if x \<in> E \<and> (\<exists>ev. slot_get (er_events r) x = Some ev \<and> ev_owner ev = owner) then None
         else slot_get (er_events r) x))
     \<and> (\<forall>s :: event_set_handle. rel_option (spares owner) (slot_get (er_sets r) s) (slot_get (er_sets r') s))"

lemma drops_refl [simp]: "drops owner {} r r"
  by (simp add: drops_def)

lemma drops_trans: "drops owner E r s \<Longrightarrow> drops owner F s t \<Longrightarrow> drops owner (E \<union> F) r t"
  unfolding drops_def by (intro conjI allI) (auto intro: spares_trans)

lemma destroy_event_drops:
  assumes "event_inv r"
  shows "drops owner {e} r (snd (destroy_event r owner e))"
proof (cases "\<exists>ev. slot_get (er_events r) e = Some ev \<and> ev_owner ev = owner")
  case True
  then obtain ev where ev: "slot_get (er_events r) e = Some ev" "ev_owner ev = owner" by blast
  obtain r' where made: "destroy_event r owner e = (Ok (), r')"
    "er_events r' = slot_retire (er_events r) (unat (handle_index e))"
    "er_sets r' = slot_map (detach_record e) (er_sets r)"
    using destroy_event_live [OF assms ev] by blast
  have spared: "detach_record e rec = rec" if "slot_get (er_sets r) s = Some rec" "es_owner rec \<noteq> owner"
    for s :: event_set_handle and rec
    using event_invD(4) [OF assms that(1)] ev that(2) by (auto simp: detach_record_def set_ok_def)
  have "es_owner (detach_record e rec) = es_owner rec" for rec by (simp add: detach_record_def)
  with spared have "rel_option (spares owner) (slot_get (er_sets r) s) (slot_get (er_sets r') s)" for s :: event_set_handle
    by (cases "slot_get (er_sets r) s") (auto simp: made(3) slot_get_map spares_def)
  then show ?thesis using ev by (auto simp: drops_def made(1,2) slot_get_retire)
next
  case False
  then show ?thesis using destroy_event_refused [OF False] by (auto simp: drops_def)
qed

lemma destroy_events_outcome:
  assumes "event_inv r"
  shows "event_move\<^sup>*\<^sup>* r (destroy_events owner es r) \<and> drops owner (set es) r (destroy_events owner es r)"
  using assms
proof (induction es arbitrary: r)
  case Nil
  then show ?case by (simp add: destroy_events_def)
next
  case (Cons e es)
  let ?w = "wake_waiters r e"
  define r1 where "r1 = snd (destroy_event ?w owner e)"
  have w: "event_move r ?w" using ev_wakes by (auto simp: event_move_def wake_waiters_eq)
  then have inv: "event_inv ?w" using event_move_sound Cons.prems by (auto simp: event_sound_def)
  have move: "event_move ?w r1" using ev_destroys by (auto simp: event_move_def r1_def)
  then have inv1: "event_inv r1" using event_move_sound inv by (auto simp: event_sound_def)
  have same: "er_events ?w = er_events r" "er_sets ?w = er_sets r" by (simp_all add: wake_waiters_eq)
  have "drops owner {e} ?w r1" unfolding r1_def by (rule destroy_event_drops [OF inv])
  then have "drops owner {e} r r1" unfolding drops_def same .
  moreover note IH = Cons.IH [OF inv1]
  ultimately have "drops owner (set (e # es)) r (destroy_events owner es r1)"
    using drops_trans [of owner "{e}" r r1 "set es"] by simp
  moreover have "event_move\<^sup>*\<^sup>* r (destroy_events owner es r1)"
    using w move IH by (meson converse_rtranclp_into_rtranclp)
  ultimately show ?case by (simp add: destroy_events_def r1_def)
qed

lemma destroy_sets_outcome:
  assumes "event_inv r"
  shows "event_move\<^sup>*\<^sup>* r (destroy_sets owner ss r) \<and> er_events (destroy_sets owner ss r) = er_events r
    \<and> (\<forall>x. slot_get (er_sets (destroy_sets owner ss r)) x =
        (if x \<in> set ss \<and> (\<exists>rec. slot_get (er_sets r) x = Some rec \<and> es_owner rec = owner) then None
         else slot_get (er_sets r) x))"
  using assms
proof (induction ss arbitrary: r)
  case Nil
  then show ?case by (simp add: destroy_sets_def)
next
  case (Cons s ss)
  define w where "w = (case get_set r s of Inl _ \<Rightarrow> r | Inr rec \<Rightarrow> if es_waiting rec then wake_event_set r s else r)"
  define r1 where "r1 = snd (destroy_set w owner s)"
  have same: "er_events w = er_events r" "er_sets w = er_sets r"
    by (simp_all add: w_def split: sum.splits)
  have "w = r\<lparr>er_woken := er_woken w\<rparr>" by (auto simp: w_def wake_event_set_def split: sum.splits)
  then have w: "event_move r w" using ev_wakes [of r "er_woken w"] by (metis event_move_def)
  then have inv: "event_inv w" using event_move_sound Cons.prems by (auto simp: event_sound_def)
  have move: "event_move w r1" using ev_destroys_set by (auto simp: event_move_def r1_def)
  then have inv1: "event_inv r1" using event_move_sound inv by (auto simp: event_sound_def)
  have sets: "slot_get (er_sets r1) x =
      (if x = s \<and> (\<exists>rec. slot_get (er_sets r) x = Some rec \<and> es_owner rec = owner) then None
       else slot_get (er_sets r) x)" for x
  proof (cases "\<exists>rec. slot_get (er_sets w) s = Some rec \<and> es_owner rec = owner")
    case True
    then obtain rec where rec: "slot_get (er_sets w) s = Some rec" "es_owner rec = owner" by blast
    obtain r' where "destroy_set w owner s = (Ok (), r')"
      "er_sets r' = slot_retire (er_sets w) (unat (handle_index s))"
      using destroy_set_live [OF rec] by blast
    then show ?thesis using rec by (auto simp: r1_def slot_get_retire same)
  next
    case False
    then show ?thesis using destroy_set_refused [OF False] by (auto simp: r1_def same)
  qed
  have "event_move\<^sup>*\<^sup>* r (destroy_sets owner ss r1)"
    using w move Cons.IH [OF inv1] by (meson converse_rtranclp_into_rtranclp)
  moreover have "destroy_sets owner (s # ss) r = destroy_sets owner ss r1"
    by (simp add: destroy_sets_def r1_def w_def)
  moreover have "er_events r1 = er_events r" by (simp add: r1_def same)
  ultimately show ?case using Cons.IH [OF inv1] sets by auto
qed

section \<open>Properties\<close>

lemma map_map_filter: "map f (List.map_filter g xs) = List.map_filter (\<lambda>x. map_option f (g x)) xs"
  by (induction xs) (simp_all add: map_filter_simps split: option.splits)

lemma waiters_spec:
  assumes "event_inv r"
  shows "s \<in> set (map fst (waiters r e))
    \<longleftrightarrow> (\<exists>rec. get_set r s = Ok rec \<and> es_waiting rec \<and> e \<in> set (es_members rec))"
proof -
  have "map fst (waiters r e) = slot_select (\<lambda>rec. es_waiting rec \<and> e \<in> set (es_members rec)) (er_sets r)"
    unfolding waiters_def slot_select_def map_map_filter
    by (rule arg_cong [where f = "\<lambda>g. List.map_filter g [0 ..< length (er_sets r)]"])
      (auto simp: fun_eq_iff split: option.splits)
  then show ?thesis by (simp add: set_slot_select [OF event_invD(2) [OF assms]] get_set_Ok)
qed

text \<open>A small registry: one service with an event, a hardware event and two sets.\<close>

abbreviation event_demo_owner :: service_handle where "event_demo_owner \<equiv> Handle 0x100000004"
abbreviation event_demo_first :: "'kind handle" where "event_demo_first \<equiv> Handle 0x100000000"
abbreviation event_demo_second :: "'kind handle" where "event_demo_second \<equiv> Handle 0x100000001"

definition event_demo_event :: event_record where
  "event_demo_event = \<lparr>ev_owner = event_demo_owner, ev_directory_flags = 1, ev_signaled = False\<rparr>"

definition event_demo_set :: "event_handle list \<Rightarrow> bool \<Rightarrow> event_set_record" where
  "event_demo_set ms w = \<lparr>es_owner = event_demo_owner, es_members = ms, es_waiting = w, es_invalidated = False\<rparr>"

definition event_demo_slot :: "'a \<Rightarrow> 'a slot" where
  "event_demo_slot v = \<lparr>sl_generation = 1, sl_value = Some v\<rparr>"

definition event_demo_events :: "event_set_record list \<Rightarrow> (hardware_source \<Rightarrow> hardware_line) \<Rightarrow> event_registry" where
  "event_demo_events sets hardware = \<lparr>er_events = [event_demo_slot event_demo_event], er_sets = map event_demo_slot sets,
     er_generation_seed = 1, er_hardware = hardware, er_woken = []\<rparr>"

definition event_demo_line :: "u64 \<Rightarrow> hardware_source \<Rightarrow> hardware_line" where
  "event_demo_line s = (\<lambda>_. hardware_idle)(HwKeyboard := \<lparr>hl_event_raw = 0x100000000, hl_set_raw = s, hl_pending = False\<rparr>)"

lemma event_demo_fields [simp]:
  "handle_index event_demo_first = 0" "handle_generation event_demo_first = 1"
  "handle_index event_demo_second = 1" "handle_generation event_demo_second = 1" "handle_is_valid event_demo_owner"
  by (simp_all add: handle_index_def handle_generation_def handle_is_valid_def)

lemma event_demo_new [simp]:
  "handle_new 0 1 = Some event_demo_first" "handle_new 1 1 = Some event_demo_second"
  by (simp_all add: handle_new_Some)

lemma event_demo_lookup [simp]:
  "slot_get (event_demo_slot v # xs) event_demo_first = Some v" "slot_get (event_demo_slot v # event_demo_slot w # xs) event_demo_second = Some w"
  by (simp_all add: slot_get_eq slot_at_def slice_get_def event_demo_slot_def)

lemmas event_demo_defs = event_demo_events_def event_demo_event_def event_demo_set_def event_demo_slot_def event_demo_line_def

lemma event_demo_tables [simp]:
  "er_events (event_demo_events sets hardware) = [event_demo_slot event_demo_event]" "er_sets (event_demo_events sets hardware) = map event_demo_slot sets"
  "er_hardware (event_demo_events sets hardware) = hardware"
  by (simp_all add: event_demo_events_def)

lemma event_demo_set_fields [simp]:
  "es_owner (event_demo_set ms w) = event_demo_owner" "es_members (event_demo_set ms w) = ms" "\<not> es_invalidated (event_demo_set ms w)"
  "es_waiting (event_demo_set ms w) = w"
  by (simp_all add: event_demo_set_def)

lemma event_demo_create:
  "create_hardware_event (\<lambda>_. True) (event_registry_new_with_generation 1 (\<lambda>_. hardware_idle)) event_demo_owner HwKeyboard
    = (Ok event_demo_first, event_demo_events [] (event_demo_line 0))"
  by (simp add: create_hardware_event_def create_event_with_flags_def allocate_event_slot_def slot_allocate_def
      event_registry_new_with_generation_def fresh_slot_def slot_handle_of_def slot_put_def bind_hardware_event_def
      put_line_def event_demo_defs)

lemma event_demo_create_set:
  "create_set (\<lambda>_. True) (event_demo_events [] hardware) event_demo_owner = (Ok event_demo_first, event_demo_events [event_demo_set [] False] hardware)"
  "create_set (\<lambda>_. True) (event_demo_events [event_demo_set [] False] hardware) event_demo_owner
    = (Ok event_demo_second, event_demo_events [event_demo_set [] False, event_demo_set [] False] hardware)"
  by (simp_all add: create_set_def allocate_set_slot_def slot_allocate_def fresh_slot_def slot_handle_of_def slot_put_def
      event_demo_defs)

lemma event_demo_add:
  "set_add (\<lambda>_. True) (event_demo_events [event_demo_set [] False, event_demo_set [] False] (event_demo_line 0)) event_demo_owner event_demo_first event_demo_first
    = (Ok (), event_demo_events [event_demo_set [event_demo_first] False, event_demo_set [] False] (event_demo_line 0x100000000))"
  by (simp add: set_add_def get_event_eq get_set_eq event_demo_events_def)
    (simp add: event_demo_defs put_set_def slot_put_def bind_all_hardware_wait_sets_def hardware_sources_def
      bind_hardware_wait_set_def put_line_def hardware_idle_def fun_upd_idem_iff Let_def)

abbreviation event_demo_ready :: event_registry where
  "event_demo_ready \<equiv> event_demo_events [event_demo_set [event_demo_first] False, event_demo_set [] False] (event_demo_line 0x100000000)"

lemma event_demo_reachable:
  "event_move\<^sup>*\<^sup>* (event_registry_new_with_generation 1 (\<lambda>_. hardware_idle)) event_demo_ready"
proof -
  let ?n = "event_registry_new_with_generation 1 (\<lambda>_. hardware_idle)"
  have "event_move ?n (event_demo_events [] (event_demo_line 0))"
    using ev_creates_hardware [of ?n "\<lambda>_. True" event_demo_owner HwKeyboard]
    unfolding event_demo_create by (auto simp: event_move_def event_registry_new_with_generation_def)
  moreover have "event_move (event_demo_events [] (event_demo_line 0)) (event_demo_events [event_demo_set [] False] (event_demo_line 0))"
    using ev_creates_set [of "event_demo_events [] (event_demo_line 0)" "\<lambda>_. True" event_demo_owner]
    unfolding event_demo_create_set by (auto simp: event_move_def)
  moreover have "event_move (event_demo_events [event_demo_set [] False] (event_demo_line 0))
      (event_demo_events [event_demo_set [] False, event_demo_set [] False] (event_demo_line 0))"
    using ev_creates_set [of "event_demo_events [event_demo_set [] False] (event_demo_line 0)" "\<lambda>_. True" event_demo_owner]
    unfolding event_demo_create_set by (auto simp: event_move_def)
  moreover have "event_move (event_demo_events [event_demo_set [] False, event_demo_set [] False] (event_demo_line 0)) event_demo_ready"
    using ev_adds [of "event_demo_events [event_demo_set [] False, event_demo_set [] False] (event_demo_line 0)" "\<lambda>_. True" event_demo_owner event_demo_first event_demo_first]
    unfolding event_demo_add by (auto simp: event_move_def)
  ultimately show ?thesis by (meson rtranclp.rtrancl_refl rtranclp.rtrancl_into_rtrancl)
qed

abbreviation event_demo_signaled :: event_registry where
  "event_demo_signaled \<equiv> event_demo_ready\<lparr>er_events := [event_demo_slot (event_demo_event\<lparr>ev_signaled := True\<rparr>)]\<rparr>"

lemma event_demo_signal: "event_signal event_demo_ready event_demo_owner event_demo_first = (Ok (), event_demo_signaled)"
  by (simp add: event_signal_def get_event_eq wake_waiters_eq put_event_def)
    (simp add: event_demo_defs slot_put_def waiters_def map_filter_simps upt_conv_Cons)

lemma event_demo_signaled_set: "get_set event_demo_signaled event_demo_first = Ok (event_demo_set [event_demo_first] False)"
  by (simp add: get_set_eq)

lemma event_demo_signaled_ready: "is_ready event_demo_signaled event_demo_first"
  by (simp add: is_ready_def)

lemma event_demo_signaled_reachable:
  "event_move\<^sup>*\<^sup>* (event_registry_new_with_generation 1 (\<lambda>_. hardware_idle)) event_demo_signaled"
proof -
  have "event_move event_demo_ready event_demo_signaled"
    using ev_signals [of event_demo_ready event_demo_owner event_demo_first] unfolding event_demo_signal by (auto simp: event_move_def)
  with event_demo_reachable show ?thesis by (rule rtranclp.rtrancl_into_rtrancl)
qed



text \<open>
  C21: No signal is lost. After an owner signals an event, every wait on a live, valid set that has
  the event as a member returns at once with a ready event, at the latest the signalled one, after
  any number of further steps of the table that neither deliver the event to a waiter nor destroy it.
\<close>

theorem signal_latched:
  assumes "event_move\<^sup>*\<^sup>* (event_registry_new_with_generation g hardware) r"
    "event_signal r owner e = (Ok (), r1)" "undelivered e r1 t"
    "get_set t s = Ok rec" "es_owner rec = owner'" "\<not> es_invalidated rec" "e \<in> set (es_members rec)"
    "\<forall>d. deadline = Some d \<longrightarrow> d = NO_DEADLINE \<or> now \<le> d"
  shows "\<exists>e' t'. wait_any t owner' s now deadline = (Ok (WaitReady e'), t')
    \<and> e' \<in> set (takeWhile (\<lambda>y. y \<noteq> e) (es_members rec)) \<union> {e}"
proof -
  have inv: "event_inv r" by (rule event_inv_reachable [OF assms(1)])
  then have "event_inv r1" using signal_sound(2) [OF inv, of owner e] assms(2) by (simp add: event_sound_def)
  moreover have "signaled r1 e"
    using assms(2)
    by (auto simp: event_signal_def get_event_Ok signaled_def wake_waiters_eq put_event_def slot_get_put
        split: sum.splits if_splits)
  ultimately have t: "event_inv t" "is_ready t e"
    using undelivered_signaled [OF assms(3)] by (auto simp: signaled_def is_ready_def)
  then show ?thesis
    using find_ready_before [OF assms(7), of "is_ready t"] wait_any_eq [OF t(1) assms(4,5,6,8)] by auto
qed

theorem signal_latched_witness:
  "\<exists>t'. wait_any (snd (cancel_wait event_demo_signaled event_demo_owner event_demo_second)) event_demo_owner event_demo_first 5 None
     = (Ok (WaitReady event_demo_first), t')"
proof -
  let ?t = "snd (cancel_wait event_demo_signaled event_demo_owner event_demo_second)"
  have cancel: "?t = event_demo_signaled"
    by (simp add: cancel_wait_def get_set_eq Let_def) (simp add: event_demo_defs put_set_def slot_put_def)
  have run: "undelivered event_demo_first event_demo_signaled ?t"
  proof (rule undelivered_step [OF undelivered_refl])
    show "event_step event_demo_signaled None ?t" by (rule ev_cancels)
    show "slot_get (er_events ?t) event_demo_first \<noteq> None" unfolding cancel by simp
  qed simp
  have "get_set ?t event_demo_first = Ok (event_demo_set [event_demo_first] False)"
    unfolding cancel by (rule event_demo_signaled_set)
  then show ?thesis
    using signal_latched [OF event_demo_reachable event_demo_signal run, of event_demo_first "event_demo_set [event_demo_first] False" event_demo_owner None 5]
    by simp
qed




lemma event_demo_add_remove:
  "set_add (\<lambda>_. True) event_demo_ready event_demo_owner event_demo_second event_demo_first
    = (Ok (), event_demo_events [event_demo_set [event_demo_first] False, event_demo_set [event_demo_first] False] (event_demo_line 0x100000001))"
  "set_remove (event_demo_events [event_demo_set [event_demo_first] False, event_demo_set [event_demo_first] False] (event_demo_line 0x100000001))
      event_demo_owner event_demo_second event_demo_first
    = (Ok (), event_demo_events [event_demo_set [event_demo_first] False, event_demo_set [] False] (event_demo_line 0))"
  by (simp_all add: set_add_def set_remove_def get_event_eq get_set_eq remove_at_def)
    (simp_all add: event_demo_defs put_set_def slot_put_def bind_all_hardware_wait_sets_def unbind_all_hardware_wait_sets_def
      hardware_sources_def bind_hardware_wait_set_def unbind_hardware_wait_set_def put_line_def hardware_idle_def Let_def)

lemma event_demo_pending:
  "wait_any (event_demo_events [event_demo_set [event_demo_first] False, event_demo_set [] False] (event_demo_line 0)) event_demo_owner event_demo_first 5 None
    = (Ok WaitPending, event_demo_events [event_demo_set [event_demo_first] True, event_demo_set [] False] (event_demo_line 0))"
  by (simp add: wait_any_def get_set_eq upt_conv_Cons slice_get_def event_ready_def get_event_eq
      hardware_event_is_pending_def hardware_sources_def event_demo_event_def event_demo_line_def hardware_idle_def set_waiting_def)
    (simp add: event_demo_defs put_set_def slot_put_def)


end
