(* ===== verification/IPC_Runs.thy ===== *)
theory IPC_Runs
  imports IPC_Queues Event_Properties
begin

text \<open>
  The invariant of the IPC tables and the step relation over all operations that change them,
  together with the event table and the memory that they share with the rest of the kernel.
\<close>

section \<open>Invariant\<close>

text \<open>A grant names a live endpoint, and its owner is the party of the endpoint that the right is for.\<close>

definition grant_ok :: "ipc_registry \<Rightarrow> capability_handle \<Rightarrow> capability_record \<Rightarrow> bool" where
  "grant_ok r c grant \<longleftrightarrow> cr_handle grant = c
     \<and> (\<exists>ep. slot_get (ir_endpoints r) (cr_endpoint grant) = Some ep
          \<and> cr_service_epoch grant = ep_service_epoch ep
          \<and> cr_owner grant = (case cr_rights grant of IrSend \<Rightarrow> ep_producer ep | IrReceive \<Rightarrow> ep_consumer ep))"

definition ipc_inv :: "ipc_registry \<Rightarrow> bool" where
  "ipc_inv r \<longleftrightarrow> slots_ok (ir_generation_seed r) (ir_endpoints r)
     \<and> slots_ok (ir_capability_generation r) (ir_capabilities r)
     \<and> (\<forall>h ep. slot_get (ir_endpoints r) h = Some ep \<longrightarrow> endpoint_ok h ep)
     \<and> (\<forall>(h :: endpoint_handle) ep (h' :: endpoint_handle) ep'. slot_get (ir_endpoints r) h = Some ep \<longrightarrow> slot_get (ir_endpoints r) h' = Some ep' \<longrightarrow> h \<noteq> h' \<longrightarrow>
          ep_footprint ep \<inter> ep_footprint ep' = {})
     \<and> (\<forall>c grant. slot_get (ir_capabilities r) c = Some grant \<longrightarrow> grant_ok r c grant)
     \<and> ir_queue_committed_messages r \<le> ir_queue_budget_messages r"

lemma ipc_invD:
  fixes h h' :: endpoint_handle
  assumes "ipc_inv r"
  shows "slots_ok (ir_generation_seed r) (ir_endpoints r)" "slots_ok (ir_capability_generation r) (ir_capabilities r)"
    "slot_get (ir_endpoints r) h = Some ep \<Longrightarrow> endpoint_ok h ep"
    "\<lbrakk>slot_get (ir_endpoints r) h = Some ep; slot_get (ir_endpoints r) h' = Some ep'; h \<noteq> h'\<rbrakk>
       \<Longrightarrow> ep_footprint ep \<inter> ep_footprint ep' = {}"
    "slot_get (ir_capabilities r) c = Some grant \<Longrightarrow> grant_ok r c grant"
    "ir_queue_committed_messages r \<le> ir_queue_budget_messages r"
  using assms unfolding ipc_inv_def by blast+

lemma ipc_inv_new: "ipc_inv (ipc_registry_new_with_generation_and_budget generation budget)"
  by (simp add: ipc_inv_def ipc_registry_new_with_generation_and_budget_def Let_def slot_next_generation_def
      slot_get_eq slot_at_def slice_get_def)

text \<open>One registry follows another: the generations of both tables move on at most once per slot.\<close>

definition ipc_follows :: "ipc_registry \<Rightarrow> ipc_registry \<Rightarrow> bool" where
  "ipc_follows r r' \<longleftrightarrow> ir_generation_seed r' = ir_generation_seed r
     \<and> ir_capability_generation r' = ir_capability_generation r
     \<and> ir_queue_budget_messages r' = ir_queue_budget_messages r
     \<and> slot_moves (ir_generation_seed r) (ir_endpoints r) (ir_endpoints r')
     \<and> slot_moves (ir_capability_generation r) (ir_capabilities r) (ir_capabilities r')"

definition ipc_sound :: "ipc_registry \<Rightarrow> ipc_registry \<Rightarrow> bool" where
  "ipc_sound r r' \<longleftrightarrow> ipc_inv r' \<and> ipc_follows r r'"

lemma ipc_sound_refl [simp]: "ipc_inv r \<Longrightarrow> ipc_sound r r"
  by (simp add: ipc_sound_def ipc_follows_def)

section \<open>Messages\<close>

lemma ipc_sound_put:
  assumes "ipc_inv r" "slot_get (ir_endpoints r) h = Some ep" "endpoint_ok h ep'"
    "queue_frames (ep_queue ep') = queue_frames (ep_queue ep)" "ep_service_epoch ep' = ep_service_epoch ep"
    "ep_producer ep' = ep_producer ep" "ep_consumer ep' = ep_consumer ep"
  shows "ipc_sound r (put_endpoint r h ep')"
proof -
  note get = slot_get_put [OF assms(2)]
  have "grant_ok (put_endpoint r h ep') c grant" if "grant_ok r c grant" for c grant
    using that assms(2,5-7) by (auto simp: grant_ok_def put_endpoint_def get split: ipc_rights.splits)
  then show ?thesis
    using assms unfolding ipc_sound_def ipc_inv_def ipc_follows_def
    by (auto simp: put_endpoint_def get slots_ok_put split: if_splits)
qed

text \<open>
  What a send does, branch by branch. The status tells which check refused it; only a success
  changes the tables, and then only the endpoint of the capability.
\<close>

lemma ipc_send_outcome:
  assumes "ipc_inv r" "ipc_send r events mem caller c bytes = result"
  obtains status where "result = Some (status, r, events, mem)" "status \<noteq> IpcOk"
  | grant ep ep' mem' where "slot_get (ir_capabilities r) c = Some grant" "cr_rights grant = IrSend" "cr_owner grant = caller"
      "slot_get (ir_endpoints r) (cr_endpoint grant) = Some ep" "ep_producer ep = caller"
      "length bytes = ep_message_bytes ep" "ep_queue_len ep < ep_queue_capacity ep"
      "result = Some (IpcOk, put_endpoint r (cr_endpoint grant) ep', snd (signal_irq events (ep_read_event ep)), mem')"
      "queue_contents mem' ep' = queue_contents mem ep @ [bytes]" "\<forall>a. a \<notin> ep_footprint ep \<longrightarrow> mem' a = mem a"
      "ipc_sound r (put_endpoint r (cr_endpoint grant) ep')"
proof (cases "slot_get (ir_capabilities r) c")
  case None
  then show thesis using assms(2) that(1) by (auto simp: ipc_send_def get_capability_def)
next
  case (Some grant)
  then obtain ep where ep: "slot_get (ir_endpoints r) (cr_endpoint grant) = Some ep"
    "cr_service_epoch grant = ep_service_epoch ep"
    "cr_owner grant = (case cr_rights grant of IrSend \<Rightarrow> ep_producer ep | IrReceive \<Rightarrow> ep_consumer ep)"
    using ipc_invD(5) [OF assms(1) Some] by (auto simp: grant_ok_def)
  have ok: "endpoint_ok (cr_endpoint grant) ep" using ipc_invD(3) [OF assms(1) ep(1)] .
  note send = assms(2) [unfolded ipc_send_def get_capability_def get_endpoint_eq]
  show thesis
  proof (cases "cr_owner grant = caller \<and> cr_rights grant = IrSend \<and> length bytes = ep_message_bytes ep
      \<and> ep_queue_len ep < ep_queue_capacity ep")
    case False
    then show thesis using send Some ep that(1) by (auto split: if_splits)
  next
    case True
    then have room: "length bytes = ep_message_bytes ep" "ep_queue_len ep < ep_queue_capacity ep" by simp_all
    obtain queue mem' where w: "queue_write mem (ep_queue ep) (ep_queue_tail ep) bytes = Some (queue, mem')"
      "queue_frames queue = queue_frames (ep_queue ep)" "\<forall>a. a \<notin> ep_footprint ep \<longrightarrow> mem' a = mem a"
      and ep': "endpoint_ok (cr_endpoint grant) (ep\<lparr>ep_queue := queue,
          ep_queue_tail := (ep_queue_tail ep + 1) mod ep_queue_capacity ep, ep_queue_len := ep_queue_len ep + 1\<rparr>)"
        "queue_contents mem' (ep\<lparr>ep_queue := queue, ep_queue_tail := (ep_queue_tail ep + 1) mod ep_queue_capacity ep,
          ep_queue_len := ep_queue_len ep + 1\<rparr>) = queue_contents mem ep @ [bytes]"
      using send_appends [OF ok room, of mem] unfolding Let_def by blast
    have sound: "ipc_sound r (put_endpoint r (cr_endpoint grant) (ep\<lparr>ep_queue := queue,
        ep_queue_tail := (ep_queue_tail ep + 1) mod ep_queue_capacity ep, ep_queue_len := ep_queue_len ep + 1\<rparr>))"
      by (rule ipc_sound_put [OF assms(1) ep(1) ep'(1)]) (simp_all add: w(2))
    show thesis
      by (rule that(2) [OF Some _ _ ep(1) _ room _ ep'(2) w(3) sound]) (use True send Some ep w in auto)
  qed
qed

lemma ipc_receive_outcome:
  assumes "ipc_inv r" "ipc_receive r events mem caller c buffer = result"
  obtains status where "result = Some (status, buffer, r, events)" "status \<noteq> IpcOk"
  | grant ep ep' m where "slot_get (ir_capabilities r) c = Some grant" "cr_rights grant = IrReceive" "cr_owner grant = caller"
      "slot_get (ir_endpoints r) (cr_endpoint grant) = Some ep" "ep_consumer ep = caller"
      "length buffer = ep_message_bytes ep" "0 < ep_queue_len ep"
      "result = Some (IpcOk, m, put_endpoint r (cr_endpoint grant) ep', snd (signal_irq events (ep_write_event ep)))"
      "queue_contents mem ep = m # queue_contents mem ep'"
      "ipc_sound r (put_endpoint r (cr_endpoint grant) ep')"
proof (cases "slot_get (ir_capabilities r) c")
  case None
  then show thesis using assms(2) that(1) by (auto simp: ipc_receive_def get_capability_def)
next
  case (Some grant)
  then obtain ep where ep: "slot_get (ir_endpoints r) (cr_endpoint grant) = Some ep"
    "cr_service_epoch grant = ep_service_epoch ep"
    "cr_owner grant = (case cr_rights grant of IrSend \<Rightarrow> ep_producer ep | IrReceive \<Rightarrow> ep_consumer ep)"
    using ipc_invD(5) [OF assms(1) Some] by (auto simp: grant_ok_def)
  have ok: "endpoint_ok (cr_endpoint grant) ep" using ipc_invD(3) [OF assms(1) ep(1)] .
  note receive = assms(2) [unfolded ipc_receive_def get_capability_def get_endpoint_eq]
  show thesis
  proof (cases "cr_owner grant = caller \<and> cr_rights grant = IrReceive \<and> length buffer = ep_message_bytes ep
      \<and> 0 < ep_queue_len ep")
    case False
    then show thesis using receive Some ep that(1) by (auto split: if_splits)
  next
    case True
    then have some: "0 < ep_queue_len ep" by simp
    obtain m where m: "queue_read mem (ep_queue ep) (ep_queue_head ep) (ep_message_bytes ep) = Some m"
      and ep': "queue_contents mem ep = m # queue_contents mem (ep\<lparr>
          ep_queue_head := (ep_queue_head ep + 1) mod ep_queue_capacity ep, ep_queue_len := ep_queue_len ep - 1\<rparr>)"
        "endpoint_ok (cr_endpoint grant) (ep\<lparr>
          ep_queue_head := (ep_queue_head ep + 1) mod ep_queue_capacity ep, ep_queue_len := ep_queue_len ep - 1\<rparr>)"
      using receive_takes [OF ok some, of mem] by blast
    have sound: "ipc_sound r (put_endpoint r (cr_endpoint grant) (ep\<lparr>
        ep_queue_head := (ep_queue_head ep + 1) mod ep_queue_capacity ep, ep_queue_len := ep_queue_len ep - 1\<rparr>))"
      by (rule ipc_sound_put [OF assms(1) ep(1) ep'(2)]) simp_all
    show thesis
      by (rule that(2) [OF Some _ _ ep(1) _ _ some _ ep'(1) sound]) (use True receive Some ep m in auto)
  qed
qed

section \<open>Creation\<close>

lemma slot_get_grown:
  assumes "slot_allocate can_grow seed slots = Some (i, slots')" "slots_ok seed slots" "length slots < 2 ^ 32"
  shows "slot_get slots' k = slot_get slots k"
proof -
  note new = slot_allocate_outcome [OF assms]
  show ?thesis
  proof (cases "slot_at slots (unat (handle_index k))")
    case (Some v)
    then have "unat (handle_index k) < length slots" by (simp add: slot_at_Some)
    then show ?thesis using new(3,6) by (simp add: slot_get_eq)
  qed (simp add: slot_get_eq new(3))
qed

definition fresh_queue :: "ipc_registry \<Rightarrow> queue_storage \<Rightarrow> bool" where
  "fresh_queue r queue \<longleftrightarrow> (\<forall>(h :: endpoint_handle) ep. slot_get (ir_endpoints r) h = Some ep \<longrightarrow>
     ep_footprint ep \<inter> footprint (queue_frames queue) = {})"

definition ipc_keeps :: "ipc_registry \<Rightarrow> ipc_registry \<Rightarrow> bool" where
  "ipc_keeps r r' \<longleftrightarrow> (\<forall>(h :: endpoint_handle) ep ep'. slot_get (ir_endpoints r) h = Some ep \<longrightarrow>
     slot_get (ir_endpoints r') h = Some ep' \<longrightarrow> ep' = ep)"

lemma ipc_keeps_refl [simp]: "ipc_keeps r r"
  by (simp add: ipc_keeps_def)

lemma ipc_grown:
  assumes "ipc_inv r" "slot_allocate can_grow (ir_generation_seed r) (ir_endpoints r) = Some (i, endpoints)"
    "length (ir_endpoints r) < 2 ^ 32"
  shows "ipc_sound r (r\<lparr>ir_endpoints := endpoints\<rparr>)" "ipc_keeps r (r\<lparr>ir_endpoints := endpoints\<rparr>)"
proof -
  note ok = ipc_invD(1) [OF assms(1)]
  have same: "slot_get endpoints h = slot_get (ir_endpoints r) h" for h :: endpoint_handle
    using slot_get_grown [OF assms(2) ok assms(3)] .
  show "ipc_sound r (r\<lparr>ir_endpoints := endpoints\<rparr>)"
    using assms(1) slot_allocate_outcome(1) [OF assms(2) ok assms(3)] slot_moves_allocate(1) [OF assms(2) ok assms(3)]
    by (simp add: ipc_sound_def ipc_inv_def ipc_follows_def grant_ok_def same)
  show "ipc_keeps r (r\<lparr>ir_endpoints := endpoints\<rparr>)" by (simp add: ipc_keeps_def same)
qed

lemma ipc_filled:
  assumes "ipc_inv r" "slot_allocate can_grow (ir_generation_seed r) (ir_endpoints r) = Some (i, endpoints)"
    "length (ir_endpoints r) < 2 ^ 32" "slot_handle_of endpoints i = Some h" "endpoint_ok h ep" "fresh_queue r (ep_queue ep)"
    "committed \<le> ir_queue_budget_messages r"
  defines "r' \<equiv> r\<lparr>ir_endpoints := slot_put endpoints i ep, ir_queue_committed_messages := committed\<rparr>"
  shows "ipc_sound r r'" "ipc_keeps r r'" "slot_get (ir_endpoints r') h = Some ep" "slot_get (ir_endpoints r) h = None"
proof -
  note ok = ipc_invD(1) [OF assms(1)]
  note get = slot_get_allocated [OF assms(2) ok assms(3,4)]
  have "grant_ok r' c grant" if "grant_ok r c grant" for c grant
    using that get(2) by (auto simp: grant_ok_def r'_def get(1))
  moreover have "ep_footprint ep' \<inter> ep_footprint ep = {}" "ep_footprint ep \<inter> ep_footprint ep' = {}"
    if "slot_get (ir_endpoints r) h' = Some ep'" for ep' and h' :: endpoint_handle
    using assms(6) that unfolding fresh_queue_def by blast+
  ultimately have "ipc_inv r'"
    using assms(1,5,7) slots_ok_put [OF slot_allocate_outcome(1) [OF assms(2) ok assms(3)], of i ep]
    unfolding ipc_inv_def by (simp add: r'_def get(1))
  then show "ipc_sound r r'"
    using slot_moves_allocate(2) [OF assms(2) ok assms(3), of ep] by (simp add: ipc_sound_def ipc_follows_def r'_def)
  show "ipc_keeps r r'" using get(2) by (auto simp: ipc_keeps_def r'_def get(1))
  show "slot_get (ir_endpoints r') h = Some ep" "slot_get (ir_endpoints r) h = None" using get(2) by (simp_all add: r'_def get(1))
qed

lemma create_with_queue_sound:
  assumes "ipc_inv r" "length (ir_endpoints r) < 2 ^ 32" "queue_ok (ea_queue_capacity a) queue" "fresh_queue r queue"
    "create_endpoint_with_queue reserve reserve_read reserve_write r events a queue = (res, r', events')"
  shows "ipc_sound r r' \<and> ipc_keeps r r' \<and> (\<forall>h. res = Ok h \<longrightarrow> (\<exists>ep. slot_get (ir_endpoints r') h = Some ep
    \<and> slot_get (ir_endpoints r) h = None \<and> ep_queue_len ep = 0))"
proof (cases "endpoint_args_malformed a \<or> over_budget r a \<or> slot_allocate (reserve EndpointSlots) (ir_generation_seed r) (ir_endpoints r) = None")
  case True
  then show ?thesis using assms(1,5)
    by (cases "endpoint_args_malformed a"; cases "over_budget r a") (auto simp: create_endpoint_with_queue_def allocate_endpoint_slot_def)
next
  case False
  then have fine: "\<not> endpoint_args_malformed a" "\<not> over_budget r a" by simp_all
  obtain i endpoints where alloc: "slot_allocate (reserve EndpointSlots) (ir_generation_seed r) (ir_endpoints r) = Some (i, endpoints)"
    using False by fastforce
  note ok = ipc_invD(1) [OF assms(1)]
  obtain h :: endpoint_handle where h: "slot_handle_of endpoints i = Some h"
    using slot_allocate_outcome(8) [OF alloc ok assms(2)] by blast
  obtain read events1 where read: "create_event reserve_read events (ea_consumer a) = (read, events1)" by fastforce
  obtain wr events2 where wr: "create_event reserve_write events1 (ea_producer a) = (wr, events2)" by fastforce
  note create = assms(5) [unfolded create_endpoint_with_queue_def allocate_endpoint_slot_def]
  show ?thesis
  proof (cases "result_is_ok read \<and> result_is_ok wr")
    case False
    then have "r' = r\<lparr>ir_endpoints := endpoints\<rparr>" "\<forall>h. res \<noteq> Ok h"
      using create fine alloc h read wr by (auto split: sum.splits)
    then show ?thesis using ipc_grown [OF assms(1) alloc assms(2)] by simp
  next
    case True
    then obtain re we where ev: "read = Ok re" "wr = Ok we" by (cases read; cases wr) auto
    define ep where "ep = \<lparr>ep_handle = h, ep_producer = ea_producer a, ep_consumer = ea_consumer a,
      ep_contract_id = ea_contract_id a, ep_message_bytes = ea_message_bytes a,
      ep_queue_capacity = ea_queue_capacity a, ep_service_epoch = ea_service_epoch a,
      ep_read_event = re, ep_write_event = we, ep_queue = queue, ep_queue_head = 0, ep_queue_tail = 0, ep_queue_len = 0\<rparr>"
    define committed where "committed = min (ir_queue_committed_messages r + ea_queue_capacity a) USIZE_MAX"
    have r': "r' = r\<lparr>ir_endpoints := slot_put endpoints i ep, ir_queue_committed_messages := committed\<rparr>" "res = Ok h"
      using create fine alloc h read wr ev by (simp_all add: ep_def committed_def)
    have "endpoint_ok h ep" using fine(1) assms(3) by (auto simp: endpoint_ok_def endpoint_args_malformed_def ep_def)
    moreover have "fresh_queue r (ep_queue ep)" using assms(4) by (simp add: ep_def)
    moreover have "committed \<le> ir_queue_budget_messages r"
      using fine(2) ipc_invD(6) [OF assms(1)] by (simp add: over_budget_def committed_def)
    ultimately have "ipc_sound r r' \<and> ipc_keeps r r' \<and> slot_get (ir_endpoints r') h = Some ep \<and> slot_get (ir_endpoints r) h = None"
      unfolding r'(1) using ipc_filled [OF assms(1) alloc assms(2) h, of ep committed] by blast
    then show ?thesis using r'(2) by (auto simp: ep_def)
  qed
qed

text \<open>The other two creation functions and grants.\<close>

lemma create_endpoint_sound:
  assumes "ipc_inv r" "length (ir_endpoints r) < 2 ^ 32"
    "create_endpoint reserve reserve_read reserve_write r events a = (res, r', events')"
  shows "ipc_sound r r' \<and> ipc_keeps r r'"
proof -
  have "queue_ok (ea_queue_capacity a) (QueueHeap (replicate (ea_queue_capacity a) queue_message_empty))"
    "fresh_queue r (QueueHeap (replicate (ea_queue_capacity a) queue_message_empty))"
    by (simp_all add: queue_ok_def queue_message_empty_def fresh_queue_def queue_frames_def footprint_def)
  from create_with_queue_sound [OF assms(1,2) this] show ?thesis
    using assms(1,3) by (auto simp: create_endpoint_def split: if_splits)
qed

lemma create_with_frames_sound:
  assumes "ipc_inv r" "length (ir_endpoints r) < 2 ^ 32" "frames_apart frames" "fresh_queue r (QueueFrames frames)"
    "create_endpoint_with_frames reserve reserve_read reserve_write r events a frames = (res, r', events')"
  shows "ipc_sound r r' \<and> ipc_keeps r r'"
proof (cases "length frames = ea_queue_capacity a \<and> reserve QueueBuffer")
  case True
  then have "queue_ok (ea_queue_capacity a) (QueueFrames frames)" using assms(3) by (simp add: queue_ok_def)
  from create_with_queue_sound [OF assms(1,2) this assms(4)] show ?thesis
    using assms(5) True by (auto simp: create_endpoint_with_frames_def)
next
  case False
  then show ?thesis using assms(1,5) by (auto simp: create_endpoint_with_frames_def split: if_splits)
qed

lemma ipc_grant_sound:
  assumes "ipc_inv r" "length (ir_capabilities r) < 2 ^ 32" "ipc_grant reserve r owner h rights = (res, r')"
  shows "ipc_sound r r' \<and> ir_endpoints r' = ir_endpoints r"
proof (cases "slot_get (ir_endpoints r) h = None \<or> slot_allocate (reserve CapabilitySlots) (ir_capability_generation r) (ir_capabilities r) = None
    \<or> (\<exists>ep. slot_get (ir_endpoints r) h = Some ep \<and> (case rights of IrSend \<Rightarrow> ep_producer ep | IrReceive \<Rightarrow> ep_consumer ep) \<noteq> owner)")
  case True
  then have "r' = r"
    using assms(3) by (cases "slot_get (ir_endpoints r) h")
      (auto simp: ipc_grant_def get_endpoint_eq allocate_capability_record_def split: if_splits)
  then show ?thesis using assms(1) by simp
next
  case False
  then obtain ep i capabilities where ep: "slot_get (ir_endpoints r) h = Some ep"
      "(case rights of IrSend \<Rightarrow> ep_producer ep | IrReceive \<Rightarrow> ep_consumer ep) = owner"
    and alloc: "slot_allocate (reserve CapabilitySlots) (ir_capability_generation r) (ir_capabilities r) = Some (i, capabilities)"
    by fastforce
  note ok = ipc_invD(2) [OF assms(1)]
  obtain c :: capability_handle where c: "slot_handle_of capabilities i = Some c"
    using slot_allocate_outcome(8) [OF alloc ok assms(2)] by blast
  note get = slot_get_allocated [OF alloc ok assms(2) c]
  define grant where "grant = \<lparr>cr_handle = c, cr_owner = owner, cr_endpoint = h, cr_rights = rights, cr_service_epoch = ep_service_epoch ep\<rparr>"
  have r': "r' = r\<lparr>ir_capabilities := slot_put capabilities i grant\<rparr>"
    using assms(3) ep alloc c by (simp add: ipc_grant_def get_endpoint_eq allocate_capability_record_def grant_def)
  have "grant_ok r' c grant" using ep by (auto simp: grant_ok_def grant_def r')
  then have "ipc_inv r'"
    using assms(1) slots_ok_put [OF slot_allocate_outcome(1) [OF alloc ok assms(2)], of i grant]
    unfolding ipc_inv_def by (auto simp: r' get(1) grant_ok_def split: if_splits)
  then show ?thesis using slot_moves_allocate(2) [OF alloc ok assms(2), of grant] by (simp add: ipc_sound_def ipc_follows_def r')
qed

section \<open>Teardown\<close>

text \<open>A table after some of its occupied slots were retired.\<close>

definition slot_falls :: "'a slot list \<Rightarrow> 'a slot list \<Rightarrow> bool" where
  "slot_falls slots slots' \<longleftrightarrow> length slots' = length slots \<and> (\<forall>i < length slots. slots' ! i = slots ! i
     \<or> sl_value (slots ! i) \<noteq> None
       \<and> slots' ! i = \<lparr>sl_generation = slot_next_generation (sl_generation (slots ! i)), sl_value = None\<rparr>)"

lemma slot_falls_refl [simp]: "slot_falls slots slots"
  by (simp add: slot_falls_def)

lemma slot_falls_trans:
  assumes "slot_falls xs ys" "slot_falls ys zs"
  shows "slot_falls xs zs"
  unfolding slot_falls_def
proof (intro conjI allI impI)
  show "length zs = length xs" using assms by (simp add: slot_falls_def)
  fix i assume "i < length xs"
  then have xy: "ys ! i = xs ! i \<or> sl_value (xs ! i) \<noteq> None
      \<and> ys ! i = \<lparr>sl_generation = slot_next_generation (sl_generation (xs ! i)), sl_value = None\<rparr>"
    and yz: "zs ! i = ys ! i \<or> sl_value (ys ! i) \<noteq> None
      \<and> zs ! i = \<lparr>sl_generation = slot_next_generation (sl_generation (ys ! i)), sl_value = None\<rparr>"
    using assms unfolding slot_falls_def by auto
  show "zs ! i = xs ! i \<or> sl_value (xs ! i) \<noteq> None
      \<and> zs ! i = \<lparr>sl_generation = slot_next_generation (sl_generation (xs ! i)), sl_value = None\<rparr>"
    using xy yz by (elim disjE conjE) simp_all
qed

lemma slot_falls_retire: "slot_at slots i \<noteq> None \<Longrightarrow> slot_falls slots (slot_retire slots i)"
  by (auto simp: slot_falls_def slot_retire_def slot_at_Some nth_list_update)

lemma slot_falls_sweep: "slot_falls slots (slot_sweep P slots)"
  by (auto simp: slot_falls_def slot_sweep_def split: option.splits)

lemma slot_falls_get:
  assumes "slot_falls slots slots'" "slot_get slots' h = Some v"
  shows "slot_get slots h = Some v"
proof -
  let ?i = "unat (handle_index h)"
  have i: "?i < length slots'" "sl_value (slots' ! ?i) = Some v" "sl_generation (slots' ! ?i) = handle_generation h"
    using assms(2) by (auto simp: slot_get_Some slot_at_Some)
  then have "slots' ! ?i = slots ! ?i" using assms(1) by (auto simp: slot_falls_def)
  then show ?thesis using i assms(1) by (simp add: slot_get_Some slot_at_Some slot_falls_def)
qed

lemma slot_falls_ok: "slot_falls slots slots' \<Longrightarrow> slots_ok seed slots \<Longrightarrow> slots_ok seed slots'"
  by (auto simp: slots_ok_def slot_falls_def all_set_conv_all_nth slot_next_generation_def max_wrapping_next)

lemma slot_falls_moves:
  assumes "slot_falls slots slots'"
  shows "slot_moves seed slots slots'"
  unfolding slot_moves_def
proof
  fix i
  show "slot_gen seed slots' i = slot_gen seed slots i \<and> (slot_live slots i \<longrightarrow> slot_live slots' i)
    \<or> slot_gen seed slots' i = cyc_next (2 ^ 32) (slot_gen seed slots i)"
  proof (cases "i < length slots")
    case True
    then consider "slots' ! i = slots ! i"
      | "slots' ! i = \<lparr>sl_generation = slot_next_generation (sl_generation (slots ! i)), sl_value = None\<rparr>"
      using assms by (auto simp: slot_falls_def)
    then show ?thesis
    proof cases
      case 1
      then show ?thesis using True assms by (auto simp: slot_gen_def slot_live_def slot_at_None slot_falls_def)
    next
      case 2
      then show ?thesis using True assms unat_wrapping_next [of "sl_generation (slots ! i)"]
        by (simp add: slot_gen_def slot_falls_def slot_next_generation_def max_wrapping_next)
    qed
  next
    case False
    then show ?thesis using assms by (simp add: slot_gen_def slot_live_def slot_at_None slot_falls_def)
  qed
qed

text \<open>A registry after some endpoints and grants were taken down, grants of dead endpoints included.\<close>

definition teardown :: "ipc_registry \<Rightarrow> ipc_registry \<Rightarrow> bool" where
  "teardown r r' \<longleftrightarrow> slot_falls (ir_endpoints r) (ir_endpoints r') \<and> slot_falls (ir_capabilities r) (ir_capabilities r')
     \<and> ir_generation_seed r' = ir_generation_seed r \<and> ir_capability_generation r' = ir_capability_generation r
     \<and> ir_queue_budget_messages r' = ir_queue_budget_messages r
     \<and> ir_queue_committed_messages r' \<le> ir_queue_committed_messages r
     \<and> (\<forall>(c :: capability_handle) grant. slot_get (ir_capabilities r') c = Some grant \<longrightarrow>
          slot_get (ir_endpoints r) (cr_endpoint grant) \<noteq> None \<longrightarrow> slot_get (ir_endpoints r') (cr_endpoint grant) \<noteq> None)"

lemma teardown_refl [simp]: "teardown r r"
  by (simp add: teardown_def)

lemma teardown_trans: "teardown r s \<Longrightarrow> teardown s t \<Longrightarrow> teardown r t"
  unfolding teardown_def by (metis slot_falls_get slot_falls_trans order_trans)

lemma teardown_keeps: "teardown r r' \<Longrightarrow> ipc_keeps r r'"
  unfolding teardown_def ipc_keeps_def by (metis slot_falls_get option.inject)

lemma teardown_sound:
  assumes "teardown r r'" "ipc_inv r"
  shows "ipc_sound r r'"
proof -
  have falls: "slot_falls (ir_endpoints r) (ir_endpoints r')" "slot_falls (ir_capabilities r) (ir_capabilities r')"
    using assms(1) by (simp_all add: teardown_def)
  have live: "slot_get (ir_endpoints r') h = Some ep \<Longrightarrow> slot_get (ir_endpoints r) h = Some ep" for h :: endpoint_handle and ep
    using slot_falls_get [OF falls(1)] .
  have "grant_ok r' c grant" if c: "slot_get (ir_capabilities r') c = Some grant" for c :: capability_handle and grant
  proof -
    have "grant_ok r c grant" using ipc_invD(5) [OF assms(2) slot_falls_get [OF falls(2) c]] .
    then obtain ep where ep: "slot_get (ir_endpoints r) (cr_endpoint grant) = Some ep" by (auto simp: grant_ok_def)
    then obtain ep' where ep': "slot_get (ir_endpoints r') (cr_endpoint grant) = Some ep'"
      using assms(1) c by (auto simp: teardown_def)
    then have "ep' = ep" using live ep by fastforce
    then show ?thesis using \<open>grant_ok r c grant\<close> ep ep' by (simp add: grant_ok_def)
  qed
  moreover have "slots_ok (ir_generation_seed r') (ir_endpoints r')" "slots_ok (ir_capability_generation r') (ir_capabilities r')"
    using slot_falls_ok [OF falls(1) ipc_invD(1) [OF assms(2)]] slot_falls_ok [OF falls(2) ipc_invD(2) [OF assms(2)]] assms(1)
    by (simp_all add: teardown_def)
  moreover have "ir_queue_committed_messages r' \<le> ir_queue_budget_messages r'"
    using assms(1) ipc_invD(6) [OF assms(2)] by (simp add: teardown_def)
  moreover have "endpoint_ok h ep" if "slot_get (ir_endpoints r') h = Some ep" for h ep
    using ipc_invD(3) [OF assms(2) live [OF that]] .
  moreover have "ep_footprint ep \<inter> ep_footprint ep' = {}"
    if "slot_get (ir_endpoints r') h = Some ep" "slot_get (ir_endpoints r') h' = Some ep'" "h \<noteq> h'"
    for h h' :: endpoint_handle and ep ep'
    using ipc_invD(4) [OF assms(2) live [OF that(1)] live [OF that(2)] that(3)] .
  ultimately have "ipc_inv r'" unfolding ipc_inv_def by (intro conjI allI impI) simp_all
  then show ?thesis
    using assms(1) slot_falls_moves [OF falls(1)] slot_falls_moves [OF falls(2)] by (simp add: ipc_sound_def ipc_follows_def teardown_def)
qed

text \<open>What taking down an endpoint does, branch by branch.\<close>

lemma destroy_inner_outcome:
  assumes "ipc_inv r"
  obtains "slot_get (ir_endpoints r) h = None" "destroy_endpoint_inner reserve r events h = (Err IpcStale, r, events)"
  | ep events' where "slot_get (ir_endpoints r) h = Some ep" "\<not> reserve" "\<exists>fs. ep_queue ep = QueueFrames fs"
      "events' = snd (destroy_event (snd (destroy_event events (ep_consumer ep) (ep_read_event ep))) (ep_producer ep) (ep_write_event ep))"
      "destroy_endpoint_inner reserve r events h = (Err IpcDisconnected,
         r\<lparr>ir_queue_committed_messages := ir_queue_committed_messages r - ep_queue_capacity ep\<rparr>, events')"
  | ep events' where "slot_get (ir_endpoints r) h = Some ep" "reserve \<or> (\<exists>q. ep_queue ep = QueueHeap q)"
      "events' = snd (destroy_event (snd (destroy_event events (ep_consumer ep) (ep_read_event ep))) (ep_producer ep) (ep_write_event ep))"
      "destroy_endpoint_inner reserve r events h = (Ok (queue_frames (ep_queue ep)),
         r\<lparr>ir_queue_committed_messages := ir_queue_committed_messages r - ep_queue_capacity ep,
           ir_endpoints := slot_retire (ir_endpoints r) (unat (handle_index h)),
           ir_capabilities := slot_sweep (\<lambda>grant. cr_endpoint grant = h) (ir_capabilities r)\<rparr>, events')"
proof (cases "slot_get (ir_endpoints r) h")
  case None
  then have "slot_find (ir_endpoints r) h = None" by (simp add: slot_get_None)
  then show thesis using None that(1) by (simp add: destroy_endpoint_inner_def endpoint_slot_def)
next
  case (Some ep)
  then have find: "slot_find (ir_endpoints r) h = Some (unat (handle_index h))" by (rule slot_get_index)
  have entry: "sl_value (ir_endpoints r ! unat (handle_index h)) = Some ep" using Some by (simp add: slot_get_Some slot_at_Some)
  note destroy = destroy_endpoint_inner_def endpoint_slot_def find entry Let_def queue_frames_def
  show thesis
  proof (cases "ep_queue ep")
    case (QueueHeap q)
    then show thesis using that(3) [OF Some] by (simp add: destroy)
  next
    case (QueueFrames fs)
    then show thesis using that(2,3) [OF Some] by (cases reserve) (simp_all add: destroy)
  qed
qed

lemma destroy_inner_teardown:
  assumes "ipc_inv r" "destroy_endpoint_inner reserve r events h = (res, r', events')"
  shows "teardown r r'"
  using assms(1)
proof (cases rule: destroy_inner_outcome [where h = h and reserve = reserve and events = events])
  case (3 ep ev)
  have falls: "slot_falls (ir_endpoints r) (slot_retire (ir_endpoints r) (unat (handle_index h)))"
    using 3(1) by (intro slot_falls_retire) (simp add: slot_get_Some)
  have "slot_get (slot_retire (ir_endpoints r) (unat (handle_index h))) (cr_endpoint grant) \<noteq> None"
    if "slot_get (slot_sweep (\<lambda>grant. cr_endpoint grant = h) (ir_capabilities r)) c = Some grant"
      "slot_get (ir_endpoints r) (cr_endpoint grant) \<noteq> None" for grant and c :: capability_handle
  proof -
    have "cr_endpoint grant \<noteq> h" using that(1) by (auto simp: slot_get_sweep split: option.splits if_splits)
    then show ?thesis using that(2) by (simp add: slot_get_retire [OF 3(1)])
  qed
  then show ?thesis using 3(4) assms(2) falls slot_falls_sweep by (auto simp: teardown_def)
qed (use assms(2) in \<open>auto simp: teardown_def\<close>)

text \<open>A teardown moves the event table along its own steps.\<close>

lemma destroy_inner_events:
  assumes "ipc_inv r" "destroy_endpoint_inner reserve r events h = (res, r', events')"
  shows "event_move\<^sup>*\<^sup>* events events'"
proof -
  have "event_move\<^sup>*\<^sup>* events (snd (destroy_event (snd (destroy_event events a e)) b f))" for a e b f
    by (meson ev_destroys event_move_def rtranclp.rtrancl_into_rtrancl rtranclp.rtrancl_refl)
  then show ?thesis
    by (cases rule: destroy_inner_outcome [OF assms(1), where h = h and reserve = reserve and events = events])
      (use assms(2) in auto)
qed

lemma destroy_endpoints_teardown:
  assumes "ipc_inv r" "destroy_endpoints release reserve hs r events pool = (r', events', pool')"
  shows "teardown r r' \<and> event_move\<^sup>*\<^sup>* events events'"
  using assms
proof (induction hs arbitrary: r events pool)
  case (Cons h hs)
  obtain res r1 events1 where inner: "destroy_endpoint_inner (reserve h) r events h = (res, r1, events1)" by (cases rule: prod_cases3)
  have one: "teardown r r1" "event_move\<^sup>*\<^sup>* events events1"
    using destroy_inner_teardown [OF Cons.prems(1) inner] destroy_inner_events [OF Cons.prems(1) inner] .
  have inv: "ipc_inv r1" using teardown_sound [OF one(1) Cons.prems(1)] by (simp add: ipc_sound_def)
  obtain pool1 where "destroy_endpoints release reserve hs r1 events1 pool1 = (r', events', pool')"
    using Cons.prems(2) inner
    by (cases pool; cases res) (auto simp: destroy_endpoint_def destroy_endpoint_with_pool_def split: prod.splits)
  from Cons.IH [OF inv this] show ?case using one teardown_trans by (meson rtranclp_trans)
qed simp

text \<open>The pool takes part in none of the tables.\<close>

lemma destroy_endpoints_pool:
  "destroy_endpoints release reserve hs r events pool = (r', events', pool') \<Longrightarrow>
     \<exists>p. destroy_endpoints (\<lambda>p _. (True, p)) reserve hs r events (None :: unit option) = (r', events', p)"
proof (induction hs arbitrary: r events pool)
  case (Cons h hs)
  obtain res r1 events1 where inner: "destroy_endpoint_inner (reserve h) r events h = (res, r1, events1)" by (cases rule: prod_cases3)
  obtain pool1 where "destroy_endpoints release reserve hs r1 events1 pool1 = (r', events', pool')"
    using Cons.prems inner
    by (cases pool; cases res) (auto simp: destroy_endpoint_def destroy_endpoint_with_pool_def split: prod.splits)
  from Cons.IH [OF this] show ?case using inner by (cases res) (auto simp: destroy_endpoint_def)
qed auto

lemma drain_endpoints_teardown:
  assumes "ipc_inv r" "drain_endpoints reserve hs frames r events = (frames', r', events')"
  shows "teardown r r' \<and> event_move\<^sup>*\<^sup>* events events'"
  using assms
proof (induction hs arbitrary: frames r events)
  case (Cons h hs)
  obtain res r1 events1 where inner: "destroy_endpoint_inner (reserve h) r events h = (res, r1, events1)" by (cases rule: prod_cases3)
  have one: "teardown r r1" "event_move\<^sup>*\<^sup>* events events1"
    using destroy_inner_teardown [OF Cons.prems(1) inner] destroy_inner_events [OF Cons.prems(1) inner] .
  have inv: "ipc_inv r1" using teardown_sound [OF one(1) Cons.prems(1)] by (simp add: ipc_sound_def)
  obtain fs where "drain_endpoints reserve hs fs r1 events1 = (frames', r', events')"
    using Cons.prems(2) inner by (cases res) auto
  from Cons.IH [OF inv this] show ?case using one teardown_trans by (meson rtranclp_trans)
qed simp

lemma teardown_sweep: "teardown r (r\<lparr>ir_capabilities := slot_sweep P (ir_capabilities r)\<rparr>)"
  using slot_falls_sweep by (simp add: teardown_def)

end
