(* ===== verification/IPC_Properties.thy ===== *)
theory IPC_Properties
  imports IPC_Runs
begin

text \<open>
  The IPC tables, the event table and the memory as one system, and its properties: messages arrive
  in order, exactly once and unchanged; a send needs the capability of the producer; a destroyed
  endpoint stays dead; and what a failed teardown leaves behind.
\<close>

section \<open>Steps\<close>

record ipc_state =
  is_ipc :: ipc_registry
  is_events :: event_registry
  is_memory :: memory

datatype ipc_event = Sent endpoint_handle "u8 list" | Received endpoint_handle "u8 list" | IpcOther

definition send_label :: "ipc_registry \<Rightarrow> capability_handle \<Rightarrow> ipc_status \<Rightarrow> u8 list \<Rightarrow> ipc_event" where
  "send_label r c status bytes = (case slot_get (ir_capabilities r) c of
     Some grant \<Rightarrow> if status = IpcOk then Sent (cr_endpoint grant) bytes else IpcOther | None \<Rightarrow> IpcOther)"

definition receive_label :: "ipc_registry \<Rightarrow> capability_handle \<Rightarrow> ipc_status \<Rightarrow> u8 list \<Rightarrow> ipc_event" where
  "receive_label r c status bytes = (case slot_get (ir_capabilities r) c of
     Some grant \<Rightarrow> if status = IpcOk then Received (cr_endpoint grant) bytes else IpcOther | None \<Rightarrow> IpcOther)"

text \<open>
  The frames of a new ring are apart from each other and from the rings in use, which the frame
  pool guarantees for the frames it hands out. Services run event operations at any time, and the
  memory outside the rings changes at will. A teardown with a frame pool is the same step, since the
  pool is not part of the state.
\<close>

inductive ipc_step :: "ipc_state \<Rightarrow> ipc_event \<Rightarrow> ipc_state \<Rightarrow> bool" where
  ic_creates: "\<lbrakk>create_endpoint reserve reserve_read reserve_write (is_ipc s) (is_events s) a = (res, r, events);
      length (ir_endpoints (is_ipc s)) < 2 ^ 32; Suc (length (er_events (is_events s))) < 2 ^ 32\<rbrakk>
    \<Longrightarrow> ipc_step s IpcOther (s\<lparr>is_ipc := r, is_events := events\<rparr>)"
| ic_creates_frames: "\<lbrakk>create_endpoint_with_frames reserve reserve_read reserve_write (is_ipc s) (is_events s) a frames = (res, r, events);
      length (ir_endpoints (is_ipc s)) < 2 ^ 32; Suc (length (er_events (is_events s))) < 2 ^ 32;
      frames_apart frames; fresh_queue (is_ipc s) (QueueFrames frames)\<rbrakk>
    \<Longrightarrow> ipc_step s IpcOther (s\<lparr>is_ipc := r, is_events := events\<rparr>)"
| ic_grants: "\<lbrakk>ipc_grant reserve (is_ipc s) owner h rights = (res, r); length (ir_capabilities (is_ipc s)) < 2 ^ 32\<rbrakk>
    \<Longrightarrow> ipc_step s IpcOther (s\<lparr>is_ipc := r\<rparr>)"
| ic_sends: "ipc_send (is_ipc s) (is_events s) (is_memory s) caller c bytes = Some (status, r, events, mem)
    \<Longrightarrow> ipc_step s (send_label (is_ipc s) c status bytes) \<lparr>is_ipc = r, is_events = events, is_memory = mem\<rparr>"
| ic_receives: "ipc_receive (is_ipc s) (is_events s) (is_memory s) caller c buffer = Some (status, bytes, r, events)
    \<Longrightarrow> ipc_step s (receive_label (is_ipc s) c status bytes) (s\<lparr>is_ipc := r, is_events := events\<rparr>)"
| ic_destroys: "destroy_endpoint_inner reserve1 (is_ipc s) (is_events s) h = (res1, r, events)
    \<Longrightarrow> ipc_step s IpcOther (s\<lparr>is_ipc := r, is_events := events\<rparr>)"
| ic_destroys_service: "ipc_destroy_service reserve2 (is_ipc s) (is_events s) service = (r, events)
    \<Longrightarrow> ipc_step s IpcOther (s\<lparr>is_ipc := r, is_events := events\<rparr>)"
| ic_drains: "drain_queue_frames reserve2 (is_ipc s) (is_events s) = (frames, r, events)
    \<Longrightarrow> ipc_step s IpcOther (s\<lparr>is_ipc := r, is_events := events\<rparr>)"
| ic_events: "event_move (is_events s) events \<Longrightarrow> ipc_step s IpcOther (s\<lparr>is_events := events\<rparr>)"
| ic_memory: "\<forall>(h :: endpoint_handle) ep. slot_get (ir_endpoints (is_ipc s)) h = Some ep \<longrightarrow> (\<forall>a \<in> ep_footprint ep. mem a = is_memory s a)
    \<Longrightarrow> ipc_step s IpcOther (s\<lparr>is_memory := mem\<rparr>)"

definition ipc_start :: "u32 \<Rightarrow> nat \<Rightarrow> u32 \<Rightarrow> (hardware_source \<Rightarrow> hardware_line) \<Rightarrow> memory \<Rightarrow> ipc_state" where
  "ipc_start generation budget event_generation hardware mem =
     \<lparr>is_ipc = ipc_registry_new_with_generation_and_budget generation budget,
      is_events = event_registry_new_with_generation event_generation hardware, is_memory = mem\<rparr>"

definition ipc_move :: "ipc_state \<Rightarrow> ipc_state \<Rightarrow> bool" where
  "ipc_move s t \<longleftrightarrow> (\<exists>l. ipc_step s l t)"

section \<open>The tables along a step\<close>

lemma destroy_service_teardown:
  assumes "ipc_inv r" "ipc_destroy_service reserve r events service = (r', events')"
  shows "teardown r r'"
proof -
  obtain r1 events1 p where ends: "destroy_endpoints (\<lambda>pool _. (True, pool)) reserve (service_endpoints r service) r events (None :: unit option)
      = (r1, events1, p)" by (cases rule: prod_cases3)
  then have "teardown r r1" using destroy_endpoints_teardown [OF assms(1)] by blast
  moreover have "r' = r1\<lparr>ir_capabilities := slot_sweep (\<lambda>grant. cr_owner grant = service) (ir_capabilities r1)\<rparr>"
    using assms(2) ends by (auto simp: ipc_destroy_service_def destroy_service_inner_def)
  ultimately show ?thesis using teardown_trans teardown_sweep by metis
qed

definition sent_on :: "endpoint_handle \<Rightarrow> ipc_event \<Rightarrow> u8 list list" where
  "sent_on h l = (case l of Sent h' m \<Rightarrow> if h' = h then [m] else [] | _ \<Rightarrow> [])"

definition received_on :: "endpoint_handle \<Rightarrow> ipc_event \<Rightarrow> u8 list list" where
  "received_on h l = (case l of Received h' m \<Rightarrow> if h' = h then [m] else [] | _ \<Rightarrow> [])"

definition step_good :: "ipc_state \<Rightarrow> ipc_event \<Rightarrow> ipc_state \<Rightarrow> bool" where
  "step_good s l t \<longleftrightarrow> ipc_sound (is_ipc s) (is_ipc t)
     \<and> (\<forall>h ep ep'. slot_get (ir_endpoints (is_ipc s)) h = Some ep \<longrightarrow> slot_get (ir_endpoints (is_ipc t)) h = Some ep' \<longrightarrow>
          queue_contents (is_memory s) ep @ sent_on h l = received_on h l @ queue_contents (is_memory t) ep')"

lemma step_good_keeps:
  assumes "ipc_sound (is_ipc s) (is_ipc t)" "ipc_keeps (is_ipc s) (is_ipc t)" "is_memory t = is_memory s"
  shows "step_good s IpcOther t"
  using assms by (auto simp: step_good_def ipc_keeps_def sent_on_def received_on_def)

lemma step_good_teardown: "teardown (is_ipc s) r \<Longrightarrow> ipc_inv (is_ipc s) \<Longrightarrow> step_good s IpcOther (s\<lparr>is_ipc := r, is_events := events\<rparr>)"
  by (rule step_good_keeps) (simp_all add: teardown_sound teardown_keeps)

lemma step_good_send:
  assumes "ipc_send (is_ipc s) (is_events s) (is_memory s) caller c bytes = Some (status, r, events, mem)" "ipc_inv (is_ipc s)"
  shows "step_good s (send_label (is_ipc s) c status bytes) \<lparr>is_ipc = r, is_events = events, is_memory = mem\<rparr>"
  using assms(2,1)
proof (cases rule: ipc_send_outcome)
  case (1 status')
  then show ?thesis using assms(2)
    by (auto simp: step_good_def send_label_def sent_on_def received_on_def split: option.splits)
next
  case (2 grant ep ep' mem')
  then have out: "status = IpcOk" "r = put_endpoint (is_ipc s) (cr_endpoint grant) ep'" "mem = mem'" by simp_all
  have label: "send_label (is_ipc s) c status bytes = Sent (cr_endpoint grant) bytes" using 2(1) out(1) by (simp add: send_label_def)
  have "queue_contents (is_memory s) x @ sent_on h (Sent (cr_endpoint grant) bytes)
      = received_on h (Sent (cr_endpoint grant) bytes) @ queue_contents mem x'"
    if x: "slot_get (ir_endpoints (is_ipc s)) h = Some x" and x': "slot_get (ir_endpoints r) h = Some x'" for h x x'
  proof (cases "h = cr_endpoint grant")
    case True
    then have "x = ep" "x' = ep'" using x x' 2(4) by (simp_all add: out(2) put_endpoint_def slot_get_put [OF 2(4)])
    then show ?thesis using True 2(9) out(3) by (simp add: sent_on_def received_on_def)
  next
    case False
    then have "x' = x" using x x' by (simp add: out(2) put_endpoint_def slot_get_put [OF 2(4)])
    have "mem a = is_memory s a" if "a \<in> ep_footprint x" for a
      using ipc_invD(4) [OF assms(2) x 2(4) False] that 2(10) out(3) by blast
    then have "queue_contents mem x = queue_contents (is_memory s) x"
      by (rule queue_contents_cong [OF ipc_invD(3) [OF assms(2) x]])
    then show ?thesis using False \<open>x' = x\<close> by (auto simp: sent_on_def received_on_def)
  qed
  then show ?thesis using 2(11) out(2) by (simp add: step_good_def label)
qed

lemma step_good_receive:
  assumes "ipc_receive (is_ipc s) (is_events s) (is_memory s) caller c buffer = Some (status, bytes, r, events)" "ipc_inv (is_ipc s)"
  shows "step_good s (receive_label (is_ipc s) c status bytes) (s\<lparr>is_ipc := r, is_events := events\<rparr>)"
  using assms(2,1)
proof (cases rule: ipc_receive_outcome)
  case (1 status')
  then show ?thesis using assms(2)
    by (auto simp: step_good_def receive_label_def sent_on_def received_on_def split: option.splits)
next
  case (2 grant ep ep' m)
  then have out: "status = IpcOk" "r = put_endpoint (is_ipc s) (cr_endpoint grant) ep'" "bytes = m" by simp_all
  have label: "receive_label (is_ipc s) c status bytes = Received (cr_endpoint grant) m" using 2(1) out by (simp add: receive_label_def)
  have "queue_contents (is_memory s) x @ sent_on h (Received (cr_endpoint grant) m)
      = received_on h (Received (cr_endpoint grant) m) @ queue_contents (is_memory s) x'"
    if x: "slot_get (ir_endpoints (is_ipc s)) h = Some x" and x': "slot_get (ir_endpoints r) h = Some x'" for h x x'
    using x x' 2(4,9) by (auto simp: out(2) put_endpoint_def slot_get_put [OF 2(4)] sent_on_def received_on_def split: if_splits)
  then show ?thesis using 2(10) out(2) by (simp add: step_good_def label)
qed

lemma ipc_step_good:
  assumes "ipc_step s l t" "ipc_inv (is_ipc s)"
  shows "step_good s l t"
  using assms(1)
proof (cases rule: ipc_step.cases)
  case (ic_creates reserve reserve_read reserve_write a res r events)
  then show ?thesis using create_endpoint_sound [OF assms(2) ic_creates(4,3)] by (auto intro!: step_good_keeps)
next
  case (ic_creates_frames reserve reserve_read reserve_write a frames res r events)
  then show ?thesis using create_with_frames_sound [OF assms(2) ic_creates_frames(4,6,7,3)] by (auto intro!: step_good_keeps)
next
  case (ic_grants reserve owner h rights res r)
  then show ?thesis using ipc_grant_sound [OF assms(2) ic_grants(4,3)] by (auto intro!: step_good_keeps simp: ipc_keeps_def)
next
  case (ic_sends caller c bytes status r events mem)
  then show ?thesis using step_good_send assms(2) by simp
next
  case (ic_receives caller c buffer status bytes r events)
  then show ?thesis using step_good_receive assms(2) by simp
next
  case (ic_destroys reserve1 h res1 r events)
  then show ?thesis using step_good_teardown destroy_inner_teardown assms(2) by metis
next
  case (ic_destroys_service reserve2 service r events)
  then show ?thesis using step_good_teardown destroy_service_teardown assms(2) by metis
next
  case (ic_drains reserve2 frames r events)
  then show ?thesis using step_good_teardown drain_endpoints_teardown assms(2) unfolding drain_queue_frames_def by metis
next
  case (ic_events events)
  then show ?thesis using assms(2) by (auto intro!: step_good_keeps)
next
  case (ic_memory mem)
  have "queue_contents mem ep = queue_contents (is_memory s) ep" if "slot_get (ir_endpoints (is_ipc s)) h = Some ep"
    for ep and h :: endpoint_handle
    using ic_memory(3) that by (intro queue_contents_cong [OF ipc_invD(3) [OF assms(2) that]]) blast
  then show ?thesis using ic_memory(1,2) assms(2) by (auto simp: step_good_def sent_on_def received_on_def)
qed

lemma ipc_inv_move: "ipc_move s t \<Longrightarrow> ipc_inv (is_ipc s) \<Longrightarrow> ipc_sound (is_ipc s) (is_ipc t)"
  unfolding ipc_move_def using ipc_step_good by (auto simp: step_good_def)

lemma ipc_inv_reachable: "ipc_move\<^sup>*\<^sup>* (ipc_start g budget eg hardware mem) s \<Longrightarrow> ipc_inv (is_ipc s)"
  by (induction rule: rtranclp_induct) (auto simp: ipc_start_def ipc_inv_new ipc_sound_def dest: ipc_inv_move)

interpretation endpoint_slots: slot_system ipc_move "\<lambda>s. ipc_inv (is_ipc s)" "\<lambda>s. ir_generation_seed (is_ipc s)" "\<lambda>s. ir_endpoints (is_ipc s)"
  by unfold_locales (auto dest: ipc_inv_move ipc_invD(1) simp: ipc_sound_def ipc_follows_def)

interpretation capability_slots: slot_system ipc_move "\<lambda>s. ipc_inv (is_ipc s)" "\<lambda>s. ir_capability_generation (is_ipc s)"
    "\<lambda>s. ir_capabilities (is_ipc s)"
  by unfold_locales (auto dest: ipc_inv_move ipc_invD(2) simp: ipc_sound_def ipc_follows_def)

section \<open>The event table along a step\<close>

lemma event_moves_into: "event_move\<^sup>*\<^sup>* r s \<Longrightarrow> event_step s l t \<Longrightarrow> event_move\<^sup>*\<^sup>* r t"
  by (metis event_move_def rtranclp.rtrancl_into_rtrancl)

lemma create_event_length: "length (er_events (snd (create_event reserve r owner))) \<le> Suc (length (er_events r))"
  by (auto simp: create_event_def create_event_with_flags_def allocate_event_slot_def slot_allocate_def
      simp del: position_None split: option.splits)

lemma create_queue_events:
  assumes "create_endpoint_with_queue reserve reserve_read reserve_write r events a queue = (res, r', events')"
    "Suc (length (er_events events)) < 2 ^ 32"
  shows "event_move\<^sup>*\<^sup>* events events'"
proof -
  obtain read events1 where read: "create_event reserve_read events (ea_consumer a) = (read, events1)" by fastforce
  obtain wr events2 where wr: "create_event reserve_write events1 (ea_producer a) = (wr, events2)" by fastforce
  have one: "event_move\<^sup>*\<^sup>* events events1"
    using event_moves_into [OF rtranclp.rtrancl_refl ev_creates [of events reserve_read "ea_consumer a" 0]] read assms(2)
    by (simp add: create_event_def)
  have "length (er_events events1) < 2 ^ 32"
    using create_event_length [of reserve_read events "ea_consumer a"] read assms(2) by simp
  then have two: "event_move\<^sup>*\<^sup>* events events2"
    using event_moves_into [OF one ev_creates [of events1 reserve_write "ea_producer a" 0]] wr by (simp add: create_event_def)
  have "events' \<in> {events, events1, events2} \<union> {snd (destroy_event events2 (ea_consumer a) e) | e. True}"
    using assms(1) read wr
    by (auto simp: create_endpoint_with_queue_def split: if_splits prod.splits sum.splits option.splits)
  then show ?thesis using one two event_moves_into [OF two ev_destroys] by auto
qed

lemma destroy_service_events: "event_move\<^sup>*\<^sup>* r (events_destroy_service r owner)"
proof -
  have "event_move\<^sup>*\<^sup>* r (destroy_events owner es r)" for es r
  proof (induction es arbitrary: r)
    case (Cons e es)
    have "event_step r None (wake_waiters r e)" unfolding wake_waiters_eq by (rule ev_wakes)
    then have "event_move\<^sup>*\<^sup>* r (snd (destroy_event (wake_waiters r e) owner e))"
      using event_moves_into [OF event_moves_into [OF rtranclp.rtrancl_refl] ev_destroys] by blast
    then show ?case using Cons.IH by (simp add: destroy_events_def) (meson rtranclp_trans)
  qed (simp add: destroy_events_def)
  moreover have "event_move\<^sup>*\<^sup>* r (destroy_sets owner es r)" for es r
  proof (induction es arbitrary: r)
    case (Cons s es)
    have woken: "event_move\<^sup>*\<^sup>* r (case get_set r s of Inl _ \<Rightarrow> r | Inr rec \<Rightarrow> if es_waiting rec then wake_event_set r s else r)"
      using event_moves_into [OF rtranclp.rtrancl_refl ev_wakes, of r] by (auto simp: wake_event_set_def split: sum.splits)
    show ?case using event_moves_into [OF woken ev_destroys_set] Cons.IH by (simp add: destroy_sets_def) (meson rtranclp_trans)
  qed (simp add: destroy_sets_def)
  ultimately show ?thesis unfolding events_destroy_service_def Let_def by (meson rtranclp_trans)
qed

lemma ipc_step_events:
  assumes "ipc_step s l t" "ipc_inv (is_ipc s)"
  shows "event_move\<^sup>*\<^sup>* (is_events s) (is_events t)"
  using assms(1)
proof (cases rule: ipc_step.cases)
  case (ic_creates reserve reserve_read reserve_write a res r events)
  then show ?thesis using create_queue_events by (auto simp: create_endpoint_def split: if_splits)
next
  case (ic_creates_frames reserve reserve_read reserve_write a frames res r events)
  then show ?thesis using create_queue_events by (auto simp: create_endpoint_with_frames_def split: if_splits)
next
  case (ic_sends caller c bytes status r events mem)
  from assms(2) ic_sends(3) show ?thesis
  proof (cases rule: ipc_send_outcome)
    case (2 grant ep ep' mem')
    then show ?thesis using ic_sends(2) event_moves_into [OF rtranclp.rtrancl_refl ev_interrupts] by auto
  qed (use ic_sends(2) in auto)
next
  case (ic_receives caller c buffer status bytes r events)
  from assms(2) ic_receives(3) show ?thesis
  proof (cases rule: ipc_receive_outcome)
    case (2 grant ep ep' m)
    then show ?thesis using ic_receives(2) event_moves_into [OF rtranclp.rtrancl_refl ev_interrupts] by auto
  qed (use ic_receives(2) in auto)
next
  case (ic_destroys reserve1 h res1 r events)
  then show ?thesis using destroy_inner_events assms(2) by auto
next
  case (ic_destroys_service reserve2 service r events)
  obtain r1 events1 p where ends: "destroy_endpoints (\<lambda>pool _. (True, pool)) reserve2 (service_endpoints (is_ipc s) service) (is_ipc s) (is_events s) (None :: unit option)
      = (r1, events1, p)" by (cases rule: prod_cases3)
  then have "event_move\<^sup>*\<^sup>* (is_events s) events1" using destroy_endpoints_teardown [OF assms(2)] by blast
  moreover have "events = events_destroy_service events1 service"
    using ic_destroys_service(3) ends by (auto simp: ipc_destroy_service_def destroy_service_inner_def)
  ultimately show ?thesis using ic_destroys_service(2) destroy_service_events by (auto intro: rtranclp_trans)
next
  case (ic_drains reserve2 frames r events)
  then show ?thesis using drain_endpoints_teardown assms(2) unfolding drain_queue_frames_def by auto
qed auto

lemma ipc_events_reachable: "ipc_move\<^sup>*\<^sup>* (ipc_start g budget eg hardware mem) s \<Longrightarrow> event_inv (is_events s)"
proof (induction rule: rtranclp_induct)
  case base
  show ?case by (simp add: ipc_start_def event_inv_new)
next
  case (step s t)
  then show ?case
    using ipc_step_events [OF _ ipc_inv_reachable [OF step(1)]] event_inv_closed by (auto simp: ipc_move_def)
qed

lemma destroy_event_dead:
  fixes e :: event_handle
  assumes "event_inv r" "slot_get (er_events r) e = None"
  shows "slot_get (er_events (snd (destroy_event r owner f))) e = None"
proof (cases "\<exists>ev. slot_get (er_events r) f = Some ev \<and> ev_owner ev = owner")
  case True
  then obtain ev where ev: "slot_get (er_events r) f = Some ev" "ev_owner ev = owner" by blast
  obtain r' where "destroy_event r owner f = (Ok (), r')" "er_events r' = slot_retire (er_events r) (unat (handle_index f))"
    using destroy_event_live [OF assms(1) ev] .
  then show ?thesis using assms(2) by (simp add: slot_get_retire [OF ev(1)])
next
  case False
  then show ?thesis using destroy_event_refused [of r f owner] assms(2) by auto
qed

section \<open>Runs of one endpoint\<close>

text \<open>The messages sent to and received from an endpoint along a run in which it stays alive.\<close>

inductive ipc_run :: "endpoint_handle \<Rightarrow> ipc_state \<Rightarrow> u8 list list \<Rightarrow> u8 list list \<Rightarrow> ipc_state \<Rightarrow> bool" for h where
  run_refl: "ipc_run h s [] [] s"
| run_step: "\<lbrakk>ipc_run h s sent received t; ipc_step t l u; slot_get (ir_endpoints (is_ipc u)) h \<noteq> None\<rbrakk>
    \<Longrightarrow> ipc_run h s (sent @ sent_on h l) (received @ received_on h l) u"

lemma ipc_run_fifo:
  assumes "ipc_run h s sent received t" "ipc_inv (is_ipc s)" "slot_get (ir_endpoints (is_ipc s)) h = Some ep"
  shows "ipc_inv (is_ipc t) \<and> (\<exists>ep'. slot_get (ir_endpoints (is_ipc t)) h = Some ep'
    \<and> queue_contents (is_memory s) ep @ sent = received @ queue_contents (is_memory t) ep')"
  using assms
proof (induction rule: ipc_run.induct)
  case (run_step s sent received t l u)
  then obtain ep1 where t: "ipc_inv (is_ipc t)" "slot_get (ir_endpoints (is_ipc t)) h = Some ep1"
    "queue_contents (is_memory s) ep @ sent = received @ queue_contents (is_memory t) ep1" by blast
  obtain ep2 where u: "slot_get (ir_endpoints (is_ipc u)) h = Some ep2" using run_step.hyps(3) by blast
  have good: "step_good t l u" using run_step.hyps(2) t(1) by (rule ipc_step_good)
  then have "queue_contents (is_memory t) ep1 @ sent_on h l = received_on h l @ queue_contents (is_memory u) ep2"
    using t(2) u by (simp add: step_good_def)
  moreover have "ipc_inv (is_ipc u)" using good by (simp add: step_good_def ipc_sound_def)
  ultimately show ?case using t(3) u by (metis append.assoc)
qed simp

section \<open>Properties\<close>

text \<open>One endpoint with a ring of one frame, and a grant for its producer.\<close>

abbreviation ipc_demo_consumer :: service_handle where "ipc_demo_consumer \<equiv> Handle 0x100000005"
abbreviation ipc_demo_grant_handle :: capability_handle where "ipc_demo_grant_handle \<equiv> Handle 0x200000000"

definition ipc_demo_frame :: frame_address where
  "ipc_demo_frame = \<lparr>fa_raw = 8192, fa_id = None, fa_generation = 0\<rparr>"

definition ipc_demo_args :: endpoint_args where
  "ipc_demo_args = \<lparr>ea_producer = event_demo_owner, ea_consumer = ipc_demo_consumer, ea_contract_id = 1,
     ea_message_bytes = 1, ea_queue_capacity = 1, ea_service_epoch = 1\<rparr>"

definition ipc_demo_endpoint :: "nat \<Rightarrow> endpoint_record" where
  "ipc_demo_endpoint n = \<lparr>ep_handle = event_demo_first, ep_producer = event_demo_owner, ep_consumer = ipc_demo_consumer,
     ep_contract_id = 1, ep_message_bytes = 1, ep_queue_capacity = 1, ep_service_epoch = 1,
     ep_read_event = event_demo_first, ep_write_event = event_demo_second, ep_queue = QueueFrames [ipc_demo_frame],
     ep_queue_head = 0, ep_queue_tail = 0, ep_queue_len = n\<rparr>"

definition ipc_demo_event :: "service_handle \<Rightarrow> event_record" where
  "ipc_demo_event owner = \<lparr>ev_owner = owner, ev_directory_flags = 0, ev_signaled = False\<rparr>"

definition ipc_demo_grant :: capability_record where
  "ipc_demo_grant = \<lparr>cr_handle = ipc_demo_grant_handle, cr_owner = event_demo_owner, cr_endpoint = event_demo_first,
     cr_rights = IrSend, cr_service_epoch = 1\<rparr>"

definition ipc_demo_state :: "capability_record slot list \<Rightarrow> ipc_state" where
  "ipc_demo_state grants = \<lparr>is_ipc = \<lparr>ir_endpoints = [event_demo_slot (ipc_demo_endpoint 0)], ir_capabilities = grants,
       ir_generation_seed = 1, ir_capability_generation = 2, ir_queue_budget_messages = 4, ir_queue_committed_messages = 1\<rparr>,
     is_events = \<lparr>er_events = [event_demo_slot (ipc_demo_event ipc_demo_consumer), event_demo_slot (ipc_demo_event event_demo_owner)],
       er_sets = [], er_generation_seed = 1, er_hardware = (\<lambda>_. hardware_idle), er_woken = []\<rparr>,
     is_memory = (\<lambda>_. 0)\<rparr>"

abbreviation ipc_demo :: ipc_state where
  "ipc_demo \<equiv> ipc_demo_state [\<lparr>sl_generation = 2, sl_value = Some ipc_demo_grant\<rparr>]"

abbreviation ipc_demo_start :: ipc_state where
  "ipc_demo_start \<equiv> ipc_start 1 4 1 (\<lambda>_. hardware_idle) (\<lambda>_. 0)"

lemma ipc_demo_fields [simp]:
  "handle_is_valid ipc_demo_consumer" "handle_index ipc_demo_grant_handle = 0" "handle_generation ipc_demo_grant_handle = 2"
  "handle_new 0 2 = Some ipc_demo_grant_handle"
  by (simp_all add: handle_is_valid_def handle_generation_def handle_index_def handle_new_def take_bit_eq_mod drop_bit_eq_div)

lemma ipc_demo_create:
  "create_endpoint_with_frames (\<lambda>_. True) (\<lambda>_. True) (\<lambda>_. True) (is_ipc ipc_demo_start) (is_events ipc_demo_start) ipc_demo_args [ipc_demo_frame]
    = (Ok event_demo_first, is_ipc (ipc_demo_state []), is_events (ipc_demo_state []))"
  by (simp add: create_endpoint_with_frames_def create_endpoint_with_queue_def endpoint_args_malformed_def over_budget_def
      allocate_endpoint_slot_def slot_allocate_def slot_handle_of_def ipc_demo_args_def ipc_start_def
      ipc_registry_new_with_generation_and_budget_def event_registry_new_with_generation_def fresh_slot_def slot_next_generation_def
      create_event_def create_event_with_flags_def allocate_event_slot_def slot_put_def Let_def)
    (simp add: ipc_demo_state_def ipc_demo_endpoint_def ipc_demo_event_def event_demo_slot_def)

lemma ipc_demo_granted:
  "ipc_grant (\<lambda>_. True) (is_ipc (ipc_demo_state [])) event_demo_owner event_demo_first IrSend = (Ok ipc_demo_grant_handle, is_ipc ipc_demo)"
  by (simp add: ipc_grant_def get_endpoint_eq allocate_capability_record_def slot_allocate_def slot_handle_of_def
      ipc_demo_state_def fresh_slot_def slot_put_def) (simp add: ipc_demo_endpoint_def ipc_demo_grant_def)

lemma ipc_demo_reachable: "ipc_move\<^sup>*\<^sup>* ipc_demo_start ipc_demo"
proof -
  have "frames_apart [ipc_demo_frame]" "fresh_queue (is_ipc ipc_demo_start) (QueueFrames [ipc_demo_frame])"
    by (simp_all add: frames_apart_def fresh_queue_def ipc_start_def ipc_registry_new_with_generation_and_budget_def
        slot_get_eq slot_at_def slice_get_def Let_def)
  then have "ipc_step ipc_demo_start IpcOther
      (ipc_demo_start\<lparr>is_ipc := is_ipc (ipc_demo_state []), is_events := is_events (ipc_demo_state [])\<rparr>)"
    by (intro ic_creates_frames [OF ipc_demo_create])
      (simp_all add: ipc_start_def ipc_registry_new_with_generation_and_budget_def event_registry_new_with_generation_def Let_def)
  moreover have "ipc_demo_start\<lparr>is_ipc := is_ipc (ipc_demo_state []), is_events := is_events (ipc_demo_state [])\<rparr> = ipc_demo_state []"
    by (simp add: ipc_start_def ipc_demo_state_def)
  moreover have "ipc_step (ipc_demo_state []) IpcOther ((ipc_demo_state [])\<lparr>is_ipc := is_ipc ipc_demo\<rparr>)"
    by (rule ic_grants [OF ipc_demo_granted]) (simp add: ipc_demo_state_def)
  moreover have "(ipc_demo_state [])\<lparr>is_ipc := is_ipc ipc_demo\<rparr> = ipc_demo" by (simp add: ipc_demo_state_def)
  ultimately show ?thesis unfolding ipc_move_def by (metis (mono_tags, lifting) converse_rtranclp_into_rtranclp rtranclp.rtrancl_refl)
qed

lemma ipc_demo_lookup [simp]:
  "slot_get (ir_endpoints (is_ipc ipc_demo)) event_demo_first = Some (ipc_demo_endpoint 0)"
  "slot_get (ir_capabilities (is_ipc ipc_demo)) ipc_demo_grant_handle = Some ipc_demo_grant"
  "slot_get (er_events (is_events ipc_demo)) event_demo_first = Some (ipc_demo_event ipc_demo_consumer)"
  by (simp_all add: ipc_demo_state_def) (simp add: slot_get_eq slot_at_def slice_get_def)

lemma ipc_demo_fields2 [simp]:
  "cr_owner ipc_demo_grant = event_demo_owner" "cr_rights ipc_demo_grant = IrSend" "cr_endpoint ipc_demo_grant = event_demo_first"
  "ep_message_bytes (ipc_demo_endpoint n) = 1" "ep_queue_capacity (ipc_demo_endpoint n) = 1" "ep_queue_len (ipc_demo_endpoint n) = n"
  "ep_queue (ipc_demo_endpoint n) = QueueFrames [ipc_demo_frame]" "ep_consumer (ipc_demo_endpoint n) = ipc_demo_consumer"
  "ep_read_event (ipc_demo_endpoint n) = event_demo_first" "cr_service_epoch ipc_demo_grant = ep_service_epoch (ipc_demo_endpoint n)"
  "ep_queue_tail (ipc_demo_endpoint n) = 0"
  by (simp_all add: ipc_demo_grant_def ipc_demo_endpoint_def)

lemma ipc_demo_send:
  "ipc_send (is_ipc ipc_demo) (is_events ipc_demo) mem event_demo_owner ipc_demo_grant_handle [7]
    = Some (IpcOk, put_endpoint (is_ipc ipc_demo) event_demo_first ((ipc_demo_endpoint 0)\<lparr>ep_queue_len := 1\<rparr>),
        snd (signal_irq (is_events ipc_demo) event_demo_first), memory_write mem 8192 [7])"
  by (simp add: ipc_send_def get_capability_def get_endpoint_eq queue_write_def)
    (simp add: ipc_demo_endpoint_def ipc_demo_frame_def)

text \<open>
  C5: Message queues are first in, first out, without loss, duplication or corruption. Along every
  run of the kernel in which an endpoint stays alive, whatever other endpoints, grants, teardowns
  and event operations happen in between, the messages that were in its ring followed by those
  sent to it are exactly those received from it followed by those still in the ring, and the ring
  never holds more messages than its capacity.
\<close>

theorem queue_fifo:
  assumes "ipc_move\<^sup>*\<^sup>* (ipc_start g budget eg hardware mem) s" "slot_get (ir_endpoints (is_ipc s)) h = Some ep"
    "ipc_run h s sent received t"
  shows "\<exists>ep'. slot_get (ir_endpoints (is_ipc t)) h = Some ep' \<and> ep_queue_len ep' \<le> ep_queue_capacity ep'
    \<and> queue_contents (is_memory s) ep @ sent = received @ queue_contents (is_memory t) ep'"
proof -
  obtain ep' where ep': "ipc_inv (is_ipc t)" "slot_get (ir_endpoints (is_ipc t)) h = Some ep'"
    "queue_contents (is_memory s) ep @ sent = received @ queue_contents (is_memory t) ep'"
    using ipc_run_fifo [OF assms(3) ipc_inv_reachable [OF assms(1)] assms(2)] by blast
  then show ?thesis using ipc_invD(3) [OF ep'(1,2)] by (auto simp: endpoint_ok_def)
qed

theorem queue_fifo_witness:
  "\<exists>t ep'. ipc_step ipc_demo (Sent event_demo_first [7]) t \<and> slot_get (ir_endpoints (is_ipc t)) (event_demo_first :: endpoint_handle) = Some ep'
     \<and> [[7]] = queue_contents (is_memory t) ep'"
proof -
  define t where "t = \<lparr>is_ipc = put_endpoint (is_ipc ipc_demo) event_demo_first ((ipc_demo_endpoint 0)\<lparr>ep_queue_len := 1\<rparr>),
    is_events = snd (signal_irq (is_events ipc_demo) event_demo_first), is_memory = memory_write (is_memory ipc_demo) 8192 [7]\<rparr>"
  have step: "ipc_step ipc_demo (Sent event_demo_first [7]) t"
    using ic_sends [OF ipc_demo_send] by (simp add: send_label_def t_def)
  have "slot_get (ir_endpoints (is_ipc t)) (event_demo_first :: endpoint_handle) \<noteq> None"
    using slot_get_put [OF ipc_demo_lookup(1), of _ "event_demo_first :: endpoint_handle"] by (simp add: t_def put_endpoint_def)
  from run_step [OF run_refl step this] have "ipc_run event_demo_first ipc_demo [[7]] [] t"
    by (simp add: sent_on_def received_on_def)
  from queue_fifo [OF ipc_demo_reachable ipc_demo_lookup(1) this] show ?thesis
    using step by (auto simp: queue_contents_def)
qed

text \<open>
  C9: A send never panics and its status is decided in this order: a capability that does not
  resolve is stale; the caller must own it and it must be a right to send; the message must have
  the size of the endpoint; and the ring must have room. A send that succeeds was made by the
  producer of the endpoint, appends the message to the ring and raises the read event, and a send
  that is refused changes nothing.
\<close>

theorem send_outcome:
  assumes "ipc_move\<^sup>*\<^sup>* (ipc_start g budget eg hardware mem) s"
  shows "\<exists>status r events mem'. ipc_send (is_ipc s) (is_events s) (is_memory s) caller c bytes = Some (status, r, events, mem')
    \<and> (case slot_get (ir_capabilities (is_ipc s)) c of
         None \<Rightarrow> status = IpcStale
       | Some grant \<Rightarrow> \<exists>ep. slot_get (ir_endpoints (is_ipc s)) (cr_endpoint grant) = Some ep
           \<and> status = (if cr_owner grant \<noteq> caller \<or> cr_rights grant \<noteq> IrSend then IpcUnauthorized
               else if length bytes \<noteq> ep_message_bytes ep then IpcMalformed
               else if ep_queue_len ep \<ge> ep_queue_capacity ep then IpcFull else IpcOk)
           \<and> (status = IpcOk \<longrightarrow> ep_producer ep = caller \<and> events = snd (signal_irq (is_events s) (ep_read_event ep))
               \<and> (\<exists>ep'. r = put_endpoint (is_ipc s) (cr_endpoint grant) ep'
                    \<and> queue_contents mem' ep' = queue_contents (is_memory s) ep @ [bytes])))
    \<and> (status \<noteq> IpcOk \<longrightarrow> r = is_ipc s \<and> events = is_events s \<and> mem' = is_memory s)"
proof -
  have inv: "ipc_inv (is_ipc s)" by (rule ipc_inv_reachable [OF assms])
  show ?thesis
  proof (cases rule: ipc_send_outcome [OF inv refl, of "is_events s" "is_memory s" caller c bytes])
    case (1 status)
    show ?thesis
    proof (cases "slot_get (ir_capabilities (is_ipc s)) c")
      case None
      then show ?thesis by (simp add: ipc_send_def get_capability_def)
    next
      case (Some grant)
      then obtain ep where "slot_get (ir_endpoints (is_ipc s)) (cr_endpoint grant) = Some ep"
        "cr_service_epoch grant = ep_service_epoch ep"
        using ipc_invD(5) [OF inv Some] by (auto simp: grant_ok_def)
      then show ?thesis using 1 Some
        by (auto simp: ipc_send_def get_capability_def get_endpoint_eq split: if_splits option.splits)
    qed
  next
    case (2 grant ep ep' mem')
    then show ?thesis by (intro exI) (auto simp: 2(8))
  qed
qed

theorem send_outcome_witness:
  "\<exists>status r events mem'. ipc_send (is_ipc ipc_demo) (is_events ipc_demo) (is_memory ipc_demo) event_demo_owner ipc_demo_grant_handle [7]
     = Some (status, r, events, mem') \<and> status = IpcOk"
  using send_outcome [OF ipc_demo_reachable, of event_demo_owner ipc_demo_grant_handle "[7]"] by auto



text \<open>A destroyed endpoint is refused by every lookup for all but one full cycle of generations.\<close>

lemma destroyed_endpoint_stays_dead:
  assumes "ipc_move\<^sup>*\<^sup>* (ipc_start g budget eg hardware mem) s" "ipc_move s t" "get_endpoint (is_ipc s) h = Ok ep"
    "slot_at (ir_endpoints (is_ipc t)) (unat (handle_index h)) = None"
    "retire_run ipc_move (\<lambda>s. slot_gen (ir_generation_seed (is_ipc s)) (ir_endpoints (is_ipc s)) (unat (handle_index h))) t k u"
    "k < 2 ^ 32 - 2"
  shows "get_endpoint (is_ipc u) h = Err IpcStale"
  using endpoint_slots.dead_handle_stays_dead [OF ipc_inv_reachable [OF assms(1)] assms(2) _ assms(4-6)] assms(3)
  by (simp add: get_endpoint_eq ok_or_Ok)

end
