(* ===== verification/Directory_Listings.thy ===== *)
theory Directory_Listings
  imports IPC_Properties
begin

text \<open>
  The directory listings of events (\<open>src/runtime_events.rs\<close>), capabilities and endpoints
  (\<open>src/runtime_ipc.rs\<close>). A client that follows the cursors of a listing sees every record, and an
  endpoint with contract 0 makes the page that shows it invalid.
\<close>

section \<open>Listings\<close>

definition event_directory_record :: "event_record slot list \<Rightarrow> nat \<times> event_record \<Rightarrow> page_action" where
  "event_directory_record slots = (\<lambda>(i, event).
     case (slot_handle_of slots i :: event_handle option) of
       None \<Rightarrow> Abort
     | Some handle \<Rightarrow> Emit \<lparr>dr_kind = KindEvent, dr_rights = 0, dr_flags = ev_directory_flags event, dr_handle = raw handle,
         dr_peer = ev_owner event, dr_contract_id = 0, dr_message_bytes = 0, dr_queue_capacity = 0, dr_event = handle_empty,
         dr_name_len = 0, dr_reserved = [0], dr_name = replicate MAX_SERVICE_NAME_BYTES 0\<rparr>)"

definition owned_event_slots :: "event_record slot list \<Rightarrow> service_handle \<Rightarrow> (nat \<times> event_record) list" where
  "owned_event_slots slots owner = List.map_filter (\<lambda>i.
     case sl_value (slots ! i) of
       None \<Rightarrow> None
     | Some event \<Rightarrow> if ev_owner event \<noteq> owner then None else Some (i, event)) [0 ..< length slots]"

definition event_directory ::
    "event_registry \<Rightarrow> directory_request \<Rightarrow> directory_response \<Rightarrow> directory_status \<times> directory_response" where
  "event_directory r request response =
     (if \<not> directory_request_is_valid request \<or> drq_operation request \<noteq> DirEvents \<or> \<not> handle_is_valid (drq_subject request)
      then (DsMalformed, response)
      else page_response request (page_loop (event_directory_record (er_events r)) (drq_cursor request) 0 []
             (owned_event_slots (er_events r) (drq_subject request))))"

definition capability_directory_record :: "ipc_registry \<Rightarrow> capability_record \<Rightarrow> page_action" where
  "capability_directory_record r capability =
     (case get_endpoint r (cr_endpoint capability) of
        Inl _ \<Rightarrow> Skip
      | Inr endpoint \<Rightarrow> Emit \<lparr>dr_kind = KindCapability, dr_rights = ipc_rights_raw (cr_rights capability), dr_flags = 0,
          dr_handle = raw (cr_handle capability),
          dr_peer = (if ep_producer endpoint = cr_owner capability then ep_consumer endpoint else ep_producer endpoint),
          dr_contract_id = ep_contract_id endpoint, dr_message_bytes = of_nat (ep_message_bytes endpoint),
          dr_queue_capacity = of_nat (ep_queue_capacity endpoint),
          dr_event = (if cr_rights capability = IrSend then ep_write_event endpoint else ep_read_event endpoint),
          dr_name_len = 0, dr_reserved = [0], dr_name = replicate MAX_SERVICE_NAME_BYTES 0\<rparr>)"

definition capability_directory ::
    "ipc_registry \<Rightarrow> directory_request \<Rightarrow> directory_response \<Rightarrow> directory_status \<times> directory_response" where
  "capability_directory r request response =
     (if \<not> directory_request_is_valid request \<or> drq_operation request \<noteq> DirCapabilities then (DsMalformed, response)
      else page_response request (page_loop (capability_directory_record r) (drq_cursor request) 0 []
             (filter (\<lambda>capability. cr_owner capability = drq_subject request) (live_values (ir_capabilities r)))))"

definition endpoint_directory_record :: "endpoint_record \<Rightarrow> directory_record" where
  "endpoint_directory_record endpoint = \<lparr>dr_kind = KindEndpoint, dr_rights = 0, dr_flags = 0, dr_handle = raw (ep_handle endpoint),
     dr_peer = ep_consumer endpoint, dr_contract_id = ep_contract_id endpoint, dr_message_bytes = of_nat (ep_message_bytes endpoint),
     dr_queue_capacity = of_nat (ep_queue_capacity endpoint), dr_event = handle_empty,
     dr_name_len = 0, dr_reserved = [0], dr_name = replicate MAX_SERVICE_NAME_BYTES 0\<rparr>"

definition directory_endpoints ::
    "ipc_registry \<Rightarrow> directory_request \<Rightarrow> directory_response \<Rightarrow> directory_status \<times> directory_response" where
  "directory_endpoints r request response =
     (if \<not> directory_request_is_valid request \<or> drq_operation request \<noteq> DirEndpoints then (DsMalformed, response)
      else page_response request (page_loop (\<lambda>endpoint. Emit (endpoint_directory_record endpoint)) (drq_cursor request) 0 []
             (live_values (ir_endpoints r))))"

section \<open>Every record is emitted\<close>

text \<open>What the listings show for one record of a well-formed table.\<close>

definition emitted :: "('a \<Rightarrow> page_action) \<Rightarrow> 'a \<Rightarrow> directory_record" where
  "emitted emit x = (case emit x of Emit record \<Rightarrow> record | _ \<Rightarrow> directory_record_empty)"

lemma emittedI: "(\<exists>record. emit x = Emit record) \<Longrightarrow> emit x = Emit (emitted emit x)"
  by (auto simp: emitted_def)

lemma owned_event_emitted:
  assumes "slots_ok seed slots" "x \<in> set (owned_event_slots slots owner)"
  shows "event_directory_record slots x = Emit (emitted (event_directory_record slots) x)"
proof (rule emittedI)
  obtain i event where x: "x = (i, event)" "slot_at slots i = Some event"
    using assms(2) by (auto simp: owned_event_slots_def map_filter_def slot_at_Some split: option.splits if_splits)
  obtain h :: event_handle where "slot_handle_of slots i = Some h" using slot_handle_live [OF assms(1) x(2)] by blast
  then show "\<exists>record. event_directory_record slots x = Emit record" by (simp add: event_directory_record_def x(1))
qed

lemma capability_emitted:
  assumes "ipc_inv r" "grant \<in> set (filter P (live_values (ir_capabilities r)))"
  shows "capability_directory_record r grant = Emit (emitted (capability_directory_record r) grant)"
proof (rule emittedI)
  obtain c :: capability_handle where "slot_get (ir_capabilities r) c = Some grant"
    using assms live_value_handle [OF ipc_invD(2) [OF assms(1)]] by auto
  then have "grant_ok r c grant" by (rule ipc_invD(5) [OF assms(1)])
  then show "\<exists>record. capability_directory_record r grant = Emit record"
    by (auto simp: grant_ok_def capability_directory_record_def get_endpoint_eq)
qed

lemma map_filter_length: "length (List.map_filter f xs) \<le> length xs"
  by (simp add: map_filter_def)

lemma table_lengths:
  "length (owned_event_slots slots owner) \<le> length slots" "length (live_values vs) \<le> length vs"
  using map_filter_length [of _ "[0 ..< length slots]"] by (simp_all add: owned_event_slots_def live_values_def map_filter_length)

text \<open>A walk from the start over a table that a 32-bit index covers.\<close>

lemma walk_from_start:
  assumes "\<And>x. x \<in> set xs \<Longrightarrow> emit x = Emit (f x)" "length xs \<le> 2 ^ 32" "drq_cursor request = 0" "2 ^ 32 < 32 * n"
    "\<And>cursor. listing (request\<lparr>drq_cursor := cursor\<rparr>)
       = page_response (request\<lparr>drq_cursor := cursor\<rparr>) (page_loop emit cursor 0 [] xs)"
  shows "page_walk listing n request = map f xs"
proof -
  have "page_walk listing n request = drop (unat (drq_cursor request)) (map f xs)"
    by (rule page_walk_complete [OF assms(1) _ _ assms(5)]) (use assms(2-4) in simp_all)
  then show ?thesis using assms(3) by simp
qed

text \<open>Which endpoint records a client accepts.\<close>

lemma slot_get_valid: "slots_ok seed slots \<Longrightarrow> slot_get slots h = Some v \<Longrightarrow> handle_is_valid h"
  using slots_ok_generation [of seed slots "unat (handle_index h)"] by (auto simp: slot_get_Some slot_at_Some handle_is_valid_def)

lemma endpoint_record_valid:
  assumes "endpoint_ok h ep" "handle_is_valid h"
  shows "directory_record_is_valid (endpoint_directory_record ep) \<longleftrightarrow> ep_contract_id ep \<noteq> 0"
proof -
  have sizes: "unat (of_nat (ep_message_bytes ep) :: u16) = ep_message_bytes ep" "unat (of_nat (ep_queue_capacity ep) :: u16) = ep_queue_capacity ep"
    using assms(1) by (simp_all add: endpoint_ok_def unat_of_nat)
  then have "(of_nat (ep_message_bytes ep) :: u16) \<noteq> 0" "(of_nat (ep_queue_capacity ep) :: u16) \<noteq> 0"
    using assms(1) by (auto simp: endpoint_ok_def unat_eq_0 [symmetric] simp del: unat_eq_0)
  moreover have "raw h \<noteq> 0" "handle_from_raw (raw h) \<noteq> (None :: endpoint_handle option)"
    using assms(2) by (auto simp: handle_is_valid_def handle_generation_def handle_from_raw_def)
  ultimately show ?thesis
    using assms sizes by (auto simp: directory_record_is_valid_def directory_record_is_empty_def endpoint_directory_record_def endpoint_ok_def
        handle_is_valid_def handle_empty_def handle_generation_def list.pred_set)
qed

lemma page_response_valid:
  assumes "directory_request_is_valid request" "length page \<le> 32" "again \<Longrightarrow> length page = 32"
  shows "directory_response_is_valid_for (snd (page_response request (page, if again then PageMore else PageDone))) request
    \<longleftrightarrow> list_all directory_record_is_valid page"
proof -
  have count: "unat (of_nat (length page) :: u8) = length page" using assms(2) by (simp add: unat_of_nat_u8)
  have "unat (saturating_add (drq_cursor request) 32) \<noteq> 0" by (simp add: saturating_add_unat)
  then have "saturating_add (drq_cursor request) 32 \<noteq> 0" by (metis unat_0)
  moreover have "list_all directory_record_is_empty (replicate k directory_record_empty)" for k
    by (simp add: list.pred_set directory_record_is_empty_def directory_record_empty_def)
  ultimately show ?thesis
    using assms count by (cases again) (simp_all add: page_response_def Let_def directory_response_is_valid_for_def directory_response_empty_def)
qed

section \<open>Properties\<close>

text \<open>
  C17: The listings of events, capabilities and endpoints are complete. Over an unchanged table, a
  client that follows the cursors from the start collects with enough pages exactly one record per
  event or capability of the subject, or per endpoint, in slot order.
\<close>

theorem directory_listings_complete:
  assumes "ipc_move\<^sup>*\<^sup>* (ipc_start g budget eg hardware mem) s" "directory_request_is_valid request" "drq_cursor request = 0"
    "handle_is_valid (drq_subject request)" "2 ^ 32 < 32 * n"
  defines "events \<equiv> owned_event_slots (er_events (is_events s)) (drq_subject request)"
    and "grants \<equiv> filter (\<lambda>grant. cr_owner grant = drq_subject request) (live_values (ir_capabilities (is_ipc s)))"
  shows "(drq_operation request = DirEvents \<longrightarrow> page_walk (\<lambda>q. event_directory (is_events s) q response) n request
          = map (emitted (event_directory_record (er_events (is_events s)))) events)
    \<and> (drq_operation request = DirCapabilities \<longrightarrow> page_walk (\<lambda>q. capability_directory (is_ipc s) q response) n request
          = map (emitted (capability_directory_record (is_ipc s))) grants)
    \<and> (drq_operation request = DirEndpoints \<longrightarrow> page_walk (\<lambda>q. directory_endpoints (is_ipc s) q response) n request
          = map endpoint_directory_record (live_values (ir_endpoints (is_ipc s))))"
proof -
  have inv: "ipc_inv (is_ipc s)" "event_inv (is_events s)"
    using ipc_inv_reachable [OF assms(1)] ipc_events_reachable [OF assms(1)] .
  have valid: "directory_request_is_valid (request\<lparr>drq_cursor := cursor\<rparr>)" for cursor
    using assms(2) by (simp add: directory_request_is_valid_def)
  have "page_walk (\<lambda>q. event_directory (is_events s) q response) n request
      = map (emitted (event_directory_record (er_events (is_events s)))) events" if "drq_operation request = DirEvents"
  proof (rule walk_from_start)
    show "length events \<le> 2 ^ 32"
      using table_lengths(1) [of "er_events (is_events s)"] event_invD(1) [OF inv(2)] unfolding events_def slots_ok_def
      by (meson order_trans)
  qed (use that assms(3-5) valid owned_event_emitted [OF event_invD(1) [OF inv(2)]] in
      \<open>simp_all add: event_directory_def events_def\<close>)
  moreover have "page_walk (\<lambda>q. capability_directory (is_ipc s) q response) n request
      = map (emitted (capability_directory_record (is_ipc s))) grants" if "drq_operation request = DirCapabilities"
  proof (rule walk_from_start)
    show "length grants \<le> 2 ^ 32"
      using table_lengths(2) [of "ir_capabilities (is_ipc s)"] ipc_invD(2) [OF inv(1)] unfolding grants_def slots_ok_def
      by (meson length_filter_le order_trans)
  qed (use that assms(3-5) valid capability_emitted [OF inv(1)] in \<open>simp_all add: capability_directory_def grants_def\<close>)
  moreover have "page_walk (\<lambda>q. directory_endpoints (is_ipc s) q response) n request
      = map endpoint_directory_record (live_values (ir_endpoints (is_ipc s)))" if "drq_operation request = DirEndpoints"
  proof (rule walk_from_start)
    show "length (live_values (ir_endpoints (is_ipc s))) \<le> 2 ^ 32"
      using table_lengths(2) [of "ir_endpoints (is_ipc s)"] ipc_invD(1) [OF inv(1)] unfolding slots_ok_def
      by (meson order_trans)
  qed (use that assms(3-5) valid in \<open>simp_all add: directory_endpoints_def\<close>)
  ultimately show ?thesis by blast
qed

definition listing_demo_request :: "directory_operation \<Rightarrow> directory_request" where
  "listing_demo_request operation = (directory_request_new operation 1)\<lparr>drq_subject := event_demo_owner\<rparr>"

lemma listing_demo_fields [simp]:
  "drq_cursor (listing_demo_request operation) = 0" "drq_subject (listing_demo_request operation) = event_demo_owner"
  "drq_operation (listing_demo_request operation) = operation"
  by (simp_all add: listing_demo_request_def directory_request_new_def)

lemma listing_demo_valid [simp]: "directory_request_is_valid (listing_demo_request DirEndpoints)"
  by (simp add: listing_demo_request_def directory_request_new_def directory_request_is_valid_def directory_operation_from_raw_def)

lemma listing_demo_endpoints: "live_values (ir_endpoints (is_ipc ipc_demo)) = [ipc_demo_endpoint 0]"
  by (simp add: ipc_demo_state_def live_values_def event_demo_slot_def map_filter_def)

theorem directory_listings_complete_witness:
  "page_walk (\<lambda>q. directory_endpoints (is_ipc ipc_demo) q (directory_response_empty DirEndpoints DsOk 1)) 134217729 (listing_demo_request DirEndpoints)
     = [endpoint_directory_record (ipc_demo_endpoint 0)]"
  using directory_listings_complete [OF ipc_demo_reachable, of "listing_demo_request DirEndpoints" 134217729 "directory_response_empty DirEndpoints DsOk 1"]
  by (simp add: listing_demo_endpoints)

text \<open>
  An endpoint with contract 0 spoils its page. Creating an endpoint accepts contract 0, but a
  page of the endpoint listing passes the validity check of the client exactly if every endpoint
  on it has a contract other than 0.
\<close>

theorem endpoint_page_validity:
  assumes "ipc_move\<^sup>*\<^sup>* (ipc_start g budget eg hardware mem) s" "directory_request_is_valid request"
    "drq_operation request = DirEndpoints"
  shows "directory_response_is_valid_for (snd (directory_endpoints (is_ipc s) request response)) request
    \<longleftrightarrow> (\<forall>ep \<in> set (take 32 (drop (unat (drq_cursor request)) (live_values (ir_endpoints (is_ipc s))))). ep_contract_id ep \<noteq> 0)"
proof -
  let ?eps = "live_values (ir_endpoints (is_ipc s))"
  let ?page = "take 32 (drop (unat (drq_cursor request)) ?eps)" and ?more = "32 < length (drop (unat (drq_cursor request)) ?eps)"
  have inv: "ipc_inv (is_ipc s)" by (rule ipc_inv_reachable [OF assms(1)])
  have small: "length ?eps < 2 ^ 64"
    using table_lengths(2) [of "ir_endpoints (is_ipc s)"] ipc_invD(1) [OF inv] by (simp add: slots_ok_def)
  have valid: "directory_record_is_valid (endpoint_directory_record ep) \<longleftrightarrow> ep_contract_id ep \<noteq> 0" if "ep \<in> set ?page" for ep
  proof -
    have "ep \<in> set ?eps" using that by (meson in_set_dropD in_set_takeD)
    then obtain h :: endpoint_handle where h: "slot_get (ir_endpoints (is_ipc s)) h = Some ep"
      using live_value_handle [OF ipc_invD(1) [OF inv]] by blast
    then show ?thesis using endpoint_record_valid [OF ipc_invD(3) [OF inv h]] slot_get_valid [OF ipc_invD(1) [OF inv] h] by simp
  qed
  have "directory_endpoints (is_ipc s) request response
      = page_response request (map endpoint_directory_record ?page, if ?more then PageMore else PageDone)"
    using page_loop_window [of ?eps "\<lambda>ep. Emit (endpoint_directory_record ep)" endpoint_directory_record 0 "drq_cursor request"] small assms(2,3)
    by (simp add: directory_endpoints_def)
  moreover have "list_all directory_record_is_valid (map endpoint_directory_record ?page) \<longleftrightarrow> (\<forall>ep \<in> set ?page. ep_contract_id ep \<noteq> 0)"
    using valid by (auto simp: list.pred_set)
  ultimately show ?thesis
    using page_response_valid [OF assms(2), of "map endpoint_directory_record ?page" ?more] by simp
qed

theorem endpoint_page_validity_witness:
  "directory_response_is_valid_for (snd (directory_endpoints (is_ipc ipc_demo) (listing_demo_request DirEndpoints)
     (directory_response_empty DirEndpoints DsOk 1))) (listing_demo_request DirEndpoints)"
  using endpoint_page_validity [OF ipc_demo_reachable, of "listing_demo_request DirEndpoints" "directory_response_empty DirEndpoints DsOk 1"]
  by (simp add: listing_demo_endpoints) (simp add: ipc_demo_endpoint_def)

end
