(* ===== verification/Scheduler.thy ===== *)
theory Scheduler
  imports Generations Process_Table
begin

text \<open>
  The task scheduler, \<open>src/scheduler.rs\<close>. Processors share an array of task slots and change the
  state word of a slot (a 56-bit generation, a state and a wake-pending bit) by compare-and-exchange.
  An operation takes an \<open>interference\<close>: what the other processors do to the shared state at its
  \<open>n\<close>-th point between two atomic accesses; \<open>quiet\<close> is the absence of it. Memory is taken to be
  sequentially consistent. The saved register images, stacks and the assembly that fills them are not
  part of the model.
\<close>

section \<open>State words\<close>

abbreviation MAX_TASKS :: nat where "MAX_TASKS \<equiv> 24"
abbreviation MAX_CPUS :: nat where "MAX_CPUS \<equiv> 8"
abbreviation T_VACANT :: u64 where "T_VACANT \<equiv> 0"
abbreviation T_INITIALIZING :: u64 where "T_INITIALIZING \<equiv> 1"
abbreviation T_RUNNABLE :: u64 where "T_RUNNABLE \<equiv> 2"
abbreviation T_RUNNING :: u64 where "T_RUNNING \<equiv> 3"
abbreviation T_BLOCKED :: u64 where "T_BLOCKED \<equiv> 4"
abbreviation T_COMPLETED :: u64 where "T_COMPLETED \<equiv> 5"
abbreviation T_STOPPING :: u64 where "T_STOPPING \<equiv> 6"
abbreviation STATE_MASK :: u64 where "STATE_MASK \<equiv> 0xf"
abbreviation WAKE_PENDING :: u64 where "WAKE_PENDING \<equiv> 16"
abbreviation GENERATION_MASK :: u64 where "GENERATION_MASK \<equiv> 0xffffffffffffff"
abbreviation INITIAL_GENERATION :: u64 where "INITIAL_GENERATION \<equiv> 1"
abbreviation NO_CPU_TASK :: u8 where "NO_CPU_TASK \<equiv> 255"
abbreviation TASK_NO_DEADLINE :: u64 where "TASK_NO_DEADLINE \<equiv> - 1"

definition task_pack :: "u64 \<Rightarrow> u64 \<Rightarrow> u64" where
  "task_pack generation state = push_bit 8 (generation AND GENERATION_MASK) OR state"

definition task_generation :: "u64 \<Rightarrow> u64" where
  "task_generation w = drop_bit 8 w"

definition task_state :: "u64 \<Rightarrow> u64" where
  "task_state w = w AND STATE_MASK"

definition task_next_generation :: "u64 \<Rightarrow> u64" where
  "task_next_generation generation =
     (let next = ((generation AND GENERATION_MASK) + 1) AND GENERATION_MASK
      in if next = 0 then INITIAL_GENERATION else next)"

section \<open>Data\<close>

datatype public_task_state = TsRunnable | TsRunning | TsBlocked | TsStopping | TsCompleted

datatype spawn_error = SpCapacity | SpAddressSpace | SpUserLaunch

record task_handle =
  th_slot :: u8
  th_generation :: u64

definition task_handle_raw :: "task_handle \<Rightarrow> u64" where
  "task_handle_raw h = push_bit 8 (th_generation h AND GENERATION_MASK) OR ucast (th_slot h)"

definition task_handle_from_raw :: "u64 \<Rightarrow> task_handle" where
  "task_handle_from_raw r = \<lparr>th_slot = ucast r, th_generation = drop_bit 8 r AND GENERATION_MASK\<rparr>"

datatype finish_state = FinishRunnable | FinishBlocked | FinishTimedBlocked | FinishCompleted

record task_slot =
  ts_entry :: usize
  ts_state :: u64
  ts_wake_deadline :: u64
  ts_saved_rsp :: usize
  ts_context_saved :: bool
  ts_wait_object :: u64
  ts_address_space :: usize
  ts_process :: u64
  ts_user_entry :: usize
  ts_user_stack_top :: usize
  ts_address_space_published :: bool

definition task_slot_new :: task_slot where
  "task_slot_new = \<lparr>ts_entry = 0, ts_state = task_pack INITIAL_GENERATION T_VACANT,
     ts_wake_deadline = TASK_NO_DEADLINE, ts_saved_rsp = 0, ts_context_saved = False, ts_wait_object = 0,
     ts_address_space = 0, ts_process = 0, ts_user_entry = 0, ts_user_stack_top = 0,
     ts_address_space_published = False\<rparr>"

record scheduled_user_launch =
  sl_process :: process_handle
  sl_launch :: user_launch

record cpu_state =
  cs_online :: bool
  cs_cursor :: usize
  cs_current_slot :: u8
  cs_current_generation :: u64
  cs_ticks :: u64
  cs_switches :: u64

definition cpu_state_new :: cpu_state where
  "cpu_state_new = \<lparr>cs_online = False, cs_cursor = 0, cs_current_slot = NO_CPU_TASK, cs_current_generation = 0,
     cs_ticks = 0, cs_switches = 0\<rparr>"

record scheduler =
  sc_tasks :: "task_slot list"
  sc_cpus :: "cpu_state list"
  sc_event_wakes :: u64

definition scheduler_new :: scheduler where
  "scheduler_new = \<lparr>sc_tasks = replicate MAX_TASKS task_slot_new, sc_cpus = replicate MAX_CPUS cpu_state_new,
     sc_event_wakes = 0\<rparr>"

type_synonym interference = "nat \<Rightarrow> scheduler \<Rightarrow> scheduler"

definition quiet :: interference where
  "quiet n s = s"

definition sc_word :: "scheduler \<Rightarrow> nat \<Rightarrow> u64" where
  "sc_word s i = ts_state (sc_tasks s ! i)"

definition sc_update :: "scheduler \<Rightarrow> nat \<Rightarrow> (task_slot \<Rightarrow> task_slot) \<Rightarrow> scheduler" where
  "sc_update s i f = s\<lparr>sc_tasks := (sc_tasks s)[i := f (sc_tasks s ! i)]\<rparr>"

definition put_word :: "scheduler \<Rightarrow> nat \<Rightarrow> u64 \<Rightarrow> scheduler" where
  "put_word s i w = sc_update s i (\<lambda>slot. slot\<lparr>ts_state := w\<rparr>)"

definition cpu_update :: "scheduler \<Rightarrow> nat \<Rightarrow> (cpu_state \<Rightarrow> cpu_state) \<Rightarrow> scheduler" where
  "cpu_update s c f = s\<lparr>sc_cpus := (sc_cpus s)[c := f (sc_cpus s ! c)]\<rparr>"

text \<open>The slot of a handle, if the array has it.\<close>

definition sc_slot :: "scheduler \<Rightarrow> task_handle \<Rightarrow> task_slot option" where
  "sc_slot s h = slice_get (sc_tasks s) (unat (th_slot h))"

section \<open>Processors and spawning\<close>

definition online_cpu :: "scheduler \<Rightarrow> nat \<Rightarrow> bool \<times> scheduler" where
  "online_cpu s c =
     (case slice_get (sc_cpus s) c of
        None \<Rightarrow> (False, s)
      | Some _ \<Rightarrow> (True, cpu_update s c (\<lambda>cpu. cpu\<lparr>cs_online := True\<rparr>)))"

definition cpu_online :: "scheduler \<Rightarrow> nat \<Rightarrow> bool" where
  "cpu_online s c = (case slice_get (sc_cpus s) c of None \<Rightarrow> False | Some cpu \<Rightarrow> cs_online cpu)"

text \<open>The stores into a slot that a processor has reserved.\<close>

definition spawn_fill :: "usize \<Rightarrow> usize \<Rightarrow> scheduled_user_launch option \<Rightarrow> task_slot \<Rightarrow> task_slot" where
  "spawn_fill entry address_space user_launch slot = slot\<lparr>ts_entry := entry,
     ts_wake_deadline := TASK_NO_DEADLINE, ts_saved_rsp := 0, ts_context_saved := False, ts_wait_object := 0,
     ts_address_space := address_space, ts_address_space_published := (address_space \<noteq> 0),
     ts_process := (case user_launch of None \<Rightarrow> 0 | Some l \<Rightarrow> process_handle_raw (sl_process l)),
     ts_user_entry := (case user_launch of None \<Rightarrow> 0 | Some l \<Rightarrow> ul_entry (sl_launch l)),
     ts_user_stack_top := (case user_launch of None \<Rightarrow> 0 | Some l \<Rightarrow> ul_stack_top (sl_launch l))\<rparr>"

fun spawn_loop ::
    "interference \<Rightarrow> usize \<Rightarrow> usize \<Rightarrow> scheduled_user_launch option \<Rightarrow> nat list \<Rightarrow> scheduler
      \<Rightarrow> (spawn_error + task_handle) \<times> scheduler" where
  "spawn_loop env entry address_space user_launch [] s = (Err SpCapacity, s)"
| "spawn_loop env entry address_space user_launch (i # is) s =
     (let old = sc_word s i
      in if task_state old \<noteq> T_VACANT then spawn_loop env entry address_space user_launch is s
         else
           let generation = task_generation old;
               s = env i s
           in if sc_word s i \<noteq> old then spawn_loop env entry address_space user_launch is s
              else
                let s = put_word s i (task_pack generation T_INITIALIZING);
                    s = sc_update s i (spawn_fill entry address_space user_launch)
                in (Ok \<lparr>th_slot = of_nat i, th_generation = generation\<rparr>,
                    put_word s i (task_pack generation T_RUNNABLE)))"

definition spawn_internal ::
    "interference \<Rightarrow> scheduler \<Rightarrow> usize \<Rightarrow> usize \<Rightarrow> scheduled_user_launch option
      \<Rightarrow> (spawn_error + task_handle) \<times> scheduler" where
  "spawn_internal env s entry address_space user_launch =
     (if address_space \<noteq> 0 \<and> address_space AND 0xfff \<noteq> 0 then (Err SpAddressSpace, s)
      else if (case user_launch of None \<Rightarrow> False | Some l \<Rightarrow> process_handle_raw (sl_process l) = 0)
      then (Err SpUserLaunch, s)
      else spawn_loop env entry address_space user_launch [0 ..< length (sc_tasks s)] s)"

definition spawn_with_address_space where
  "spawn_with_address_space env s entry address_space = spawn_internal env s entry address_space None"

definition spawn where
  "spawn env s entry = spawn_with_address_space env s entry 0"

definition spawn_user where
  "spawn_user env s entry process launch =
     spawn_internal env s entry (root_raw (ul_address_space_root launch))
       (Some \<lparr>sl_process = process, sl_launch = launch\<rparr>)"

section \<open>The compare-and-exchange loops\<close>

text \<open>
  \<open>wake\<close>, \<open>request_stop\<close> and \<open>finish\<close> are loops of the same form. They read the state word and
  return, or make some stores and then either return or try to exchange the word; when the exchange
  fails they start over. A plan says which.
\<close>

datatype slot_store = StoreDeadline u64 | StoreWaitObject u64

fun apply_store :: "slot_store \<Rightarrow> task_slot \<Rightarrow> task_slot" where
  "apply_store (StoreDeadline d) slot = slot\<lparr>ts_wake_deadline := d\<rparr>"
| "apply_store (StoreWaitObject x) slot = slot\<lparr>ts_wait_object := x\<rparr>"

datatype plan = Return bool | Settle "slot_store list" | Attempt "slot_store list" u64

fun store_all :: "interference \<Rightarrow> nat \<Rightarrow> nat \<Rightarrow> slot_store list \<Rightarrow> scheduler \<Rightarrow> nat \<times> scheduler" where
  "store_all env i n [] s = (n, s)"
| "store_all env i n (st # sts) s = store_all env i (Suc n) sts (sc_update (env n s) i (apply_store st))"

partial_function (option) cas_loop ::
    "interference \<Rightarrow> (u64 \<Rightarrow> plan) \<Rightarrow> nat \<Rightarrow> nat \<Rightarrow> scheduler \<Rightarrow> (bool \<times> scheduler) option" where
  "cas_loop env plan i n s =
     (case plan (sc_word s i) of
        Return b \<Rightarrow> Some (b, s)
      | Settle stores \<Rightarrow> Some (True, snd (store_all env i n stores s))
      | Attempt stores next \<Rightarrow>
          (case store_all env i n stores s of
             (m, s1) \<Rightarrow>
               if sc_word (env m s1) i = sc_word s i then Some (True, put_word (env m s1) i next)
               else cas_loop env plan i (Suc m) (env m s1)))"

definition wake_plan :: "u64 \<Rightarrow> u64 \<Rightarrow> plan" where
  "wake_plan generation old =
     (if task_generation old \<noteq> generation then Return False
      else if task_state old = T_BLOCKED
      then (if task_pack generation T_RUNNABLE = old
            then Settle [StoreDeadline TASK_NO_DEADLINE, StoreWaitObject 0]
            else Attempt [StoreDeadline TASK_NO_DEADLINE, StoreWaitObject 0] (task_pack generation T_RUNNABLE))
      else if task_state old = T_RUNNING
      then (if old OR WAKE_PENDING = old then Settle [StoreWaitObject 0]
            else Attempt [StoreWaitObject 0] (old OR WAKE_PENDING))
      else if task_state old = T_RUNNABLE then Settle [StoreWaitObject 0]
      else Return False)"

definition stop_plan :: "u64 \<Rightarrow> u64 \<Rightarrow> plan" where
  "stop_plan generation old =
     (if task_generation old \<noteq> generation then Return False
      else if task_state old = T_RUNNING
      then Attempt [StoreDeadline TASK_NO_DEADLINE, StoreWaitObject 0] (task_pack generation T_STOPPING)
      else if task_state old = T_RUNNABLE \<or> task_state old = T_BLOCKED
      then Attempt [StoreDeadline TASK_NO_DEADLINE, StoreWaitObject 0] (task_pack generation T_COMPLETED)
      else if task_state old = T_STOPPING \<or> task_state old = T_COMPLETED then Return True
      else Return False)"

fun finish_target :: "finish_state \<Rightarrow> bool \<Rightarrow> u64" where
  "finish_target FinishRunnable pending = T_RUNNABLE"
| "finish_target FinishBlocked pending = (if \<not> pending then T_BLOCKED else T_RUNNABLE)"
| "finish_target FinishTimedBlocked pending = (if \<not> pending then T_BLOCKED else T_RUNNABLE)"
| "finish_target FinishCompleted pending = T_COMPLETED"

definition finish_plan :: "finish_state \<Rightarrow> u64 \<Rightarrow> u64 \<Rightarrow> plan" where
  "finish_plan outcome generation old =
     (if task_generation old \<noteq> generation \<or> \<not> (task_state old = T_RUNNING \<or> task_state old = T_STOPPING)
      then Return False
      else
        let next = finish_target outcome (old AND WAKE_PENDING \<noteq> 0);
            next = (if task_state old = T_STOPPING then T_COMPLETED else next)
        in Attempt ((if next \<noteq> T_BLOCKED then [StoreWaitObject 0] else [])
             @ (if next \<noteq> T_BLOCKED \<or> outcome = FinishBlocked then [StoreDeadline TASK_NO_DEADLINE] else []))
             (task_pack generation next))"

definition sch_wake :: "interference \<Rightarrow> scheduler \<Rightarrow> task_handle \<Rightarrow> (bool \<times> scheduler) option" where
  "sch_wake env s h =
     (case sc_slot s h of
        None \<Rightarrow> Some (False, s)
      | Some _ \<Rightarrow> cas_loop env (wake_plan (th_generation h)) (unat (th_slot h)) 0 s)"

definition request_stop :: "interference \<Rightarrow> scheduler \<Rightarrow> task_handle \<Rightarrow> (bool \<times> scheduler) option" where
  "request_stop env s h =
     (case sc_slot s h of
        None \<Rightarrow> Some (False, s)
      | Some _ \<Rightarrow> cas_loop env (stop_plan (th_generation h)) (unat (th_slot h)) 0 s)"

definition sch_finish ::
    "interference \<Rightarrow> scheduler \<Rightarrow> task_handle \<Rightarrow> finish_state \<Rightarrow> (bool \<times> scheduler) option" where
  "sch_finish env s h outcome =
     (case sc_slot s h of
        None \<Rightarrow> Some (False, s)
      | Some slot \<Rightarrow>
          if \<not> ts_context_saved slot then Some (False, s)
          else cas_loop env (finish_plan outcome (th_generation h)) (unat (th_slot h)) 0 s)"

section \<open>Claims and reclamation\<close>

fun claim_loop :: "interference \<Rightarrow> nat \<Rightarrow> nat list \<Rightarrow> scheduler \<Rightarrow> task_handle option \<times> scheduler" where
  "claim_loop env c [] s = (None, s)"
| "claim_loop env c (i # is) s =
     (let old = sc_word s i
      in if task_state old \<noteq> T_RUNNABLE then claim_loop env c is s
         else
           let s = env i s
           in if sc_word s i \<noteq> old then claim_loop env c is s
              else
                let s = put_word s i (task_pack (task_generation old) T_RUNNING);
                    h = \<lparr>th_slot = of_nat i, th_generation = task_generation old\<rparr>
                in (Some h, cpu_update s c (\<lambda>cpu. cpu\<lparr>cs_current_slot := th_slot h,
                     cs_current_generation := th_generation h, cs_switches := cs_switches cpu + 1\<rparr>)))"

definition claim_order :: "usize \<Rightarrow> nat list" where
  "claim_order cursor = map (\<lambda>offset. (unat cursor mod MAX_TASKS + offset) mod MAX_TASKS) [0 ..< MAX_TASKS]"

definition claim_next :: "interference \<Rightarrow> scheduler \<Rightarrow> nat \<Rightarrow> task_handle option \<times> scheduler" where
  "claim_next env s c =
     (case slice_get (sc_cpus s) c of
        None \<Rightarrow> (None, s)
      | Some cpu \<Rightarrow>
          if \<not> cs_online cpu then (None, s)
          else claim_loop env c (claim_order (cs_cursor cpu))
                 (cpu_update s c (\<lambda>cpu. cpu\<lparr>cs_cursor := cs_cursor cpu + 1\<rparr>)))"

definition reclaim_clear :: "task_slot \<Rightarrow> task_slot" where
  "reclaim_clear slot = slot\<lparr>ts_entry := 0, ts_address_space := 0, ts_process := 0, ts_user_entry := 0,
     ts_user_stack_top := 0, ts_address_space_published := False, ts_wake_deadline := TASK_NO_DEADLINE,
     ts_wait_object := 0, ts_saved_rsp := 0, ts_context_saved := False\<rparr>"

definition reclaim_completed :: "scheduler \<Rightarrow> task_handle \<Rightarrow> bool \<times> scheduler" where
  "reclaim_completed s h =
     (case sc_slot s h of
        None \<Rightarrow> (False, s)
      | Some slot \<Rightarrow>
          if ts_state slot \<noteq> task_pack (th_generation h) T_COMPLETED then (False, s)
          else
            let i = unat (th_slot h);
                s = put_word s i (task_pack (th_generation h) T_INITIALIZING);
                s = sc_update s i reclaim_clear
            in (True, put_word s i (task_pack (task_next_generation (th_generation h)) T_VACANT)))"

section \<open>Deadlines and event objects\<close>

definition task_runs :: "scheduler \<Rightarrow> task_handle \<Rightarrow> bool" where
  "task_runs s h = (case sc_slot s h of None \<Rightarrow> False
     | Some slot \<Rightarrow> task_generation (ts_state slot) = th_generation h \<and> task_state (ts_state slot) = T_RUNNING)"

definition arm_deadline :: "scheduler \<Rightarrow> task_handle \<Rightarrow> u64 \<Rightarrow> bool \<times> scheduler" where
  "arm_deadline s h deadline =
     (if \<not> task_runs s h then (False, s)
      else (True, sc_update s (unat (th_slot h)) (\<lambda>slot. slot\<lparr>ts_wake_deadline := deadline\<rparr>)))"

definition wait_for_event_object ::
    "interference \<Rightarrow> scheduler \<Rightarrow> task_handle \<Rightarrow> u64 \<Rightarrow> u64 \<Rightarrow> bool option \<times> scheduler" where
  "wait_for_event_object env s h obj deadline =
     (if obj = 0 \<or> \<not> task_runs s h then (None, s)
      else (Some True, snd (store_all env (unat (th_slot h)) 0
             [StoreWaitObject 0, StoreDeadline deadline, StoreWaitObject obj] s)))"

fun signal_loop :: "(nat \<Rightarrow> interference) \<Rightarrow> u64 \<Rightarrow> nat list \<Rightarrow> nat \<Rightarrow> scheduler \<Rightarrow> (nat \<times> scheduler) option" where
  "signal_loop env obj [] woken s = Some (woken, s)"
| "signal_loop env obj (i # is) woken s =
     (if ts_wait_object (sc_tasks s ! i) \<noteq> obj then signal_loop env obj is woken s
      else
        let w = sc_word s i
        in if \<not> (task_state w = T_BLOCKED \<or> task_state w = T_RUNNING) then signal_loop env obj is woken s
           else Option.bind (sch_wake (env i) s \<lparr>th_slot = of_nat i, th_generation = task_generation w\<rparr>)
             (\<lambda>(b, s). if b then signal_loop env obj is (Suc woken) (s\<lparr>sc_event_wakes := sc_event_wakes s + 1\<rparr>)
                      else signal_loop env obj is woken s))"

definition signal_event_object :: "(nat \<Rightarrow> interference) \<Rightarrow> scheduler \<Rightarrow> u64 \<Rightarrow> (nat \<times> scheduler) option" where
  "signal_event_object env s obj =
     (if obj = 0 then Some (0, s) else signal_loop env obj [0 ..< length (sc_tasks s)] 0 s)"

fun reset_loop :: "(nat \<Rightarrow> interference) \<Rightarrow> nat list \<Rightarrow> scheduler \<Rightarrow> scheduler option" where
  "reset_loop env [] s = Some s"
| "reset_loop env (i # is) s =
     Option.bind
       (if task_state (sc_word s i) = T_BLOCKED
        then map_option snd (sch_wake (env i) s \<lparr>th_slot = of_nat i, th_generation = task_generation (sc_word s i)\<rparr>)
        else Some s)
       (\<lambda>s. reset_loop env is (sc_update s i (\<lambda>slot. slot\<lparr>ts_wait_object := 0, ts_wake_deadline := TASK_NO_DEADLINE\<rparr>)))"

definition sch_reset_events :: "(nat \<Rightarrow> interference) \<Rightarrow> scheduler \<Rightarrow> scheduler option" where
  "sch_reset_events env s = reset_loop env [0 ..< length (sc_tasks s)] s"

text \<open>
  The body of \<open>wake_due\<close> for one slot. The state and the deadline are read, the deadline is
  exchanged, the wait object is cleared and only then the state word is exchanged.
\<close>

definition wake_due_slot :: "interference \<Rightarrow> u64 \<Rightarrow> nat \<Rightarrow> scheduler \<Rightarrow> bool \<times> scheduler" where
  "wake_due_slot env now i s =
     (let w = sc_word s i
      in if task_state w \<noteq> T_BLOCKED then (False, s)
         else
           let s = env 0 s;
               deadline = ts_wake_deadline (sc_tasks s ! i)
           in if deadline = TASK_NO_DEADLINE \<or> deadline > now then (False, s)
              else
                let s = env 1 s
                in if ts_wake_deadline (sc_tasks s ! i) \<noteq> deadline then (False, s)
                   else
                     let s = sc_update s i (\<lambda>slot. slot\<lparr>ts_wake_deadline := TASK_NO_DEADLINE\<rparr>);
                         s = sc_update (env 2 s) i (\<lambda>slot. slot\<lparr>ts_wait_object := 0\<rparr>);
                         s = env 3 s
                     in if sc_word s i \<noteq> w then (False, s)
                        else (True, put_word s i (task_pack (task_generation w) T_RUNNABLE)))"

fun wake_due_loop :: "(nat \<Rightarrow> interference) \<Rightarrow> u64 \<Rightarrow> nat list \<Rightarrow> nat \<Rightarrow> scheduler \<Rightarrow> nat \<times> scheduler" where
  "wake_due_loop env now [] woken s = (woken, s)"
| "wake_due_loop env now (i # is) woken s =
     (case wake_due_slot (env i) now i s of
        (b, s) \<Rightarrow> wake_due_loop env now is (if b then Suc woken else woken) s)"

definition wake_due :: "(nat \<Rightarrow> interference) \<Rightarrow> scheduler \<Rightarrow> u64 \<Rightarrow> nat \<times> scheduler" where
  "wake_due env s now = wake_due_loop env now [0 ..< length (sc_tasks s)] 0 s"

section \<open>Contexts and queries\<close>

definition sch_state :: "scheduler \<Rightarrow> task_handle \<Rightarrow> public_task_state option" where
  "sch_state s h =
     (case sc_slot s h of
        None \<Rightarrow> None
      | Some slot \<Rightarrow>
          let w = ts_state slot
          in if task_generation w \<noteq> th_generation h then None
             else if task_state w = T_RUNNABLE then Some TsRunnable
             else if task_state w = T_RUNNING then Some TsRunning
             else if task_state w = T_BLOCKED then Some TsBlocked
             else if task_state w = T_STOPPING then Some TsStopping
             else if task_state w = T_COMPLETED then Some TsCompleted else None)"

definition save_context :: "scheduler \<Rightarrow> task_handle \<Rightarrow> usize \<Rightarrow> bool \<times> scheduler" where
  "save_context s h rsp =
     (case sc_slot s h of
        None \<Rightarrow> (False, s)
      | Some slot \<Rightarrow>
          let w = ts_state slot
          in if task_generation w \<noteq> th_generation h \<or> \<not> (task_state w = T_RUNNING \<or> task_state w = T_STOPPING)
             then (False, s)
             else (True, sc_update s (unat (th_slot h)) (\<lambda>slot. slot\<lparr>ts_saved_rsp := rsp, ts_context_saved := True\<rparr>)))"

definition saved_context :: "scheduler \<Rightarrow> task_handle \<Rightarrow> usize option" where
  "saved_context s h =
     (case sc_slot s h of
        None \<Rightarrow> None
      | Some slot \<Rightarrow>
          if task_generation (ts_state slot) = th_generation h \<and> ts_context_saved slot
          then Some (ts_saved_rsp slot) else None)"

definition set_initial_context :: "scheduler \<Rightarrow> task_handle \<Rightarrow> usize \<Rightarrow> bool \<times> scheduler" where
  "set_initial_context s h rsp =
     (if \<not> task_runs s h then (False, s)
      else if ts_context_saved (sc_tasks s ! unat (th_slot h)) then (True, s)
      else (True, sc_update s (unat (th_slot h)) (\<lambda>slot. slot\<lparr>ts_saved_rsp := rsp, ts_context_saved := True\<rparr>)))"

definition current_task :: "scheduler \<Rightarrow> nat \<Rightarrow> task_handle option" where
  "current_task s c =
     (case slice_get (sc_cpus s) c of
        None \<Rightarrow> None
      | Some cpu \<Rightarrow> if cs_current_slot cpu \<noteq> NO_CPU_TASK
          then Some \<lparr>th_slot = cs_current_slot cpu, th_generation = cs_current_generation cpu\<rparr> else None)"

definition clear_current :: "scheduler \<Rightarrow> nat \<Rightarrow> scheduler" where
  "clear_current s c =
     (case slice_get (sc_cpus s) c of
        None \<Rightarrow> s
      | Some _ \<Rightarrow> cpu_update s c (\<lambda>cpu. cpu\<lparr>cs_current_slot := NO_CPU_TASK, cs_current_generation := 0\<rparr>))"

definition record_tick :: "scheduler \<Rightarrow> nat \<Rightarrow> scheduler" where
  "record_tick s c =
     (case slice_get (sc_cpus s) c of
        None \<Rightarrow> s
      | Some _ \<Rightarrow> cpu_update s c (\<lambda>cpu. cpu\<lparr>cs_ticks := cs_ticks cpu + 1\<rparr>))"

definition sch_ticks :: "scheduler \<Rightarrow> nat \<Rightarrow> u64 option" where
  "sch_ticks s c = map_option cs_ticks (slice_get (sc_cpus s) c)"

definition sch_switches :: "scheduler \<Rightarrow> nat \<Rightarrow> u64 option" where
  "sch_switches s c = map_option cs_switches (slice_get (sc_cpus s) c)"

definition sch_cursor :: "scheduler \<Rightarrow> nat \<Rightarrow> usize option" where
  "sch_cursor s c = map_option cs_cursor (slice_get (sc_cpus s) c)"

definition sch_entry :: "scheduler \<Rightarrow> task_handle \<Rightarrow> usize option" where
  "sch_entry s h =
     (case sc_slot s h of
        None \<Rightarrow> None
      | Some slot \<Rightarrow>
          if task_generation (ts_state slot) \<noteq> th_generation h then None
          else if ts_entry slot \<noteq> 0 then Some (ts_entry slot) else None)"

definition sch_address_space :: "scheduler \<Rightarrow> task_handle \<Rightarrow> usize option" where
  "sch_address_space s h =
     (case sc_slot s h of
        None \<Rightarrow> None
      | Some slot \<Rightarrow>
          if task_generation (ts_state slot) \<noteq> th_generation h then None
          else Some (if ts_address_space_published slot then ts_address_space slot else 0))"

definition normalize_kernel_task :: "scheduler \<Rightarrow> task_handle \<Rightarrow> scheduler" where
  "normalize_kernel_task s h =
     (case sc_slot s h of
        None \<Rightarrow> s
      | Some slot \<Rightarrow>
          if task_generation (ts_state slot) = th_generation h \<and> \<not> ts_address_space_published slot
          then sc_update s (unat (th_slot h)) (\<lambda>slot. slot\<lparr>ts_address_space := 0, ts_user_entry := 0, ts_user_stack_top := 0\<rparr>)
          else s)"

definition sch_user_launch :: "scheduler \<Rightarrow> task_handle \<Rightarrow> scheduled_user_launch option" where
  "sch_user_launch s h =
     (case sc_slot s h of
        None \<Rightarrow> None
      | Some slot \<Rightarrow>
          if task_generation (ts_state slot) \<noteq> th_generation h then None
          else
            let process = process_handle_from_raw (ts_process slot)
            in if process_handle_raw process = 0 then None
               else Option.bind (address_space_root_new (ts_address_space slot)) (\<lambda>root.
                    Option.bind (user_launch_new (ts_user_entry slot) (ts_user_stack_top slot) root) (\<lambda>launch.
                    Some \<lparr>sl_process = process, sl_launch = launch\<rparr>)))"

end
