(* ===== verification/Scheduler_Properties.thy ===== *)
theory Scheduler_Properties
  imports Scheduler_Steps
begin

text \<open>
  Properties of the runs of the scheduler: the shape of the state words and the life of a task, the
  exclusive claim, the round robin of a processor, the timer, and the life time of handles.
\<close>

section \<open>Generations\<close>

definition task_gen :: "scheduler \<Rightarrow> nat \<Rightarrow> nat" where
  "task_gen s i = (if i < MAX_TASKS then unat (task_generation (sc_word s i)) else 1)"

definition task_live :: "scheduler \<Rightarrow> nat \<Rightarrow> bool" where
  "task_live s i \<longleftrightarrow> i < MAX_TASKS \<and> task_state (sc_word s i) \<noteq> T_VACANT"

lemma word_next_generation:
  "word_next a b \<Longrightarrow> task_generation b = task_generation a \<and> (task_state a \<noteq> T_VACANT \<longrightarrow> task_state b \<noteq> T_VACANT)
     \<or> task_generation b = task_next_generation (task_generation a)"
  unfolding word_next_def by (elim disjE conjE insertE) simp_all

lemma sched_step_generation:
  assumes "sched_inv s" "sched_step s l s'"
  shows "task_gen s' i = task_gen s i \<and> (task_live s i \<longrightarrow> task_live s' i) \<or> task_gen s' i = cyc_next (2 ^ 56) (task_gen s i)"
proof (cases "i < MAX_TASKS")
  case True
  then show ?thesis
    using word_next_generation [OF sched_step_word [OF assms(2,1) True]]
      unat_task_next_generation [of "task_generation (sc_word s i)"]
    by (auto simp: task_gen_def task_live_def)
qed (simp add: task_gen_def task_live_def)

interpretation task_slots: generation_slots "2 ^ 56" sched_move sched_inv task_gen task_live
proof
  fix s t :: scheduler and i
  assume inv: "sched_inv s"
  have "i < MAX_TASKS \<Longrightarrow> task_generation (sc_word s i) \<noteq> 0"
    using inv by (auto simp: sched_inv_def sc_word_def all_set_conv_all_nth slot_ok_generation)
  then show "0 < task_gen s i \<and> task_gen s i < 2 ^ 56"
    using unat_task_generation [of "sc_word s i"] by (auto simp: task_gen_def unat_gt_0)
  assume "sched_move s t"
  then obtain l where step: "sched_step s l t" by (auto simp: sched_move_def)
  show "sched_inv t" using step inv by (rule sched_step_inv)
  show "task_gen t i = task_gen s i \<or> task_gen t i = cyc_next (2 ^ 56) (task_gen s i)"
    using sched_step_generation [OF inv step, of i] by auto
  assume "task_live s i" "\<not> task_live t i"
  then have "task_gen t i = cyc_next (2 ^ 56) (task_gen s i)"
    using sched_step_generation [OF inv step, of i] by auto
  then show "task_gen t i \<noteq> task_gen s i" using cyc_next_neq [of "2 ^ 56" "task_gen s i"] by simp
qed simp

section \<open>Claims\<close>

text \<open>A task that some processor has claimed and not yet finished.\<close>

definition held :: "scheduler \<Rightarrow> task_handle \<Rightarrow> bool" where
  "held s h \<longleftrightarrow> unat (th_slot h) < MAX_TASKS \<and> task_generation (sc_word s (unat (th_slot h))) = th_generation h
     \<and> word_held (sc_word s (unat (th_slot h)))"

lemma claim_loop_result:
  assumes "claim_loop quiet c is s = (res, s')" "\<forall>i \<in> set is. i < length (sc_tasks s)"
  shows "(case find (\<lambda>i. task_state (sc_word s i) = T_RUNNABLE) is of
      None \<Rightarrow> res = None \<and> s' = s
    | Some i \<Rightarrow> res = Some (slot_task s i) \<and> sc_word s' i = task_pack (task_generation (sc_word s i)) T_RUNNING
        \<and> (\<forall>j. j \<noteq> i \<longrightarrow> sc_tasks s' ! j = sc_tasks s ! j)
        \<and> current_task s' c = (if c < length (sc_cpus s) \<and> (of_nat i :: u8) \<noteq> NO_CPU_TASK then res else current_task s' c))"
  using assms
proof (induction "is")
  case (Cons i "is")
  show ?case
  proof (cases "task_state (sc_word s i) = T_RUNNABLE")
    case True
    have i: "i < length (sc_tasks s)" using Cons.prems(2) by simp
    let ?s = "put_word s i (task_pack (task_generation (sc_word s i)) T_RUNNING)"
    have "res = Some (slot_task s i)" and s': "s' = cpu_update ?s c (\<lambda>cpu. cpu\<lparr>cs_current_slot := of_nat i,
        cs_current_generation := task_generation (sc_word s i), cs_switches := cs_switches cpu + 1\<rparr>)"
      using Cons.prems(1) True by (auto simp: quiet_def Let_def)
    moreover have "sc_tasks s' ! j = (if j = i then (sc_tasks s ! i)\<lparr>ts_state := task_pack (task_generation (sc_word s i)) T_RUNNING\<rparr>
        else sc_tasks s ! j)" for j
      using i by (simp add: s' cpu_update_def put_word_def sc_update_nth)
    moreover have "length (sc_cpus ?s) = length (sc_cpus s)" by (simp add: put_word_def)
    ultimately show ?thesis using True
      by (auto simp: sc_word_def current_task_def slice_get_def cpu_update_def)
  next
    case False
    then show ?thesis using Cons by (simp add: Let_def)
  qed
qed simp

lemma claim_next_result:
  assumes "claim_next quiet s c = (res, s')" "sched_inv s" "slice_get (sc_cpus s) c = Some cpu" "cs_online cpu"
  shows "(case find (\<lambda>i. task_state (sc_word s i) = T_RUNNABLE) (claim_order (cs_cursor cpu)) of
      None \<Rightarrow> res = None \<and> (\<forall>j. sc_tasks s' ! j = sc_tasks s ! j)
    | Some i \<Rightarrow> res = Some (slot_task s i) \<and> sc_word s' i = task_pack (task_generation (sc_word s i)) T_RUNNING
        \<and> (\<forall>j. j \<noteq> i \<longrightarrow> sc_tasks s' ! j = sc_tasks s ! j) \<and> current_task s' c = res)"
proof -
  let ?s = "advance s c"
  have on: "cpu_online s c" "sc_cpus s ! c = cpu" "c < length (sc_cpus s)"
    using assms(3,4) by (auto simp: cpu_online_def slice_get_def split: if_splits)
  have word: "sc_word ?s = sc_word s" "sc_tasks ?s = sc_tasks s" "length (sc_cpus ?s) = length (sc_cpus s)"
    by (simp_all add: sc_word_def fun_eq_iff)
  have loop: "claim_loop quiet c (claim_order (cs_cursor cpu)) ?s = (res, s')"
    using assms(1) on by (simp add: claim_next_eq)
  have bound: "\<forall>i \<in> set (claim_order (cs_cursor cpu)). i < length (sc_tasks ?s)"
    using set_claim_order [of "cs_cursor cpu"] assms(2) by (auto simp: word sched_inv_def)
  note result = claim_loop_result [OF loop bound, unfolded word]
  show ?thesis
  proof (cases "find (\<lambda>i. task_state (sc_word s i) = T_RUNNABLE) (claim_order (cs_cursor cpu))")
    case None
    then show ?thesis using result by (simp add: word)
  next
    case (Some i)
    then have "i \<in> set (claim_order (cs_cursor cpu))" by (auto simp: find_Some_iff)
    then have "i < MAX_TASKS" using set_claim_order [of "cs_cursor cpu"] by auto
    then have "unat (of_nat i :: u8) \<noteq> unat NO_CPU_TASK" by (simp add: unat_of_nat_u8)
    then have "(of_nat i :: u8) \<noteq> NO_CPU_TASK" by metis
    then show ?thesis using result Some on by simp
  qed
qed

text \<open>A claim takes a runnable task and leaves it held.\<close>

lemma claimed_task:
  assumes "claim_next quiet s c = (Some h, s')" "sched_inv s"
  shows "held s' h \<and> \<not> held s h \<and> current_task s' c = Some h \<and> sch_state s h = Some TsRunnable"
proof -
  obtain cpu where cpu: "slice_get (sc_cpus s) c = Some cpu" "cs_online cpu"
    using assms(1) by (auto simp: claim_next_def simp del: slice_get_Some split: option.splits if_splits)
  obtain i where i: "find (\<lambda>i. task_state (sc_word s i) = T_RUNNABLE) (claim_order (cs_cursor cpu)) = Some i"
    and res: "h = slot_task s i" "sc_word s' i = task_pack (task_generation (sc_word s i)) T_RUNNING" "current_task s' c = Some h"
    using claim_next_result [OF assms cpu] by (auto split: option.splits)
  have run: "task_state (sc_word s i) = T_RUNNABLE" and "i \<in> set (claim_order (cs_cursor cpu))"
    using i by (auto simp: find_Some_iff)
  then have lt: "i < MAX_TASKS" using set_claim_order [of "cs_cursor cpu"] by auto
  then have index: "unat (of_nat i :: u8) = i" by (simp add: unat_of_nat_u8)
  have "sc_slot s h = Some (sc_tasks s ! i)" using lt assms(2) by (simp add: sc_slot_def slice_get_def res(1) index sched_inv_def)
  then show ?thesis
    using run res lt index by (simp add: held_def word_held_def sch_state_def sc_word_def)
qed

lemma held_kept:
  assumes "sched_step s l s'" "sched_inv s" "held s h" "l \<noteq> Finished h"
  shows "held s' h"
proof -
  let ?i = "unat (th_slot h)"
  have i: "?i < length (sc_tasks s)" and ok: "slot_ok (sc_tasks s ! ?i)"
    using assms(2,3) by (auto simp: sched_inv_def held_def all_set_conv_all_nth)
  show ?thesis
  proof (cases "\<exists>k. l = Finished k")
    case False
    then have "slot_next True (sc_tasks s ! ?i) (sc_tasks s' ! ?i)"
      using sched_step_moves [OF assms(1)] assms(2) i by (auto simp: sched_inv_def moves_in_def)
    then show ?thesis using ok assms(3) by (simp add: slot_next_def held_def sc_word_def)
  next
    case True
    then obtain k where k: "l = Finished k" by blast
    from assms(1) k obtain outcome where fin: "sch_finish quiet s k outcome = Some (True, s')"
      by (auto elim!: sched_step.cases split: if_splits)
    note out = finish_outcome [OF fin]
    have "?i \<noteq> unat (th_slot k)"
    proof
      assume same: "?i = unat (th_slot k)"
      then have "th_generation k = th_generation h" using out(3) assms(3) by (simp add: held_def)
      moreover have "th_slot k = th_slot h" using same by (simp add: unat_inject)
      ultimately have "k = h" by simp
      with k assms(4) show False by simp
    qed
    then have "sc_tasks s' ! ?i = sc_tasks s ! ?i" using out(1) i by (simp add: moves_in_def)
    then show ?thesis using assms(3) by (simp add: held_def sc_word_def)
  qed
qed

text \<open>Runs without the end of the turn of a given task.\<close>

inductive unfinished :: "task_handle \<Rightarrow> scheduler \<Rightarrow> scheduler \<Rightarrow> bool" for h where
  unfinished_refl: "unfinished h s s"
| unfinished_step: "\<lbrakk>unfinished h s t; sched_step t l u; l \<noteq> Finished h\<rbrakk> \<Longrightarrow> unfinished h s u"

lemma unfinished_held: "unfinished h s t \<Longrightarrow> sched_inv s \<Longrightarrow> held s h \<Longrightarrow> sched_inv t \<and> held t h"
  by (induction rule: unfinished.induct) (auto intro: sched_step_inv held_kept)

section \<open>The turn of a processor\<close>

definition runnable :: "scheduler \<Rightarrow> nat \<Rightarrow> bool" where
  "runnable s i \<longleftrightarrow> i < MAX_TASKS \<and> task_state (sc_word s i) = T_RUNNABLE"

definition cursor_of :: "scheduler \<Rightarrow> nat \<Rightarrow> usize" where
  "cursor_of s c = cs_cursor (sc_cpus s ! c)"

text \<open>
  Runs in which slot \<open>i\<close> stays runnable and processor \<open>c\<close> stays online, counting its claims.
\<close>

inductive passed_over :: "nat \<Rightarrow> nat \<Rightarrow> scheduler \<Rightarrow> nat \<Rightarrow> scheduler \<Rightarrow> bool" for c i where
  over_refl: "passed_over c i s 0 s"
| over_claim: "\<lbrakk>passed_over c i s k t; sched_step t (Claimed c res) u; cpu_online t c; runnable t i; runnable u i\<rbrakk>
    \<Longrightarrow> passed_over c i s (Suc k) u"
| over_other: "\<lbrakk>passed_over c i s k t; sched_step t l u; \<forall>res. l \<noteq> Claimed c res; runnable u i\<rbrakk>
    \<Longrightarrow> passed_over c i s k u"

lemma claim_order_hd: "i < MAX_TASKS \<Longrightarrow> unat cursor mod MAX_TASKS = i \<Longrightarrow> \<exists>rest. claim_order cursor = i # rest"
  by (auto simp: claim_order_def upt_conv_Cons)

lemma claim_at_cursor:
  assumes "claim_next quiet s c = (res, s')" "sched_inv s" "cpu_online s c" "runnable s i"
    "unat (cursor_of s c) mod MAX_TASKS = i"
  shows "\<not> runnable s' i"
proof -
  obtain cpu where cpu: "slice_get (sc_cpus s) c = Some cpu" "cs_online cpu"
    using assms(3) by (auto simp: cpu_online_def split: option.splits)
  then have "cursor_of s c = cs_cursor cpu" by (simp add: cursor_of_def)
  then obtain rest where "claim_order (cs_cursor cpu) = i # rest"
    using claim_order_hd assms(4,5) by (auto simp: runnable_def)
  then have "find (\<lambda>i. task_state (sc_word s i) = T_RUNNABLE) (claim_order (cs_cursor cpu)) = Some i"
    using assms(4) by (simp add: runnable_def)
  then show ?thesis using claim_next_result [OF assms(1,2) cpu] by (simp add: runnable_def)
qed

lemma step_cursor:
  assumes "sched_step s l s'" "sched_inv s" "c < MAX_CPUS"
  shows "cursor_of s' c = cursor_of (before_step l s) c"
proof -
  have "map cs_cursor (sc_cpus s') = map cs_cursor (sc_cpus (before_step l s))"
    using sched_step_moves [OF assms(1)] assms(2) by (simp add: sched_inv_def moves_in_def)
  then have "map cs_cursor (sc_cpus s') ! c = map cs_cursor (sc_cpus (before_step l s)) ! c" by simp
  moreover have "length (sc_cpus s') = MAX_CPUS" using sched_step_inv [OF assms(1,2)] by (simp add: sched_inv_def)
  ultimately show ?thesis using assms(2,3) by (simp add: cursor_of_def sched_inv_def)
qed

lemma advance_cursor:
  "cursor_of (advance s d) c = (if cpu_online s c \<and> c = d then cursor_of s c + 1 else cursor_of s c)"
  by (auto simp: cursor_of_def advance_def cpu_update_def cpu_online_def slice_get_def nth_list_update)

lemma other_cursor:
  assumes "sched_step s l s'" "sched_inv s" "c < MAX_CPUS" "\<forall>res. l \<noteq> Claimed c res"
  shows "cursor_of s' c = cursor_of s c"
  using step_cursor [OF assms(1-3)] assms(4) by (cases l) (auto simp: advance_cursor)

lemma passed_over_cursor:
  assumes "passed_over c i s k t" "sched_inv s" "c < MAX_CPUS" "unat (cursor_of s c) + k < 2 ^ 64" "i < MAX_TASKS"
  shows "sched_inv t \<and> unat (cursor_of t c) = unat (cursor_of s c) + k
    \<and> (\<forall>j < k. (unat (cursor_of s c) + j) mod MAX_TASKS \<noteq> i)"
  using assms
proof (induction rule: passed_over.induct)
  case (over_claim s k t res u)
  then have t: "sched_inv t" "unat (cursor_of t c) = unat (cursor_of s c) + k"
    "\<forall>j < k. (unat (cursor_of s c) + j) mod MAX_TASKS \<noteq> i" by auto
  have claim: "claim_next quiet t c = (res, u)" using over_claim.hyps(2) by (cases rule: sched_step.cases) (auto split: if_splits)
  have "cursor_of u c = cursor_of t c + 1"
    using step_cursor [OF over_claim.hyps(2) t(1) over_claim.prems(2)] over_claim.hyps(3) by (simp add: advance_cursor)
  then have "unat (cursor_of u c) = unat (cursor_of s c) + Suc k"
    using t(2) over_claim.prems(3) by (simp add: unat_add_no_overflow)
  moreover have "unat (cursor_of t c) mod MAX_TASKS \<noteq> i"
    using claim_at_cursor [OF claim t(1) over_claim.hyps(3,4)] over_claim.hyps(5) by blast
  moreover have "sched_inv u" using over_claim.hyps(2) t(1) by (rule sched_step_inv)
  ultimately show ?case using t(2,3) by (auto simp: less_Suc_eq)
next
  case (over_other s k t l u)
  then show ?case using other_cursor [OF over_other.hyps(2)] sched_step_inv [OF over_other.hyps(2)] by auto
qed simp

lemma turn_meets: "i < n \<Longrightarrow> \<exists>j < n. (a + j) mod n = (i :: nat)"
proof -
  assume i: "i < n"
  define j where "j = (i + (n - a mod n)) mod n"
  have "(a + j) mod n = (a mod n + (i + (n - a mod n))) mod n" by (simp add: j_def mod_simps)
  also have "a mod n < n" using i by simp
  then have "a mod n + (i + (n - a mod n)) = i + n" by simp
  finally show ?thesis using i by (intro exI [of _ j]) (auto simp: j_def)
qed

section \<open>Properties\<close>

text \<open>A scheduler with two tasks and two processors online.\<close>

definition sched_demo_task :: "u64 \<Rightarrow> task_slot" where
  "sched_demo_task st = task_slot_new\<lparr>ts_entry := 8, ts_state := task_pack 1 st\<rparr>"

definition sched_demo_cpu :: "bool \<Rightarrow> cpu_state" where
  "sched_demo_cpu on = cpu_state_new\<lparr>cs_online := on\<rparr>"

definition sched_demo_scheduler :: "u64 list \<Rightarrow> bool \<Rightarrow> bool \<Rightarrow> scheduler" where
  "sched_demo_scheduler states a b = \<lparr>sc_tasks = map sched_demo_task states @ replicate (24 - length states) task_slot_new,
     sc_cpus = sched_demo_cpu a # sched_demo_cpu b # replicate 6 cpu_state_new, sc_event_wakes = 0\<rparr>"

lemma sched_demo_vacant [simp]: "task_state (ts_state task_slot_new) = T_VACANT" "task_generation (ts_state task_slot_new) = 1"
  by (simp_all add: task_slot_new_def take_bit_eq_mod)

lemma sched_demo_new: "scheduler_new = sched_demo_scheduler [] False False"
proof -
  have "sched_demo_cpu False = cpu_state_new" by (simp add: sched_demo_cpu_def cpu_state_new_def)
  then show ?thesis by (simp add: scheduler_new_def sched_demo_scheduler_def numeral_eq_Suc)
qed

lemma sched_demo_fill: "(spawn_fill 8 0 None (task_slot_new\<lparr>ts_state := w\<rparr>))\<lparr>ts_state := task_pack 1 T_RUNNABLE\<rparr> = sched_demo_task T_RUNNABLE"
  by (simp add: spawn_fill_def sched_demo_task_def task_slot_new_def)

lemma sched_demo_state [simp]: "ts_state (sched_demo_task st) = task_pack 1 st"
  by (simp add: sched_demo_task_def)

lemma sched_demo_spawn:
  "snd (spawn_internal quiet (sched_demo_scheduler [] False False) 8 0 None) = sched_demo_scheduler [T_RUNNABLE] False False"
  "snd (spawn_internal quiet (sched_demo_scheduler [T_RUNNABLE] False False) 8 0 None) = sched_demo_scheduler [T_RUNNABLE, T_RUNNABLE] False False"
proof -
  have more: "replicate 24 task_slot_new = task_slot_new # replicate 23 task_slot_new"
    "replicate 23 task_slot_new = task_slot_new # replicate 22 task_slot_new"
    by (simp_all add: numeral_eq_Suc)
  show "snd (spawn_internal quiet (sched_demo_scheduler [] False False) 8 0 None) = sched_demo_scheduler [T_RUNNABLE] False False"
    "snd (spawn_internal quiet (sched_demo_scheduler [T_RUNNABLE] False False) 8 0 None) = sched_demo_scheduler [T_RUNNABLE, T_RUNNABLE] False False"
    by (simp_all add: spawn_internal_def sched_demo_scheduler_def upt_conv_Cons sc_word_def quiet_def put_word_def sc_update_def
        sched_demo_fill more Let_def)
qed

lemma sched_demo_online:
  "snd (online_cpu (sched_demo_scheduler sts False b) 0) = sched_demo_scheduler sts True b"
  "snd (online_cpu (sched_demo_scheduler sts a False) 1) = sched_demo_scheduler sts a True"
  by (simp_all add: online_cpu_def sched_demo_scheduler_def slice_get_def cpu_update_def sched_demo_cpu_def)

abbreviation sched_demo_two :: scheduler where
  "sched_demo_two \<equiv> sched_demo_scheduler [T_RUNNABLE, T_RUNNABLE] True True"

lemma sched_demo_two_reachable: "sched_move\<^sup>*\<^sup>* scheduler_new sched_demo_two"
proof -
  have "sched_move scheduler_new (sched_demo_scheduler [T_RUNNABLE] False False)"
    using sc_spawns [of "sched_demo_scheduler [] False False" 8 0 None] by (auto simp: sched_demo_spawn sched_demo_new sched_move_def)
  moreover have "sched_move (sched_demo_scheduler [T_RUNNABLE] False False) (sched_demo_scheduler [T_RUNNABLE, T_RUNNABLE] False False)"
    using sc_spawns [of "sched_demo_scheduler [T_RUNNABLE] False False" 8 0 None] by (auto simp: sched_demo_spawn sched_move_def)
  moreover have "sched_move (sched_demo_scheduler [T_RUNNABLE, T_RUNNABLE] False False) (sched_demo_scheduler [T_RUNNABLE, T_RUNNABLE] True False)"
    using sc_onlines [of "sched_demo_scheduler [T_RUNNABLE, T_RUNNABLE] False False" 0] by (auto simp: sched_demo_online sched_move_def)
  moreover have "sched_move (sched_demo_scheduler [T_RUNNABLE, T_RUNNABLE] True False) sched_demo_two"
    using sc_onlines [of "sched_demo_scheduler [T_RUNNABLE, T_RUNNABLE] True False" 1] unfolding sched_demo_online
    by (auto simp: sched_move_def)
  ultimately show ?thesis by (meson rtranclp.rtrancl_refl rtranclp.rtrancl_into_rtrancl)
qed

lemma sched_demo_words: "sc_word sched_demo_two 0 = task_pack 1 T_RUNNABLE" "sc_word sched_demo_two 1 = task_pack 1 T_RUNNABLE"
  by (simp_all add: sc_word_def sched_demo_scheduler_def)

lemma sched_demo_order: "\<exists>rest. claim_order 0 = 0 # 1 # rest"
  by (simp add: claim_order_def upt_conv_Cons)

lemma sched_demo_cpus: "slice_get (sc_cpus sched_demo_two) 0 = Some (sched_demo_cpu True)" "slice_get (sc_cpus sched_demo_two) 1 = Some (sched_demo_cpu True)"
  by (simp_all add: sched_demo_scheduler_def)

lemma sched_demo_claim:
  obtains s1 where "claim_next quiet sched_demo_two 0 = (Some \<lparr>th_slot = 0, th_generation = 1\<rparr>, s1)"
    "sc_word s1 0 = task_pack 1 T_RUNNING" "sc_word s1 1 = task_pack 1 T_RUNNABLE" "sched_inv s1"
    "slice_get (sc_cpus s1) 1 = Some (sched_demo_cpu True)"
proof -
  obtain res s1 where claim: "claim_next quiet sched_demo_two 0 = (res, s1)" by fastforce
  have inv: "sched_inv sched_demo_two" by (rule sched_inv_reachable [OF sched_demo_two_reachable])
  have online: "cs_online (sched_demo_cpu True)" "cs_cursor (sched_demo_cpu True) = 0" by (simp_all add: sched_demo_cpu_def cpu_state_new_def)
  obtain rest where "claim_order 0 = 0 # 1 # rest" using sched_demo_order by blast
  then have "find (\<lambda>i. task_state (sc_word sched_demo_two i) = T_RUNNABLE) (claim_order (cs_cursor (sched_demo_cpu True))) = Some 0"
    by (simp add: online sched_demo_words)
  then have out: "res = Some (slot_task sched_demo_two 0)" "sc_word s1 0 = task_pack 1 T_RUNNING"
    "sc_tasks s1 ! 1 = sc_tasks sched_demo_two ! 1"
    using claim_next_result [OF claim inv sched_demo_cpus(1) online(1)] by (simp_all add: sched_demo_words take_bit_eq_mod)
  have "sched_inv s1" using sc_claims [OF claim] inv by (rule sched_step_inv)
  moreover have "slice_get (sc_cpus s1) 1 = Some (sched_demo_cpu True)"
  proof -
    have loop: "claim_loop quiet 0 (claim_order 0) (advance sched_demo_two 0) = (res, s1)"
      using claim sched_demo_cpus(1) online by (simp add: claim_next_eq cpu_online_def)
    have "sc_cpus s1 ! 1 = sc_cpus sched_demo_two ! 1 \<and> length (sc_cpus s1) = 8"
      using loop \<open>claim_order 0 = 0 # 1 # rest\<close> sched_demo_words
      by (auto simp: Let_def quiet_def cpu_update_def put_word_def sc_update_def advance_def sc_word_def sched_demo_scheduler_def
          split: if_splits)
    then show ?thesis using sched_demo_cpus(2) by (simp add: slice_get_def split: if_splits)
  qed
  moreover have "sc_word s1 1 = task_pack 1 T_RUNNABLE" using out(3) sched_demo_words(2) by (simp add: sc_word_def)
  ultimately show thesis using that claim out(1,2) by (simp add: sched_demo_words take_bit_eq_mod)
qed

text \<open>
  C22: In every reachable scheduler each of the 24 state words has one of the seven shapes the code
  knows, with a non-zero 56-bit generation, and only a running or blocked task waits for an event
  object or a deadline; and every operation moves the word of every task along the life cycle
  vacant, runnable, running, blocked or stopping, completed, vacant with the next generation.
\<close>

theorem task_words_well_formed:
  assumes "sched_move\<^sup>*\<^sup>* scheduler_new s"
  shows "length (sc_tasks s) = MAX_TASKS \<and> (\<forall>slot \<in> set (sc_tasks s). slot_ok slot)
    \<and> (\<forall>l s' i. sched_step s l s' \<longrightarrow> i < MAX_TASKS \<longrightarrow> word_next (sc_word s i) (sc_word s' i))"
  using sched_inv_reachable [OF assms] sched_step_word by (auto simp: sched_inv_def)

theorem task_words_well_formed_witness:
  "word_next (sc_word scheduler_new 3) (sc_word (snd (spawn_internal quiet scheduler_new 8 0 None)) 3)"
  using task_words_well_formed [OF rtranclp.rtrancl_refl] sc_spawns [of scheduler_new 8 0 None] by auto



text \<open>
  C23: Round robin: while a task stays runnable and a processor stays online, the processor makes
  fewer than 24 claims before it takes the task, no matter what the other processors and the other
  tasks do, as long as its claim counter does not wrap around.
\<close>

theorem claim_round_robin:
  assumes "sched_move\<^sup>*\<^sup>* scheduler_new s" "passed_over c i s k t" "c < MAX_CPUS" "i < MAX_TASKS"
    "unat (cursor_of s c) + k < 2 ^ 64"
  shows "k < MAX_TASKS"
proof (rule ccontr)
  assume "\<not> k < MAX_TASKS"
  obtain j where "j < MAX_TASKS" "(unat (cursor_of s c) + j) mod MAX_TASKS = i"
    using turn_meets [OF assms(4), of "unat (cursor_of s c)"] by blast
  then show False
    using passed_over_cursor [OF assms(2) sched_inv_reachable [OF assms(1)] assms(3,5,4)] \<open>\<not> k < MAX_TASKS\<close> by auto
qed

theorem claim_round_robin_witness:
  "\<exists>t. passed_over 0 1 sched_demo_two 1 t \<and> (1 :: nat) < MAX_TASKS"
proof -
  obtain s1 where s1: "claim_next quiet sched_demo_two 0 = (Some \<lparr>th_slot = 0, th_generation = 1\<rparr>, s1)"
    "sc_word s1 1 = task_pack 1 T_RUNNABLE"
    using sched_demo_claim by metis
  have "passed_over 0 1 sched_demo_two (Suc 0) s1"
  proof (rule over_claim [OF over_refl])
    show "sched_step sched_demo_two (Claimed 0 (Some \<lparr>th_slot = 0, th_generation = 1\<rparr>)) s1" using s1(1) by (rule sc_claims)
  qed (use s1(2) sched_demo_words sched_demo_cpus(1) in
      \<open>simp_all add: runnable_def cpu_online_def sched_demo_cpu_def cpu_state_new_def del: slice_get_Some\<close>)
  then have run: "passed_over 0 1 sched_demo_two 1 s1" by simp
  have "cursor_of sched_demo_two 0 = 0" by (simp add: cursor_of_def sched_demo_scheduler_def sched_demo_cpu_def cpu_state_new_def)
  then show ?thesis using claim_round_robin [OF sched_demo_two_reachable run] run by auto
qed

text \<open>
  A handle of a reclaimed task is refused by every operation until the slot has been reclaimed
  \<open>2 ^ 56 - 2\<close> further times.
\<close>

lemma reclaimed_task_stays_dead:
  assumes "sched_move\<^sup>*\<^sup>* scheduler_new s" "reclaim_completed s h = (True, s1)" "th_generation h = take_bit 56 (th_generation h)"
    "retire_run sched_move (\<lambda>s. task_gen s (unat (th_slot h))) s1 k u" "k < 2 ^ 56 - 2"
  shows "sch_state u h = None"
proof -
  let ?i = "unat (th_slot h)"
  have inv: "sched_inv s" by (rule sched_inv_reachable [OF assms(1)])
  have w: "?i < MAX_TASKS" "sc_word s ?i = task_pack (th_generation h) T_COMPLETED"
    using assms(2) inv
    by (auto simp: reclaim_completed_def sc_slot_def sc_word_def sched_inv_def split: option.splits if_splits)
  have word: "sc_word s1 ?i = task_pack (task_next_generation (th_generation h)) T_VACANT"
    using assms(2) w(1) inv
    by (auto simp: reclaim_completed_def sc_slot_def sc_word_def put_word_def sc_update_nth Let_def sched_inv_def
        split: option.splits if_splits)
  have "sched_move s s1" using sc_reclaims [of s h] assms(2) by (auto simp: sched_move_def)
  with inv have "task_gen u ?i \<noteq> task_gen s ?i"
    using w word assms(4,5) by (intro task_slots.freed_handle_dead [of s s1 ?i k u]) (simp_all add: task_live_def)
  then have "task_generation (sc_word u ?i) \<noteq> th_generation h"
    using w assms(3) by (auto simp: task_gen_def)
  then show ?thesis by (auto simp: sch_state_def sc_slot_def sc_word_def Let_def split: option.splits)
qed

end
