(* ===== verification/Scheduler_Races.thy ===== *)
theory Scheduler_Races
  imports Scheduler_Properties
begin

text \<open>
  Operations of the scheduler under interference. The loops of \<open>finish\<close> and \<open>wake\<close> return although
  other processors run arbitrary operations between their atomic accesses, and a wake-up that
  arrives while a task runs is not lost. The timer path \<open>wake_due\<close> is not safe in the same way: it can
  clear a wait registration that the task made after the timer looked at it.
\<close>

section \<open>How others change a held task\<close>

definition held_path :: "u64 \<Rightarrow> u64 \<Rightarrow> bool" where
  "held_path w w' \<longleftrightarrow> w' = w
     \<or> task_state w = T_RUNNING \<and> (w' = w OR WAKE_PENDING \<or> w' = task_pack (task_generation w) T_STOPPING)"

lemma running_not_pending: "task_pack g T_RUNNING AND WAKE_PENDING = 0"
  by (rule bit_word_eqI) (auto simp: task_pack_def task_masks bit_simps)

lemma task_pack_take [simp]: "task_pack (take_bit 56 g) st = task_pack g st"
  by (simp add: task_pack_def task_masks take_bit_eq_mask)

lemma held_path_refl [simp]: "held_path w w"
  by (simp add: held_path_def)

lemma held_path_trans: "held_path a b \<Longrightarrow> held_path b c \<Longrightarrow> held_path a c"
  by (auto simp: held_path_def)

lemma held_path_generation: "held_path w w' \<Longrightarrow> task_generation w' = task_generation w"
  by (auto simp: held_path_def)

lemma held_path_held: "held_path w w' \<Longrightarrow> word_held w \<Longrightarrow> word_held w'"
  by (auto simp: held_path_def word_held_def)

lemma held_path_stopping: "held_path w w' \<Longrightarrow> task_state w = T_STOPPING \<Longrightarrow> w' = w"
  by (simp add: held_path_def)

lemma held_path_pending:
  assumes "held_path w w'" "w OR WAKE_PENDING = w"
  shows "task_state w' = T_STOPPING \<or> w' OR WAKE_PENDING = w'"
proof -
  consider "w' = w" | "w' = w OR WAKE_PENDING" | "w' = task_pack (task_generation w) T_STOPPING"
    using assms(1) unfolding held_path_def by blast
  then show ?thesis by cases (use assms(2) in simp_all)
qed

lemma pending_bit: "w OR WAKE_PENDING = w \<Longrightarrow> w AND WAKE_PENDING \<noteq> (0 :: u64)"
  by (metis pending_set(1))

lemma word_next_held: "word_next a b \<Longrightarrow> word_held a \<Longrightarrow> word_held b \<Longrightarrow> held_path a b"
  unfolding word_next_def held_path_def word_held_def by (elim disjE conjE insertE) simp_all

lemma step_held_path:
  assumes "sched_step s l t" "sched_inv s" "held s h" "l \<noteq> Finished h"
  shows "held_path (sc_word s (unat (th_slot h))) (sc_word t (unat (th_slot h)))"
  using sched_step_word [OF assms(1,2), of "unat (th_slot h)"] held_kept [OF assms] assms(3)
  by (intro word_next_held) (auto simp: held_def)

lemma unfinished_path:
  "unfinished h s t \<Longrightarrow> sched_inv s \<Longrightarrow> held s h \<Longrightarrow>
     held_path (sc_word s (unat (th_slot h))) (sc_word t (unat (th_slot h)))"
proof (induction rule: unfinished.induct)
  case (unfinished_step s t l u)
  then have "sched_inv t" "held t h" using unfinished_held by auto
  then show ?case using unfinished_step step_held_path held_path_trans by blast
qed simp

text \<open>
  The interference that \<open>finish\<close> and \<open>wake\<close> tolerate: at each point, other processors run any
  operations except the end of this task's turn.
\<close>

definition others_run :: "task_handle \<Rightarrow> interference \<Rightarrow> bool" where
  "others_run h env \<longleftrightarrow> (\<forall>n s. sched_inv s \<longrightarrow> held s h \<longrightarrow> unfinished h s (env n s))"

lemma quiet_others: "others_run h quiet"
  by (simp add: others_run_def quiet_def unfinished_refl)

text \<open>What holds of the shared state while this processor is in the middle of an operation.\<close>

definition in_flight :: "task_handle \<Rightarrow> u64 \<Rightarrow> scheduler \<Rightarrow> bool" where
  "in_flight h w s \<longleftrightarrow> sched_inv s \<and> held s h \<and> held_path w (sc_word s (unat (th_slot h)))"

lemma in_flight_env:
  assumes "in_flight h w s" "others_run h env"
  shows "in_flight h w (env n s)"
proof -
  have run: "unfinished h s (env n s)" using assms by (simp add: in_flight_def others_run_def)
  then have "sched_inv (env n s)" "held (env n s) h" using unfinished_held assms(1) by (auto simp: in_flight_def)
  then show ?thesis
    using unfinished_path [OF run] assms(1) held_path_trans by (auto simp: in_flight_def)
qed

fun clearing :: "slot_store \<Rightarrow> bool" where
  "clearing (StoreDeadline d) \<longleftrightarrow> d = TASK_NO_DEADLINE"
| "clearing (StoreWaitObject x) \<longleftrightarrow> x = 0"

lemma clearing_ok: "clearing st \<Longrightarrow> slot_ok slot \<Longrightarrow> slot_ok (apply_store st slot)"
  by (cases st) (auto simp: slot_ok_def)

lemma in_flight_store:
  assumes "in_flight h w s" "clearing st"
  shows "in_flight h w (sc_update s (unat (th_slot h)) (apply_store st))"
proof -
  let ?s = "sc_update s (unat (th_slot h)) (apply_store st)"
  have i: "unat (th_slot h) < length (sc_tasks s)" using assms(1) by (simp add: in_flight_def sched_inv_def held_def)
  then have "sc_word ?s j = sc_word s j" for j by (simp add: sc_word_def sc_update_nth)
  moreover have "sched_inv ?s"
    using assms i clearing_ok by (auto simp: in_flight_def sched_inv_def all_set_conv_all_nth sc_update_nth)
  ultimately show ?thesis using assms(1) by (simp add: in_flight_def held_def)
qed

lemma in_flight_stores:
  assumes "in_flight h w s" "others_run h env" "\<forall>st \<in> set sts. clearing st"
  shows "in_flight h w (snd (store_all env (unat (th_slot h)) n sts s))"
  using assms(1,3)
proof (induction sts arbitrary: n s)
  case (Cons st sts)
  then show ?case using in_flight_store [OF in_flight_env [OF _ assms(2)]] by simp
qed simp

lemma in_flight_wake:
  assumes "in_flight h v t" "sc_word t (unat (th_slot h)) = v" "task_state v = T_RUNNING"
  shows "in_flight h v (put_word t (unat (th_slot h)) (v OR WAKE_PENDING))"
proof -
  let ?i = "unat (th_slot h)" and ?s = "put_word t (unat (th_slot h)) (v OR WAKE_PENDING)"
  have i: "?i < length (sc_tasks t)" and ok: "\<forall>slot \<in> set (sc_tasks t). slot_ok slot"
    using assms(1) by (auto simp: in_flight_def sched_inv_def held_def)
  have word: "sc_word ?s ?i = v OR WAKE_PENDING" using i by (simp add: sc_word_def put_word_def sc_update_nth)
  have slot: "slot_ok (sc_tasks t ! ?i)" "ts_state (sc_tasks t ! ?i) = v"
    using ok i assms(2) by (auto simp: sc_word_def)
  have "word_next v (v OR WAKE_PENDING)" using assms(3) by (simp add: word_next_def)
  moreover have "word_ok v" using slot by (simp add: slot_ok_def)
  ultimately have "word_ok (v OR WAKE_PENDING)" by (rule word_next_ok)
  then have "slot_ok ((sc_tasks t ! ?i)\<lparr>ts_state := v OR WAKE_PENDING\<rparr>)"
    using slot assms(3) by (simp add: slot_ok_def)
  then have "sched_inv ?s"
    using assms(1) ok i by (auto simp: in_flight_def sched_inv_def put_word_def all_set_conv_all_nth sc_update_nth)
  then show ?thesis using word assms by (auto simp: in_flight_def held_def word_held_def held_path_def)
qed

section \<open>The loops return\<close>

text \<open>A held word can change at most twice under the others.\<close>

definition held_rank :: "u64 \<Rightarrow> nat" where
  "held_rank w = (if task_state w \<noteq> T_RUNNING then 0 else if w OR WAKE_PENDING = w then 1 else 2)"

lemma held_rank_less: "held_path w w' \<Longrightarrow> w' \<noteq> w \<Longrightarrow> held_rank w' < held_rank w"
  by (auto simp: held_path_def held_rank_def)

text \<open>Every plan for a held task that attempts an exchange succeeds in the end.\<close>

lemma cas_loop_returns:
  assumes "in_flight h w s" "others_run h env"
    "\<And>v. \<lbrakk>word_held v; task_generation v = th_generation h\<rbrakk> \<Longrightarrow>
       (case plan v of Return b \<Rightarrow> True | Settle sts \<Rightarrow> \<forall>st \<in> set sts. clearing st | Attempt sts x \<Rightarrow> \<forall>st \<in> set sts. clearing st)"
  shows "\<exists>v b s'. cas_loop env plan (unat (th_slot h)) n s = Some (b, s') \<and> held_path w v
    \<and> word_held v \<and> task_generation v = th_generation h
    \<and> (case plan v of Return b' \<Rightarrow> b = b' \<and> in_flight h v s'
       | Settle sts \<Rightarrow> b \<and> in_flight h v s'
       | Attempt sts x \<Rightarrow> b \<and> (\<exists>t. in_flight h v t \<and> sc_word t (unat (th_slot h)) = v \<and> s' = put_word t (unat (th_slot h)) x))"
  using assms(1)
proof (induction "held_rank (sc_word s (unat (th_slot h)))" arbitrary: w s n rule: less_induct)
  case less
  let ?i = "unat (th_slot h)"
  define v where "v = sc_word s ?i"
  have v: "held_path w v" "word_held v" "task_generation v = th_generation h"
    and here: "in_flight h v s"
    using less.prems by (auto simp: in_flight_def v_def held_def)
  show ?case
  proof (cases "plan v")
    case (Return b)
    then have "cas_loop env plan ?i n s = Some (b, s)" by (simp add: cas_loop.simps v_def)
    then show ?thesis using v here Return by (intro exI [of _ v] exI [of _ b] exI [of _ s]) simp
  next
    case (Settle sts)
    define s1 where "s1 = snd (store_all env ?i n sts s)"
    have "cas_loop env plan ?i n s = Some (True, s1)" using Settle by (simp add: cas_loop.simps v_def s1_def)
    moreover have "in_flight h v s1"
      unfolding s1_def using assms(3) [OF v(2,3)] Settle by (intro in_flight_stores [OF here assms(2)]) simp
    ultimately show ?thesis using v Settle by (intro exI [of _ v] exI [of _ True] exI [of _ s1]) simp
  next
    case (Attempt sts x)
    obtain m s1 where stores: "store_all env ?i n sts s = (m, s1)" by fastforce
    have "in_flight h v (snd (store_all env ?i n sts s))"
      using assms(3) [OF v(2,3)] Attempt by (intro in_flight_stores [OF here assms(2)]) simp
    then have env: "in_flight h v (env m s1)" using in_flight_env [OF _ assms(2)] by (simp add: stores)
    show ?thesis
    proof (cases "sc_word (env m s1) ?i = v")
      case True
      then have "cas_loop env plan ?i n s = Some (True, put_word (env m s1) ?i x)"
        using Attempt stores by (simp add: cas_loop.simps v_def)
      then show ?thesis using v Attempt env True
        by (intro exI [of _ v] exI [of _ True] exI [of _ "put_word (env m s1) ?i x"]) auto
    next
      case False
      then have loop: "cas_loop env plan ?i n s = cas_loop env plan ?i (Suc m) (env m s1)"
        using Attempt stores by (simp add: cas_loop.simps v_def)
      have "held_rank (sc_word (env m s1) ?i) < held_rank (sc_word s ?i)"
        using held_rank_less False env by (auto simp: in_flight_def v_def)
      moreover have "in_flight h w (env m s1)" using env v(1) held_path_trans by (auto simp: in_flight_def)
      ultimately show ?thesis unfolding loop by (rule less.hyps)
    qed
  qed
qed

lemma finish_plan_held:
  "word_held v \<Longrightarrow> task_generation v = g \<Longrightarrow> \<exists>sts. (\<forall>st \<in> set sts. clearing st)
     \<and> finish_plan outcome g v = Attempt sts (task_pack g
         (if task_state v = T_STOPPING then T_COMPLETED else finish_target outcome (v AND WAKE_PENDING \<noteq> 0)))"
  by (auto simp: finish_plan_def word_held_def Let_def)

lemma wake_plan_held:
  "word_held v \<Longrightarrow> task_generation v = g \<Longrightarrow>
     wake_plan g v = (if task_state v = T_STOPPING then Return False
       else if v OR WAKE_PENDING = v then Settle [StoreWaitObject 0] else Attempt [StoreWaitObject 0] (v OR WAKE_PENDING))"
  by (auto simp: wake_plan_def word_held_def)

lemma held_in_flight: "sched_inv s \<Longrightarrow> held s h \<Longrightarrow> in_flight h (sc_word s (unat (th_slot h))) s"
  by (simp add: in_flight_def)

lemma in_flight_slot: "in_flight h w s \<Longrightarrow> sc_slot s h = Some (sc_tasks s ! unat (th_slot h))"
  by (auto simp: in_flight_def held_def sched_inv_def sc_slot_def slice_get_def)

text \<open>The word that the successful exchange of \<open>finish\<close> replaces decides the state it leaves.\<close>

lemma finish_returns:
  assumes "in_flight h w s" "others_run h env" "ts_context_saved (sc_tasks s ! unat (th_slot h))"
  shows "\<exists>v s'. sch_finish env s h outcome = Some (True, s') \<and> held_path w v \<and> word_held v
    \<and> task_generation v = th_generation h \<and> sc_slot s' h = Some (sc_tasks s' ! unat (th_slot h))
    \<and> sc_word s' (unat (th_slot h)) = task_pack (th_generation h)
        (if task_state v = T_STOPPING then T_COMPLETED else finish_target outcome (v AND WAKE_PENDING \<noteq> 0))"
proof -
  let ?i = "unat (th_slot h)" and ?plan = "finish_plan outcome (th_generation h)"
  have run: "sch_finish env s h outcome = cas_loop env ?plan ?i 0 s"
    using in_flight_slot [OF assms(1)] assms(3) by (simp add: sch_finish_def)
  have "case ?plan v of Return b \<Rightarrow> True | Settle sts \<Rightarrow> \<forall>st \<in> set sts. clearing st | Attempt sts x \<Rightarrow> \<forall>st \<in> set sts. clearing st"
    if "word_held v" "task_generation v = th_generation h" for v
    using finish_plan_held [OF that, of outcome] by auto
  from cas_loop_returns [where plan = ?plan and n = 0, OF assms(1,2) this] obtain v b s' where
    out: "cas_loop env ?plan ?i 0 s = Some (b, s')" "held_path w v" "word_held v" "task_generation v = th_generation h"
    and plan: "case ?plan v of Return b' \<Rightarrow> b = b' \<and> in_flight h v s' | Settle sts \<Rightarrow> b \<and> in_flight h v s'
      | Attempt sts x \<Rightarrow> b \<and> (\<exists>t. in_flight h v t \<and> sc_word t ?i = v \<and> s' = put_word t ?i x)"
    by blast
  from plan finish_plan_held [OF out(3,4), of outcome] obtain t where "b" "in_flight h v t"
    "s' = put_word t ?i (task_pack (th_generation h)
       (if task_state v = T_STOPPING then T_COMPLETED else finish_target outcome (v AND WAKE_PENDING \<noteq> 0)))"
    by auto
  then have "sc_word s' ?i = task_pack (th_generation h)
       (if task_state v = T_STOPPING then T_COMPLETED else finish_target outcome (v AND WAKE_PENDING \<noteq> 0))"
    "sc_slot s' h = Some (sc_tasks s' ! ?i)"
    by (auto simp: in_flight_def sched_inv_def held_def sc_word_def put_word_def sc_update_nth sc_slot_def slice_get_def)
  then show ?thesis using out \<open>b\<close> run by auto
qed

lemma wake_returns:
  assumes "in_flight h w s" "others_run h env"
  shows "\<exists>b s'. sch_wake env s h = Some (b, s') \<and> in_flight h w s'
    \<and> (b \<longrightarrow> task_state (sc_word s' (unat (th_slot h))) = T_STOPPING
          \<or> sc_word s' (unat (th_slot h)) OR WAKE_PENDING = sc_word s' (unat (th_slot h)))
    \<and> (\<not> b \<longrightarrow> task_state (sc_word s' (unat (th_slot h))) = T_STOPPING)"
proof -
  let ?i = "unat (th_slot h)" and ?plan = "wake_plan (th_generation h)"
  have run: "sch_wake env s h = cas_loop env ?plan ?i 0 s"
    using in_flight_slot [OF assms(1)] by (simp add: sch_wake_def)
  have "case ?plan v of Return b \<Rightarrow> True | Settle sts \<Rightarrow> \<forall>st \<in> set sts. clearing st | Attempt sts x \<Rightarrow> \<forall>st \<in> set sts. clearing st"
    if "word_held v" "task_generation v = th_generation h" for v
    using wake_plan_held [OF that] by simp
  from cas_loop_returns [where plan = ?plan and n = 0, OF assms this] obtain v b s' where
    out: "cas_loop env ?plan ?i 0 s = Some (b, s')" "held_path w v" "word_held v" "task_generation v = th_generation h"
    and plan: "case ?plan v of Return b' \<Rightarrow> b = b' \<and> in_flight h v s' | Settle sts \<Rightarrow> b \<and> in_flight h v s'
      | Attempt sts x \<Rightarrow> b \<and> (\<exists>t. in_flight h v t \<and> sc_word t ?i = v \<and> s' = put_word t ?i x)"
    by blast
  have trans: "in_flight h v s' \<Longrightarrow> in_flight h w s'" using out(2) held_path_trans by (auto simp: in_flight_def)
  consider "task_state v = T_STOPPING" | "task_state v = T_RUNNING" "v OR WAKE_PENDING = v"
    | "task_state v = T_RUNNING" "v OR WAKE_PENDING \<noteq> v"
    using out(3) by (auto simp: word_held_def)
  then show ?thesis
  proof cases
    case 1
    then have "\<not> b" and here: "in_flight h v s'" using plan wake_plan_held [OF out(3,4)] by auto
    moreover have "task_state (sc_word s' ?i) = T_STOPPING"
      using held_path_stopping [of v] here 1 unfolding in_flight_def by metis
    ultimately show ?thesis unfolding run out(1) using trans by (intro exI [of _ b] exI [of _ s']) simp
  next
    case 2
    then have "b" and here: "in_flight h v s'" using plan wake_plan_held [OF out(3,4)] by auto
    moreover have "task_state (sc_word s' ?i) = T_STOPPING \<or> sc_word s' ?i OR WAKE_PENDING = sc_word s' ?i"
      using here 2(2) by (intro held_path_pending [of v]) (simp_all add: in_flight_def)
    ultimately show ?thesis unfolding run out(1) using trans by (intro exI [of _ b] exI [of _ s']) simp
  next
    case 3
    then obtain t where t: "b" "in_flight h v t" "sc_word t ?i = v" "s' = put_word t ?i (v OR WAKE_PENDING)"
      using plan wake_plan_held [OF out(3,4)] by auto
    have "in_flight h v s'" unfolding t(4) using t(2,3) 3(1) by (rule in_flight_wake)
    moreover have "sc_word s' ?i = v OR WAKE_PENDING"
      using t by (auto simp: in_flight_def sched_inv_def held_def sc_word_def put_word_def sc_update_nth)
    ultimately show ?thesis unfolding run out(1) using t(1) trans by (intro exI [of _ b] exI [of _ s']) (simp add: or.assoc)
  qed
qed

section \<open>What a signal does to each slot\<close>

definition signalled :: "u64 \<Rightarrow> task_slot \<Rightarrow> task_slot" where
  "signalled obj slot =
     (if ts_wait_object slot = obj \<and> (task_state (ts_state slot) = T_BLOCKED \<or> task_state (ts_state slot) = T_RUNNING)
      then plan_effect (wake_plan (task_generation (ts_state slot))) slot else slot)"

lemma signal_loop_result:
  assumes "distinct is" "\<forall>i \<in> set is. i < length (sc_tasks s)" "length (sc_tasks s) \<le> 256"
    "signal_loop (\<lambda>_. quiet) obj is n s = Some (n', s')"
  shows "length (sc_tasks s') = length (sc_tasks s)
    \<and> (\<forall>j. sc_tasks s' ! j = (if j \<in> set is then signalled obj (sc_tasks s ! j) else sc_tasks s ! j))"
  using assms
proof (induction "is" arbitrary: n s)
  case (Cons i "is")
  have i: "i < length (sc_tasks s)" using Cons.prems(2) by simp
  define s1 where "s1 = sc_update s i (plan_effect (wake_plan (task_generation (sc_word s i))))"
  show ?case
  proof (cases "ts_wait_object (sc_tasks s ! i) = obj \<and> (task_state (sc_word s i) = T_BLOCKED \<or> task_state (sc_word s i) = T_RUNNING)")
    case True
    obtain m s2 where rest: "signal_loop (\<lambda>_. quiet) obj is m s2 = Some (n', s')" and s2: "sc_tasks s2 = sc_tasks s1"
      using Cons.prems(4) True wake_slot [OF i Cons.prems(3)] by (auto simp: s1_def Let_def split: if_splits)
    have len: "length (sc_tasks s2) = length (sc_tasks s)" by (simp add: s2 s1_def)
    have at: "sc_tasks s2 ! j = (if j = i then signalled obj (sc_tasks s ! i) else sc_tasks s ! j)" for j
      using True i by (simp add: s2 s1_def sc_update_nth signalled_def sc_word_def)
    show ?thesis using Cons.IH [OF _ _ _ rest] Cons.prems(1-3) len by (auto simp: at)
  next
    case False
    then have rest: "signal_loop (\<lambda>_. quiet) obj is n s = Some (n', s')"
      using Cons.prems(4) by (auto simp: Let_def split: if_splits)
    have "signalled obj (sc_tasks s ! i) = sc_tasks s ! i" using False by (auto simp: signalled_def sc_word_def)
    then show ?thesis using Cons.IH [OF _ _ _ rest] Cons.prems(1-3) by auto
  qed
qed simp

lemma signal_event_result:
  assumes "signal_event_object (\<lambda>_. quiet) s obj = Some (n, s')" "sched_inv s" "obj \<noteq> 0" "j < MAX_TASKS"
  shows "sc_tasks s' ! j = signalled obj (sc_tasks s ! j)"
  using signal_loop_result [of "[0 ..< length (sc_tasks s)]" s obj 0 n s'] assms
  by (auto simp: signal_event_object_def sched_inv_def)

section \<open>The window of the timer\<close>

text \<open>
  The state between the exchange of the deadline and the store to the wait object in \<open>wake_due\<close>, and
  an interference by which the others take exactly that window.
\<close>

definition timer_window :: "scheduler \<Rightarrow> nat \<Rightarrow> scheduler" where
  "timer_window s i = sc_update s i (\<lambda>slot. slot\<lparr>ts_wake_deadline := TASK_NO_DEADLINE\<rparr>)"

definition in_window :: "scheduler \<Rightarrow> interference" where
  "in_window t = (\<lambda>n s. if n = 2 then t else s)"

lemma timer_window_inv: "sched_inv s \<Longrightarrow> sched_inv (timer_window s i)"
  using clearing_ok [of "StoreDeadline TASK_NO_DEADLINE"]
  by (cases "i < length (sc_tasks s)")
    (auto simp: timer_window_def sched_inv_def sc_update_def all_set_conv_all_nth nth_list_update)

lemma claimed_running:
  assumes "claim_next quiet s c = (Some h, s')" "sched_inv s"
  shows "sched_inv s' \<and> sc_word s' (unat (th_slot h)) = task_pack (th_generation h) T_RUNNING"
proof -
  obtain cpu where cpu: "slice_get (sc_cpus s) c = Some cpu" "cs_online cpu"
    using assms(1) by (auto simp: claim_next_def simp del: slice_get_Some split: option.splits if_splits)
  obtain i where i: "find (\<lambda>i. task_state (sc_word s i) = T_RUNNABLE) (claim_order (cs_cursor cpu)) = Some i"
    and res: "h = slot_task s i" "sc_word s' i = task_pack (task_generation (sc_word s i)) T_RUNNING"
    using claim_next_result [OF assms cpu] by (auto split: option.splits)
  have "i \<in> set (claim_order (cs_cursor cpu))" using i by (auto simp: find_Some_iff)
  then have "unat (of_nat i :: u8) = i" using set_claim_order [of "cs_cursor cpu"] by (auto simp: unat_of_nat_u8)
  then show ?thesis using res sched_step_inv [OF sc_claims [OF assms(1)] assms(2)] by simp
qed

lemma wake_due_slot_late:
  assumes "task_state (sc_word s i) = T_BLOCKED" "ts_wake_deadline (sc_tasks s ! i) \<noteq> TASK_NO_DEADLINE"
    "ts_wake_deadline (sc_tasks s ! i) \<le> now" "i < length (sc_tasks t)" "sc_word t i \<noteq> sc_word s i"
  shows "wake_due_slot (in_window t) now i s = (False, sc_update t i (\<lambda>slot. slot\<lparr>ts_wait_object := 0\<rparr>))"
proof -
  have "sc_word (sc_update t i (\<lambda>slot. slot\<lparr>ts_wait_object := 0\<rparr>)) i = sc_word t i"
    using assms(4) by (simp add: sc_word_def sc_update_nth)
  then show ?thesis using assms by (simp add: wake_due_slot_def in_window_def Let_def not_less)
qed

lemma block_running:
  assumes "unat (th_slot h) < length (sc_tasks s)" "sc_word s (unat (th_slot h)) = task_pack g T_RUNNING"
    "th_generation h = take_bit 56 g"
  shows "\<exists>s'. sch_finish quiet (snd (save_context s h rsp)) h FinishBlocked = Some (True, s')
    \<and> length (sc_tasks s') = length (sc_tasks s)
    \<and> ts_wait_object (sc_tasks s' ! unat (th_slot h)) = ts_wait_object (sc_tasks s ! unat (th_slot h))
    \<and> ts_state (sc_tasks s' ! unat (th_slot h)) = task_pack g T_BLOCKED"
proof -
  let ?i = "unat (th_slot h)"
  define t where "t = sc_update s ?i (\<lambda>slot. slot\<lparr>ts_saved_rsp := rsp, ts_context_saved := True\<rparr>)"
  have save: "snd (save_context s h rsp) = t"
    using assms by (simp add: save_context_def sc_slot_def slice_get_def sc_word_def t_def)
  have t: "?i < length (sc_tasks t)" "sc_word t ?i = task_pack g T_RUNNING" "ts_context_saved (sc_tasks t ! ?i)"
    "ts_wait_object (sc_tasks t ! ?i) = ts_wait_object (sc_tasks s ! ?i)"
    using assms(1,2) by (simp_all add: t_def sc_word_def sc_update_nth)
  have plan: "finish_plan FinishBlocked (th_generation h) (task_pack g T_RUNNING)
      = Attempt [StoreDeadline TASK_NO_DEADLINE] (task_pack g T_BLOCKED)"
    using assms(3) by (simp add: finish_plan_def running_not_pending task_pack_take)
  have "sch_finish quiet t h FinishBlocked = Some (True, sc_update t ?i (plan_effect (finish_plan FinishBlocked (th_generation h))))"
    using t(1,3) cas_quiet [OF t(1)] by (simp add: sch_finish_def sc_slot_def slice_get_def t(2) plan)
  moreover have "plan_effect (finish_plan FinishBlocked (th_generation h)) (sc_tasks t ! ?i)
      = (sc_tasks t ! ?i)\<lparr>ts_wake_deadline := TASK_NO_DEADLINE, ts_state := task_pack g T_BLOCKED\<rparr>"
    using t(2) by (simp add: plan_effect_def plan sc_word_def)
  ultimately show ?thesis using t(1,4) by (simp add: save sc_update_nth t_def)
qed

section \<open>Properties\<close>

text \<open>The first task of the example in its turn, blocked with a deadline, and in the window of the timer.\<close>

abbreviation first_task :: task_handle where
  "first_task \<equiv> \<lparr>th_slot = 0, th_generation = 1\<rparr>"

definition waking_others :: "task_handle \<Rightarrow> interference" where
  "waking_others h n s = (case sch_wake quiet s h of Some (b, s') \<Rightarrow> s' | None \<Rightarrow> s)"

lemma waking_others_run: "others_run h (waking_others h)"
  unfolding others_run_def waking_others_def
  by (auto split: option.splits intro: unfinished_refl unfinished_step [OF unfinished_refl sc_wakes])

lemma saved_after: "sched_inv s \<Longrightarrow> held s h \<Longrightarrow> saved_context (snd (save_context s h rsp)) h \<noteq> None"
  by (auto simp: saved_context_def save_context_def sc_slot_def slice_get_def held_def word_held_def sched_inv_def
      sc_word_def sc_update_nth)

lemma sched_move_into: "sched_move\<^sup>*\<^sup>* scheduler_new s \<Longrightarrow> sched_step s l t \<Longrightarrow> sched_move\<^sup>*\<^sup>* scheduler_new t"
  by (metis rtranclp.rtrancl_into_rtrancl sched_move_def)

lemma turn_of_first:
  obtains s where "sched_move\<^sup>*\<^sup>* scheduler_new s" "held s first_task" "sc_word s 0 = task_pack 1 T_RUNNING"
    "slice_get (sc_cpus s) 1 = Some (sched_demo_cpu True)"
proof -
  obtain s1 where s1: "claim_next quiet sched_demo_two 0 = (Some first_task, s1)" "sc_word s1 0 = task_pack 1 T_RUNNING"
    "slice_get (sc_cpus s1) 1 = Some (sched_demo_cpu True)"
    using sched_demo_claim by metis
  have "sched_move\<^sup>*\<^sup>* scheduler_new s1"
    using sched_demo_two_reachable sc_claims [OF s1(1)] by (rule sched_move_into)
  moreover have "held s1 first_task" using s1(2) by (simp add: held_def word_held_def take_bit_eq_mod)
  ultimately show thesis using that s1 by blast
qed

lemma blocked_first:
  obtains s where "sched_move\<^sup>*\<^sup>* scheduler_new s" "sc_word s 0 = task_pack 1 T_BLOCKED" "ts_wake_deadline (sc_tasks s ! 0) = 5"
    "slice_get (sc_cpus s) 1 = Some (sched_demo_cpu True)"
proof -
  obtain s0 where s0: "sched_move\<^sup>*\<^sup>* scheduler_new s0" "held s0 first_task" "sc_word s0 0 = task_pack 1 T_RUNNING"
    "slice_get (sc_cpus s0) 1 = Some (sched_demo_cpu True)" by (rule turn_of_first)
  have len: "length (sc_tasks s0) = 24" using sched_inv_reachable [OF s0(1)] by (simp add: sched_inv_def)
  define s1 where "s1 = snd (arm_deadline s0 first_task 5)"
  define s2 where "s2 = snd (save_context s1 first_task 4096)"
  have s1: "s1 = sc_update s0 0 (\<lambda>slot. slot\<lparr>ts_wake_deadline := 5\<rparr>)"
    using s0(3) len by (simp add: s1_def arm_deadline_def task_runs_def sc_slot_def slice_get_def sc_word_def take_bit_eq_mod)
  then have w1: "sc_word s1 0 = task_pack 1 T_RUNNING" "length (sc_tasks s1) = 24"
    using s0(3) len by (simp_all add: sc_word_def sc_update_nth)
  have s2: "s2 = sc_update s1 0 (\<lambda>slot. slot\<lparr>ts_saved_rsp := 4096, ts_context_saved := True\<rparr>)"
    using w1 len by (simp add: s2_def save_context_def sc_slot_def slice_get_def sc_word_def take_bit_eq_mod length_greater_0_conv [symmetric] del: length_greater_0_conv)
  have slot2: "0 < length (sc_tasks s2)" "length (sc_tasks s2) = 24" "sc_word s2 0 = task_pack 1 T_RUNNING" "ts_wake_deadline (sc_tasks s2 ! 0) = 5"
    "ts_context_saved (sc_tasks s2 ! 0)" "sc_cpus s2 = sc_cpus s0"
    using len w1 by (simp_all add: s2 sc_word_def sc_update_nth) (simp_all add: s1 sc_update_nth)
  have plan: "finish_plan FinishTimedBlocked 1 (task_pack 1 T_RUNNING) = Attempt [] (task_pack 1 T_BLOCKED)"
    by (simp add: finish_plan_def running_not_pending take_bit_eq_mod)
  define s3 where "s3 = sc_update s2 0 (plan_effect (finish_plan FinishTimedBlocked 1))"
  have fin: "sch_finish quiet s2 first_task FinishTimedBlocked = Some (True, s3)"
    using slot2 cas_quiet [OF slot2(1)] plan by (simp add: sch_finish_def sc_slot_def slice_get_def s3_def)
  have "plan_effect (finish_plan FinishTimedBlocked 1) (sc_tasks s2 ! 0) = (sc_tasks s2 ! 0)\<lparr>ts_state := task_pack 1 T_BLOCKED\<rparr>"
    using slot2(3) plan by (simp add: plan_effect_def sc_word_def)
  then have "sc_word s3 0 = task_pack 1 T_BLOCKED" "ts_wake_deadline (sc_tasks s3 ! 0) = 5" "sc_cpus s3 = sc_cpus s0"
    using slot2 by (simp_all add: s3_def sc_word_def sc_update_nth)
  moreover have "sched_move\<^sup>*\<^sup>* scheduler_new s3"
    using sched_move_into [OF sched_move_into [OF sched_move_into [OF s0(1) sc_arms] sc_saves] sc_finishes] fin
    by (simp add: s1_def s2_def)
  ultimately show thesis using that s0(4) by simp
qed

text \<open>
  C11: Ending a turn is wait free: the loop of \<open>finish\<close> returns success for the holder of a task with
  a saved context, whatever operations the other processors run between its loads, stores and
  exchanges, because they can change a held word at most twice. The word replaced by the successful
  exchange decides the outcome: a stop request completes the task, and a pending wake-up turns a
  block into a runnable task.
\<close>

theorem finish_wait_free:
  assumes "sched_move\<^sup>*\<^sup>* scheduler_new s" "held s h" "saved_context s h \<noteq> None" "others_run h env"
  shows "\<exists>v s'. sch_finish env s h outcome = Some (True, s') \<and> held_path (sc_word s (unat (th_slot h))) v
    \<and> sc_word s' (unat (th_slot h)) = task_pack (th_generation h)
        (if task_state v = T_STOPPING then T_COMPLETED else finish_target outcome (v AND WAKE_PENDING \<noteq> 0))"
proof -
  have here: "in_flight h (sc_word s (unat (th_slot h))) s"
    using sched_inv_reachable [OF assms(1)] assms(2) by (rule held_in_flight)
  have "ts_context_saved (sc_tasks s ! unat (th_slot h))"
    using assms(3) in_flight_slot [OF here] by (auto simp: saved_context_def split: if_splits)
  then show ?thesis using finish_returns [OF here assms(4)] by blast
qed

theorem finish_wait_free_witness:
  "\<exists>s v s'. held s first_task
     \<and> sch_finish (waking_others first_task) s first_task FinishBlocked = Some (True, s') \<and> held_path (sc_word s 0) v
     \<and> sc_word s' 0 = task_pack 1 (if task_state v = T_STOPPING then T_COMPLETED else finish_target FinishBlocked (v AND WAKE_PENDING \<noteq> 0))"
proof -
  obtain s where s: "sched_move\<^sup>*\<^sup>* scheduler_new s" "held s first_task" using turn_of_first by metis
  define t where "t = snd (save_context s first_task 4096)"
  have inv: "sched_inv s" by (rule sched_inv_reachable [OF s(1)])
  have "sched_move\<^sup>*\<^sup>* scheduler_new t" unfolding t_def using s(1) sc_saves by (rule sched_move_into)
  moreover have held: "held t first_task" unfolding t_def using held_kept [OF sc_saves inv s(2)] by simp
  moreover have "saved_context t first_task \<noteq> None" unfolding t_def using inv s(2) by (rule saved_after)
  ultimately show ?thesis
    using finish_wait_free [OF _ _ _ waking_others_run, of t first_task FinishBlocked] held
    unfolding task_handle.simps unsigned_0 by blast
qed

text \<open>
  C12: A wake-up of a running task is not lost. The loop of \<open>wake\<close> returns under any interference of
  the other processors, and however the turn of the task goes on and ends afterwards, also when it
  ends by blocking and again under interference, the task is left runnable or, after a stop
  request, completed, and never blocked.
\<close>

theorem wake_not_lost:
  assumes "sched_move\<^sup>*\<^sup>* scheduler_new s" "held s h" "others_run h env"
  shows "\<exists>b s1. sch_wake env s h = Some (b, s1)
    \<and> (\<forall>s2 env' outcome. unfinished h s1 s2 \<longrightarrow> saved_context s2 h \<noteq> None \<longrightarrow> others_run h env' \<longrightarrow>
         (\<exists>s3. sch_finish env' s2 h outcome = Some (True, s3) \<and> sch_state s3 h \<in> {Some TsRunnable, Some TsCompleted}))"
proof -
  let ?i = "unat (th_slot h)"
  obtain b s1 where wake: "sch_wake env s h = Some (b, s1)" and s1: "sched_inv s1" "held s1 h"
    and marked: "task_state (sc_word s1 ?i) = T_STOPPING \<or> sc_word s1 ?i OR WAKE_PENDING = sc_word s1 ?i"
    using wake_returns [OF held_in_flight [OF sched_inv_reachable [OF assms(1)] assms(2)] assms(3)]
    unfolding in_flight_def by blast
  have "\<exists>s3. sch_finish env' s2 h outcome = Some (True, s3) \<and> sch_state s3 h \<in> {Some TsRunnable, Some TsCompleted}"
    if run: "unfinished h s1 s2" and saved: "saved_context s2 h \<noteq> None" and others: "others_run h env'"
    for s2 env' outcome
  proof -
    have here: "in_flight h (sc_word s1 ?i) s2"
      using unfinished_held [OF run s1] unfinished_path [OF run s1] by (simp add: in_flight_def)
    have "ts_context_saved (sc_tasks s2 ! ?i)"
      using saved in_flight_slot [OF here] by (auto simp: saved_context_def split: if_splits)
    from finish_returns [OF here others this, of outcome] obtain v s3 where
      fin: "sch_finish env' s2 h outcome = Some (True, s3)" and v: "held_path (sc_word s1 ?i) v" "task_generation v = th_generation h"
      and s3: "sc_slot s3 h = Some (sc_tasks s3 ! ?i)" "sc_word s3 ?i = task_pack (th_generation h)
        (if task_state v = T_STOPPING then T_COMPLETED else finish_target outcome (v AND WAKE_PENDING \<noteq> 0))"
      by blast
    have "task_state v = T_STOPPING \<or> v AND WAKE_PENDING \<noteq> 0"
      using marked held_path_stopping [OF v(1)] held_path_pending [OF v(1)] pending_bit by metis
    moreover have "take_bit 56 (th_generation h) = th_generation h" using v(2) take_task_generation by metis
    ultimately have "sch_state s3 h \<in> {Some TsRunnable, Some TsCompleted}"
      using s3 by (cases outcome) (auto simp: sch_state_def sc_word_def Let_def)
    then show ?thesis using fin by blast
  qed
  then show ?thesis using wake by blast
qed

theorem wake_not_lost_witness:
  "\<exists>s b s1 s3. held s first_task \<and> sch_wake quiet s first_task = Some (b, s1)
     \<and> sch_finish quiet (snd (save_context s1 first_task 4096)) first_task FinishBlocked = Some (True, s3)
     \<and> sch_state s3 first_task \<in> {Some TsRunnable, Some TsCompleted}"
proof -
  obtain s where s: "sched_move\<^sup>*\<^sup>* scheduler_new s" "held s first_task" using turn_of_first by metis
  obtain b s1 where wake: "sch_wake quiet s first_task = Some (b, s1)"
    and later: "\<And>s2 env' outcome. \<lbrakk>unfinished first_task s1 s2; saved_context s2 first_task \<noteq> None; others_run first_task env'\<rbrakk>
      \<Longrightarrow> \<exists>s3. sch_finish env' s2 first_task outcome = Some (True, s3) \<and> sch_state s3 first_task \<in> {Some TsRunnable, Some TsCompleted}"
    using wake_not_lost [OF s quiet_others] by blast
  have inv: "sched_inv s" by (rule sched_inv_reachable [OF s(1)])
  have "sched_inv s1" "held s1 first_task"
    using sched_step_inv [OF sc_wakes [OF wake] inv] held_kept [OF sc_wakes [OF wake] inv s(2)] by simp_all
  then have "saved_context (snd (save_context s1 first_task 4096)) first_task \<noteq> None" by (rule saved_after)
  then show ?thesis
    using later [OF unfinished_step [OF unfinished_refl sc_saves] _ quiet_others, of first_task 4096 FinishBlocked] wake s(2) by blast
qed

text \<open>
  C27: The timer can lose a wait registration. If, between the exchange of the deadline and the store
  to the wait object in \<open>wake_due\<close>, another processor wakes the task, claims it, and the task
  registers a wait for an event object, then the store erases that registration although the
  exchange of the state fails. When the task then blocks, a signal of its event object leaves it
  blocked.
\<close>

theorem timer_erases_wait:
  assumes "sched_move\<^sup>*\<^sup>* scheduler_new s" "i < MAX_TASKS" "task_state (sc_word s i) = T_BLOCKED"
    "ts_wake_deadline (sc_tasks s ! i) \<noteq> TASK_NO_DEADLINE" "ts_wake_deadline (sc_tasks s ! i) \<le> now"
    "sch_wake quiet (timer_window s i) (slot_task s i) = Some (True, s1)"
    "claim_next quiet s1 c = (Some (slot_task s i), s2)"
    "wait_for_event_object quiet s2 (slot_task s i) obj deadline = (Some True, s3)"
  shows "ts_wait_object (sc_tasks s3 ! i) = obj
    \<and> (\<exists>s4 s5. wake_due_slot (in_window s3) now i s = (False, s4)
        \<and> sch_finish quiet (snd (save_context s4 (slot_task s i) rsp)) (slot_task s i) FinishBlocked = Some (True, s5)
        \<and> (\<forall>n s6. signal_event_object (\<lambda>_. quiet) s5 obj = Some (n, s6) \<longrightarrow>
              sch_state s6 (slot_task s i) = Some TsBlocked))"
proof -
  let ?h = "slot_task s i" and ?g = "task_generation (sc_word s i)"
  have index: "unat (of_nat i :: u8) = i" using assms(2) by (simp add: unat_of_nat_u8)
  have "sched_inv s1" using sc_wakes [OF assms(6)] timer_window_inv [OF sched_inv_reachable [OF assms(1)]] by (rule sched_step_inv)
  note claim = claimed_running [OF assms(7) this]
  have len: "length (sc_tasks s2) = MAX_TASKS" using claim by (simp add: sched_inv_def)
  have obj: "obj \<noteq> 0" and s3: "s3 = sc_update s2 i (\<lambda>slot. slot\<lparr>ts_wake_deadline := deadline, ts_wait_object := obj\<rparr>)"
    using assms(2,8) claim index len by (auto simp: wait_for_event_object_def quiet_def sc_update_def split: if_splits)
  have slot3: "ts_wait_object (sc_tasks s3 ! i) = obj" "sc_word s3 i = task_pack ?g T_RUNNING" "length (sc_tasks s3) = MAX_TASKS"
    using assms(2) claim index len by (simp_all add: s3 sc_update_nth sc_word_def)
  define s4 where "s4 = sc_update s3 i (\<lambda>slot. slot\<lparr>ts_wait_object := 0\<rparr>)"
  have "sc_word s3 i \<noteq> sc_word s i" using slot3(2) assms(3) by (auto dest: arg_cong [where f = task_state])
  then have due: "wake_due_slot (in_window s3) now i s = (False, s4)"
    unfolding s4_def using assms(2-5) slot3(3) by (intro wake_due_slot_late) auto
  have slot4: "unat (th_slot ?h) < length (sc_tasks s4)" "sc_word s4 (unat (th_slot ?h)) = task_pack ?g T_RUNNING"
    "ts_wait_object (sc_tasks s4 ! i) = 0"
    using assms(2) slot3 index by (simp_all add: s4_def sc_update_nth sc_word_def)
  obtain s5 where s5: "sch_finish quiet (snd (save_context s4 ?h rsp)) ?h FinishBlocked = Some (True, s5)"
    "length (sc_tasks s5) = MAX_TASKS" "ts_wait_object (sc_tasks s5 ! i) = 0" "ts_state (sc_tasks s5 ! i) = task_pack ?g T_BLOCKED"
    using block_running [OF slot4(1,2), of rsp] slot4(3) slot3(3) index by (auto simp: s4_def)
  have "sch_state s6 ?h = Some TsBlocked" if signal: "signal_event_object (\<lambda>_. quiet) s5 obj = Some (n, s6)" for n s6
  proof -
    have "length (sc_tasks s6) = MAX_TASKS \<and> sc_tasks s6 ! i = signalled obj (sc_tasks s5 ! i)"
      using signal_loop_result [of "[0 ..< length (sc_tasks s5)]" s5 obj 0 n s6] signal obj s5(2) assms(2)
      by (auto simp: signal_event_object_def)
    then show ?thesis using s5(3,4) obj assms(2) index by (simp add: signalled_def sch_state_def sc_slot_def slice_get_def)
  qed
  then show ?thesis using slot3(1) due s5(1) by blast
qed

theorem timer_erases_wait_witness:
  "\<exists>s s3 s4 s5. ts_wait_object (sc_tasks s3 ! 0) = 77 \<and> wake_due_slot (in_window s3) 6 0 s = (False, s4)
     \<and> sch_finish quiet (snd (save_context s4 first_task 4096)) first_task FinishBlocked = Some (True, s5)
     \<and> (\<forall>n s6. signal_event_object (\<lambda>_. quiet) s5 77 = Some (n, s6) \<longrightarrow> sch_state s6 first_task = Some TsBlocked)"
proof -
  obtain s where s: "sched_move\<^sup>*\<^sup>* scheduler_new s" "sc_word s 0 = task_pack 1 T_BLOCKED" "ts_wake_deadline (sc_tasks s ! 0) = 5"
    "slice_get (sc_cpus s) 1 = Some (sched_demo_cpu True)" by (rule blocked_first)
  have inv: "sched_inv (timer_window s 0)" by (rule timer_window_inv [OF sched_inv_reachable [OF s(1)]])
  then have len: "length (sc_tasks (timer_window s 0)) = MAX_TASKS" by (simp add: sched_inv_def)
  have window: "sc_word (timer_window s 0) 0 = task_pack 1 T_BLOCKED" "sc_cpus (timer_window s 0) = sc_cpus s"
    using s(2) len by (simp_all add: timer_window_def sc_word_def sc_update_nth)
  have "task_pack 1 T_RUNNABLE \<noteq> task_pack 1 T_BLOCKED" by (simp add: task_pack_def)
  then have plan: "plan_result (wake_plan 1 (task_pack 1 T_BLOCKED))" "ts_state (plan_effect (wake_plan 1) slot) = task_pack 1 T_RUNNABLE"
    if "ts_state slot = task_pack 1 T_BLOCKED" for slot
    using that by (simp_all add: wake_plan_def plan_effect_def take_bit_eq_mod)
  define s1 where "s1 = sc_update (timer_window s 0) 0 (plan_effect (wake_plan 1))"
  have task: "slot_task s 0 = first_task" "slot_task (timer_window s 0) 0 = first_task" using s(2) window(1) by (simp_all add: take_bit_eq_mod)
  have wake: "sch_wake quiet (timer_window s 0) first_task = Some (True, s1)"
    using wake_slot [of 0 "timer_window s 0"] len plan(1) window(1) unfolding task(2) s1_def
    by (simp add: take_bit_eq_mod sc_word_def)
  have w1: "sc_word s1 0 = task_pack 1 T_RUNNABLE" "slice_get (sc_cpus s1) 1 = Some (sched_demo_cpu True)"
    using len plan(2) window s(4) by (simp_all add: s1_def sc_word_def sc_update_nth)
  have inv1: "sched_inv s1" using sc_wakes [OF wake] inv by (rule sched_step_inv)
  have cpu: "cs_online (sched_demo_cpu True)" "cs_cursor (sched_demo_cpu True) = 0" by (simp_all add: sched_demo_cpu_def cpu_state_new_def)
  obtain rest where "claim_order 0 = 0 # 1 # rest" using sched_demo_order by blast
  then have "find (\<lambda>i. task_state (sc_word s1 i) = T_RUNNABLE) (claim_order (cs_cursor (sched_demo_cpu True))) = Some 0"
    using w1(1) by (simp add: cpu)
  moreover obtain res s2 where claim: "claim_next quiet s1 1 = (res, s2)" by fastforce
  ultimately have "res = Some first_task" using claim_next_result [OF claim inv1 w1(2) cpu(1)] w1(1) by (simp add: take_bit_eq_mod)
  with claim have claim: "claim_next quiet s1 1 = (Some first_task, s2)" by simp
  have "task_runs s2 first_task"
    using claimed_running [OF claim inv1] by (simp add: task_runs_def sc_slot_def slice_get_def sched_inv_def sc_word_def take_bit_eq_mod)
  then obtain s3 where "wait_for_event_object quiet s2 first_task 77 TASK_NO_DEADLINE = (Some True, s3)"
    by (simp add: wait_for_event_object_def)
  then show ?thesis
    using timer_erases_wait [OF s(1), of 0 6 s1 1 s2 77 TASK_NO_DEADLINE s3 4096] s(2,3) wake claim unfolding task(1) by force
qed

end
