(* ===== verification/Event_Calls.thy ===== *)
theory Event_Calls
  imports IPC_Properties Scheduler_Races
begin

text \<open>
  Event calls of the services, \<open>src/service_runtime.rs\<close> and \<open>src/arch.rs\<close>: the dispatch of a request
  to the event tables, the registration of the calling task with the scheduler, and the delivery of
  wake-ups to the tasks that wait for a set. This is where the event tables and the scheduler meet.
  Interrupts can raise events while a wait is being prepared; those that arrive before and after the
  registration are arguments. Whether a service that waits is known to the runtime, and the tick
  count, are arguments too.
\<close>

section \<open>Delivery of wake-ups\<close>

definition signal_event_set :: "scheduler \<Rightarrow> event_set_handle \<Rightarrow> scheduler option" where
  "signal_event_set s q = map_option snd (signal_event_object (\<lambda>_. quiet) s (raw q))"

text \<open>
  The event tables log the sets that they wake. \<open>new_wakes\<close> are those that an operation added, and
  \<open>signal_sets\<close> delivers them in order.
\<close>

definition new_wakes :: "event_registry \<Rightarrow> event_registry \<Rightarrow> event_set_handle list" where
  "new_wakes r r' = drop (length (er_woken r)) (er_woken r')"

fun signal_sets :: "event_set_handle list \<Rightarrow> scheduler \<Rightarrow> scheduler option" where
  "signal_sets [] s = Some s"
| "signal_sets (q # qs) s = Option.bind (signal_event_set s q) (signal_sets qs)"

datatype interrupt = IrqSignal event_handle | IrqHardware hardware_source

fun interrupt_events :: "interrupt \<Rightarrow> event_registry \<Rightarrow> event_registry" where
  "interrupt_events (IrqSignal e) r = snd (signal_irq r e)"
| "interrupt_events (IrqHardware source) r = signal_hardware_event r source"

fun interrupts :: "interrupt list \<Rightarrow> event_registry \<Rightarrow> scheduler \<Rightarrow> (event_registry \<times> scheduler) option" where
  "interrupts [] r s = Some (r, s)"
| "interrupts (irq # irqs) r s =
     (let r' = interrupt_events irq r
      in Option.bind (signal_sets (new_wakes r r') s) (interrupts irqs r'))"

section \<open>Preparing a wait\<close>

datatype wait_action = ActionBlock | ActionTimedBlock

definition prepare_service_event_set_wait ::
    "scheduler \<Rightarrow> task_handle \<Rightarrow> event_set_handle \<Rightarrow> u64 \<Rightarrow> bool option \<times> wait_action option \<times> scheduler" where
  "prepare_service_event_set_wait s task q deadline =
     (case wait_for_event_object quiet s task (raw q) deadline of
        (None, s) \<Rightarrow> (None, None, s)
      | (Some should_block, s) \<Rightarrow>
          (Some should_block,
           if should_block then Some (if deadline = - 1 then ActionBlock else ActionTimedBlock) else None, s))"

fun event_status_of :: "event_error \<Rightarrow> event_status" where
  "event_status_of EeStale = EsStale"
| "event_status_of EeUnauthorized = EsUnauthorized"
| "event_status_of EeCapacity = EsCapacity"
| "event_status_of EeDuplicate = EsDuplicate"
| "event_status_of EeNotMember = EsNotMember"
| "event_status_of EeInvalidDeadline = EsInvalidDeadline"
| "event_status_of EeBusy = EsBusy"

definition prepare_dynamic_event_wait ::
    "interrupt list \<Rightarrow> interrupt list \<Rightarrow> event_registry \<Rightarrow> scheduler \<Rightarrow> task_handle option \<Rightarrow> service_handle \<Rightarrow> event_set_handle
      \<Rightarrow> u64 \<Rightarrow> ((event_status + unit) \<times> wait_action option \<times> event_registry \<times> scheduler) option" where
  "prepare_dynamic_event_wait before after r s task owner q deadline =
     (case set_members r owner q of
        Inl err \<Rightarrow> Some (Err (event_status_of err), None, r, s)
      | Inr _ \<Rightarrow>
          (case task of
             None \<Rightarrow> Some (Err EsStale, None, r, s)
           | Some task \<Rightarrow>
               Option.bind (interrupts before r s) (\<lambda>(r, s).
                 case prepare_service_event_set_wait s task q deadline of
                   (None, action, s) \<Rightarrow> Some (Err EsStale, action, r, s)
                 | (Some should_block, action, s) \<Rightarrow>
                     if \<not> should_block then Some (Ok (), action, r, s)
                     else Option.bind (interrupts after r s) (\<lambda>(r, s).
                       case has_ready_event r owner q of
                         Inl err \<Rightarrow> Some (Err (event_status_of err), action, r, s)
                       | Inr ready \<Rightarrow>
                           if ready then Option.bind (signal_event_set s q) (\<lambda>s. Some (Ok (), action, r, s))
                           else Some (Ok (), action, r, s)))))"

section \<open>Dispatch\<close>

definition signal_dynamic_event_waiters ::
    "(service_handle \<Rightarrow> bool) \<Rightarrow> event_registry \<Rightarrow> event_handle \<Rightarrow> scheduler \<Rightarrow> scheduler option" where
  "signal_dynamic_event_waiters known r e s = signal_sets (map fst (filter (\<lambda>(q, owner). known owner) (waiters r e))) s"

text \<open>The end of a call that only changes the tables: its status, and the wake-ups it caused.\<close>

definition table_call ::
    "event_registry \<Rightarrow> scheduler \<Rightarrow> (event_error + 'a) \<times> event_registry \<Rightarrow> ('a \<Rightarrow> event_response \<Rightarrow> event_response)
      \<Rightarrow> event_response \<Rightarrow> (event_response \<times> wait_action option \<times> event_registry \<times> scheduler) option" where
  "table_call r s outcome fill response =
     Option.bind (signal_sets (new_wakes r (snd outcome)) s) (\<lambda>s.
       Some (case fst outcome of
               Inl err \<Rightarrow> response\<lparr>erp_status := event_status_of err\<rparr>
             | Inr x \<Rightarrow> (fill x response)\<lparr>erp_status := EsOk\<rparr>, None, snd outcome, s))"

definition event_dispatch ::
    "(event_vector \<Rightarrow> bool) \<Rightarrow> (service_handle \<Rightarrow> bool) \<Rightarrow> interrupt list \<Rightarrow> interrupt list \<Rightarrow> u64 \<Rightarrow> task_handle option
      \<Rightarrow> service_handle \<Rightarrow> event_request \<Rightarrow> event_registry \<Rightarrow> scheduler
      \<Rightarrow> (event_response \<times> wait_action option \<times> event_registry \<times> scheduler) option" where
  "event_dispatch reserve known before after now task owner request r s =
     (let response = event_response_empty EsMalformed (erq_request_id request);
          q = erq_event_set request; e = erq_event request
      in case erq_operation request of
           EvCreate \<Rightarrow> table_call r s (create_event reserve r owner) (\<lambda>e response. response\<lparr>erp_event := e\<rparr>) response
         | EvDestroy \<Rightarrow> table_call r s (destroy_event r owner e) (\<lambda>_ response. response) response
         | EvCreateSet \<Rightarrow> table_call r s (create_set reserve r owner) (\<lambda>q response. response\<lparr>erp_event_set := q\<rparr>) response
         | EvAdd \<Rightarrow> table_call r s (set_add reserve r owner q e) (\<lambda>_ response. response) response
         | EvRemove \<Rightarrow> table_call r s (set_remove r owner q e) (\<lambda>_ response. response) response
         | EvDestroySet \<Rightarrow> table_call r s (destroy_set r owner q) (\<lambda>_ response. response) response
         | EvCancel \<Rightarrow> table_call r s (cancel_wait r owner q) (\<lambda>_ response. response) response
         | EvWait \<Rightarrow>
             (case wait_any r owner q now (if erq_deadline request \<noteq> - 1 then Some (erq_deadline request) else None) of
                (Inr (WaitReady e), r) \<Rightarrow> Some (response\<lparr>erp_event := e, erp_status := EsReady\<rparr>, None, r, s)
              | (Inr WaitPending, r) \<Rightarrow>
                  Option.bind (prepare_dynamic_event_wait before after r s task owner q (erq_deadline request))
                    (\<lambda>(prepared, rest). Some (response\<lparr>erp_status := if result_is_ok prepared then EsPending else EsStale\<rparr>, rest))
              | (Inr WaitTimeout, r) \<Rightarrow> Some (response\<lparr>erp_status := EsTimeout\<rparr>, None, r, s)
              | (Inl err, r) \<Rightarrow> Some (response\<lparr>erp_status := event_status_of err\<rparr>, None, r, s))
         | EvSignal \<Rightarrow>
             (case event_signal r owner e of
                (Inl err, r') \<Rightarrow> Some (response\<lparr>erp_status := event_status_of err\<rparr>, None, r', s)
              | (Inr _, r') \<Rightarrow>
                  Option.bind (signal_sets (new_wakes r r') s) (\<lambda>s.
                  Option.bind (signal_dynamic_event_waiters known r' e s) (\<lambda>s.
                    Some (response\<lparr>erp_status := EsOk\<rparr>, None, r', s)))))"

section \<open>What a delivery does to a task\<close>

definition registered_for :: "scheduler \<Rightarrow> task_handle \<Rightarrow> event_set_handle \<Rightarrow> bool" where
  "registered_for s h q \<longleftrightarrow>
     (let slot = sc_tasks s ! unat (th_slot h)
      in unat (th_slot h) < MAX_TASKS \<and> task_generation (ts_state slot) = th_generation h
         \<and> (task_state (ts_state slot) = T_BLOCKED \<or> task_state (ts_state slot) = T_RUNNING) \<and> ts_wait_object slot = raw q)"

text \<open>A task that was woken: it can run, or its wake-up is pending until its turn ends.\<close>

definition is_woken :: "scheduler \<Rightarrow> task_handle \<Rightarrow> bool" where
  "is_woken s h \<longleftrightarrow>
     (let slot = sc_tasks s ! unat (th_slot h)
      in task_generation (ts_state slot) = th_generation h \<and> ts_wait_object slot = 0
         \<and> (task_state (ts_state slot) = T_RUNNABLE
            \<or> task_state (ts_state slot) = T_RUNNING \<and> ts_state slot AND WAKE_PENDING \<noteq> 0))"

lemma signal_event_set_total:
  assumes "sched_inv s"
  obtains s' where "signal_event_set s q = Some s'" "sched_move\<^sup>*\<^sup>* s s'" "sched_inv s'"
    "\<And>j. j < MAX_TASKS \<Longrightarrow> raw q \<noteq> 0 \<Longrightarrow> sc_tasks s' ! j = signalled (raw q) (sc_tasks s ! j)"
    "raw q = 0 \<Longrightarrow> s' = s"
proof -
  have len: "length (sc_tasks s) = MAX_TASKS" using assms by (simp add: sched_inv_def)
  obtain n s' where sig: "signal_event_object (\<lambda>_. quiet) s (raw q) = Some (n, s')"
    using signal_loop_moves [of "[0 ..< length (sc_tasks s)]" s "raw q" 0 True] len
    by (cases "raw q = 0") (auto simp: signal_event_object_def)
  have step: "sched_step s Other s'" by (rule sc_signals [OF sig])
  show thesis
  proof (rule that)
    show "signal_event_set s q = Some s'" by (simp add: signal_event_set_def sig)
    show "sched_move\<^sup>*\<^sup>* s s'" using step by (intro r_into_rtranclp) (auto simp: sched_move_def)
    show "sched_inv s'" by (rule sched_step_inv [OF step assms])
    show "sc_tasks s' ! j = signalled (raw q) (sc_tasks s ! j)" if "j < MAX_TASKS" "raw q \<noteq> 0" for j
      by (rule signal_event_result [OF sig assms that(2,1)])
    show "s' = s" if "raw q = 0" using sig that by (simp add: signal_event_object_def)
  qed
qed

lemma signalled_other: "ts_wait_object slot \<noteq> obj \<Longrightarrow> signalled obj slot = slot"
  by (simp add: signalled_def)

lemma signalled_waiting:
  assumes "ts_wait_object slot = obj" "task_state (ts_state slot) = T_BLOCKED \<or> task_state (ts_state slot) = T_RUNNING"
  defines "woken \<equiv> signalled obj slot"
  shows "ts_wait_object woken = 0" "task_generation (ts_state woken) = task_generation (ts_state slot)"
    "task_state (ts_state woken) = T_RUNNABLE \<or> task_state (ts_state woken) = T_RUNNING \<and> ts_state woken AND WAKE_PENDING \<noteq> 0"
proof -
  have "task_pack (task_generation (ts_state slot)) T_RUNNABLE \<noteq> ts_state slot" if "task_state (ts_state slot) = T_BLOCKED"
    using that by (auto dest: arg_cong [where f = task_state])
  then show "ts_wait_object woken = 0" "task_generation (ts_state woken) = task_generation (ts_state slot)"
    "task_state (ts_state woken) = T_RUNNABLE \<or> task_state (ts_state woken) = T_RUNNING \<and> ts_state woken AND WAKE_PENDING \<noteq> 0"
    using assms by (auto simp: signalled_def plan_effect_def wake_plan_def pending_iff)
qed

text \<open>Delivering wake-ups always ends, wakes the tasks of the sets and leaves the others as they are.\<close>

lemma signal_sets_total:
  assumes "sched_inv s"
  shows "\<exists>s'. signal_sets qs s = Some s' \<and> sched_move\<^sup>*\<^sup>* s s' \<and> sched_inv s'"
  using assms
proof (induction qs arbitrary: s)
  case (Cons q qs)
  obtain s1 where s1: "signal_event_set s q = Some s1" "sched_move\<^sup>*\<^sup>* s s1" "sched_inv s1"
    using signal_event_set_total [OF Cons.prems] by blast
  then show ?case using Cons.IH [OF s1(3)] by (auto intro: rtranclp_trans)
qed simp

lemma signal_sets_woken:
  assumes "signal_sets qs s = Some s'" "sched_inv s" "i < MAX_TASKS" "ts_wait_object (sc_tasks s ! i) = 0"
  shows "sc_tasks s' ! i = sc_tasks s ! i"
  using assms
proof (induction qs arbitrary: s)
  case (Cons q qs)
  obtain s1 where s1: "signal_event_set s q = Some s1" "sched_inv s1"
    "\<And>j. j < MAX_TASKS \<Longrightarrow> raw q \<noteq> 0 \<Longrightarrow> sc_tasks s1 ! j = signalled (raw q) (sc_tasks s ! j)" "raw q = 0 \<Longrightarrow> s1 = s"
    using signal_event_set_total [OF Cons.prems(2)] by metis
  have "sc_tasks s1 ! i = sc_tasks s ! i"
    using s1(3) [OF Cons.prems(3)] s1(4) Cons.prems(4) by (cases "raw q = 0") (auto simp: signalled_other)
  then show ?case using Cons.IH [OF _ s1(2) Cons.prems(3)] Cons.prems(1,4) s1(1) by simp
qed simp

lemma signal_sets_wakes:
  assumes "signal_sets qs s = Some s'" "sched_inv s" "registered_for s h q" "raw q \<noteq> 0"
  shows "if q \<in> set qs then is_woken s' h else registered_for s' h q"
  using assms
proof (induction qs arbitrary: s)
  case (Cons p qs)
  let ?i = "unat (th_slot h)"
  have i: "?i < MAX_TASKS" and reg: "ts_wait_object (sc_tasks s ! ?i) = raw q"
    using Cons.prems(3) by (simp_all add: registered_for_def Let_def)
  obtain s1 where s1: "signal_event_set s p = Some s1" "sched_inv s1"
    "\<And>j. j < MAX_TASKS \<Longrightarrow> raw p \<noteq> 0 \<Longrightarrow> sc_tasks s1 ! j = signalled (raw p) (sc_tasks s ! j)" "raw p = 0 \<Longrightarrow> s1 = s"
    using signal_event_set_total [OF Cons.prems(2)] by metis
  have rest: "signal_sets qs s1 = Some s'" using Cons.prems(1) s1(1) by simp
  show ?case
  proof (cases "p = q")
    case True
    then have now: "sc_tasks s1 ! ?i = signalled (raw q) (sc_tasks s ! ?i)" using s1(3) [OF i] Cons.prems(4) by simp
    have woken: "ts_wait_object (sc_tasks s1 ! ?i) = 0" "is_woken s1 h"
      using signalled_waiting [OF reg] Cons.prems(3) by (simp_all add: now is_woken_def registered_for_def Let_def)
    have "sc_tasks s' ! ?i = sc_tasks s1 ! ?i" by (rule signal_sets_woken [OF rest s1(2) i woken(1)])
    then have "is_woken s' h" using woken(2) by (simp add: is_woken_def)
    then show ?thesis using True by simp
  next
    case False
    then have "raw p \<noteq> raw q" by (metis handle.expand)
    then have "sc_tasks s1 ! ?i = sc_tasks s ! ?i"
      using s1(3) [OF i] s1(4) reg by (cases "raw p = 0") (auto simp: signalled_other)
    then have "registered_for s1 h q" using Cons.prems(3) by (simp add: registered_for_def)
    then show ?thesis using Cons.IH [OF rest s1(2) _ Cons.prems(4)] False by auto
  qed
qed simp

lemma woken_not_waiting: "is_woken s h \<Longrightarrow> raw q \<noteq> 0 \<Longrightarrow> \<not> registered_for s h q"
  by (auto simp: is_woken_def registered_for_def Let_def)

section \<open>Every change of a waiting set is announced\<close>

text \<open>
  An operation on the event tables either wakes a waiting set, or leaves it waiting with the same
  members and raises none of them.
\<close>

definition covered :: "event_registry \<Rightarrow> event_registry \<Rightarrow> event_set_handle \<Rightarrow> event_set_record \<Rightarrow> bool" where
  "covered r r' q rec \<longleftrightarrow> q \<in> set (new_wakes r r')
     \<or> (\<exists>rec'. slot_get (er_sets r') q = Some rec' \<and> es_waiting rec' \<and> es_members rec' = es_members rec
          \<and> (\<forall>e \<in> set (es_members rec). signaled r' e \<longrightarrow> signaled r e))"

lemma covered_woken: "er_woken r' = er_woken r @ qs \<Longrightarrow> q \<in> set qs \<Longrightarrow> covered r r' q rec"
  by (simp add: covered_def new_wakes_def)

lemma covered_kept:
  assumes "slot_get (er_sets r') q = Some rec'" "es_waiting rec'" "es_members rec' = es_members rec"
    "\<And>e. e \<in> set (es_members rec) \<Longrightarrow> signaled r' e \<Longrightarrow> signaled r e"
  shows "covered r r' q rec"
  using assms by (auto simp: covered_def)

lemma covered_tables:
  assumes "slot_get (er_sets r) q = Some rec" "es_waiting rec" "same_tables r r'"
  shows "covered r r' q rec"
  using assms by (intro covered_kept [of _ _ rec]) (auto simp: same_tables_def signaled_def)

lemma create_event_covered:
  assumes "event_inv r" "slot_get (er_sets r) q = Some rec" "es_waiting rec" "length (er_events r) < 2 ^ 32"
  shows "covered r (snd (create_event_with_flags reserve r owner flags)) q rec"
proof -
  obtain res r' where create: "create_event_with_flags reserve r owner flags = (res, r')" by fastforce
  have live: "slot_get (er_events r) e \<noteq> None" if "e \<in> set (es_members rec)" for e
    using members_live [OF assms(1)] assms(2) that by (auto simp: get_set_Ok)
  from create assms(1,4) have "covered r r' q rec"
  proof (cases rule: create_event_cases)
    case (2 i events h)
    show ?thesis
      using assms(2,3) live slot_get_allocated(1,2) [OF 2(1) event_invD(1) [OF assms(1)] assms(4) 2(2)]
      by (intro covered_kept [of _ _ rec]) (auto simp: signaled_def 2(4) split: if_splits)
  qed (rule covered_tables [OF assms(2,3)])
  then show ?thesis by (simp add: create)
qed

lemma covered_line: "covered r r' q rec \<Longrightarrow> covered r (put_line r' source line) q rec"
  by (simp add: covered_def put_line_def new_wakes_def signaled_def)

lemma create_hardware_event_covered:
  assumes "event_inv r" "slot_get (er_sets r) q = Some rec" "es_waiting rec" "length (er_events r) < 2 ^ 32"
  shows "covered r (snd (create_hardware_event reserve r owner source)) q rec"
proof -
  define flags where "flags = (case source of HwNetwork \<Rightarrow> 0 | HwKeyboard \<Rightarrow> DIRECTORY_EVENT_FLAG_HARDWARE_KEYBOARD
    | HwPointer \<Rightarrow> DIRECTORY_EVENT_FLAG_HARDWARE_POINTER)"
  obtain res r1 where made: "create_event_with_flags reserve r owner flags = (res, r1)" by fastforce
  have eq: "create_hardware_event reserve r owner source =
      state_bind (res, r1) (\<lambda>e r. (Ok e, bind_hardware_event r source e))"
    unfolding create_hardware_event_def Let_def flags_def [symmetric] made ..
  have "covered r r1 q rec" using create_event_covered [OF assms, of reserve owner flags] by (simp add: made)
  then show ?thesis by (cases res) (simp_all add: eq bind_hardware_event_def covered_line)
qed

lemma create_set_covered:
  assumes "event_inv r" "slot_get (er_sets r) q = Some rec" "es_waiting rec" "length (er_sets r) < 2 ^ 32"
  shows "covered r (snd (create_set reserve r owner)) q rec"
proof -
  obtain res r' where create: "create_set reserve r owner = (res, r')" by fastforce
  from create assms(1,4) have "covered r r' q rec"
  proof (cases rule: create_set_cases)
    case (2 i sets h)
    show ?thesis
      using assms(2,3) slot_get_allocated(1,2) [OF 2(1) event_invD(2) [OF assms(1)] assms(4) 2(2)]
      by (intro covered_kept [of _ _ rec]) (auto simp: signaled_def 2(4) split: if_splits)
  qed (rule covered_tables [OF assms(2,3)])
  then show ?thesis by (simp add: create)
qed

lemma put_other_covered:
  assumes "slot_get (er_sets r) q = Some rec" "es_waiting rec" "slot_get (er_sets r) p = Some old" "p \<noteq> q"
    "same_tables (put_set r p new) r'"
  shows "covered r r' q rec"
  using assms by (intro covered_kept [of _ _ rec]) (auto simp: same_tables_def put_set_def slot_get_put signaled_def)

lemma membership_covered:
  assumes "slot_get (er_sets r) q = Some rec" "es_waiting rec"
  shows "covered r (snd (set_add reserve r owner p e)) q rec" "covered r (snd (set_remove r owner p e)) q rec"
proof -
  note same = covered_tables [OF assms same_tables_refl]
  have other: "covered r r' q rec" if "slot_get (er_sets r) p = Some old" "\<not> es_waiting old" "same_tables (put_set r p new) r'"
    for old new r'
    using put_other_covered [OF assms that(1) _ that(3)] that(1,2) assms by force
  show "covered r (snd (set_add reserve r owner p e)) q rec"
    using same by (auto simp: set_add_def get_set_Ok intro: other same_tables_hardware split: sum.splits)
  show "covered r (snd (set_remove r owner p e)) q rec"
    using same by (auto simp: set_remove_def get_set_Ok intro: other same_tables_hardware split: sum.splits option.splits)
qed

lemma raise_wakes:
  assumes "event_inv r" "slot_get (er_sets r) q = Some rec" "es_waiting rec" "slot_get (er_events r) e = Some ev" "e \<in> set (es_members rec)"
  shows "q \<in> set (new_wakes r (wake_waiters (put_event r e (ev\<lparr>ev_signaled := True\<rparr>)) e))"
proof -
  let ?r = "put_event r e (ev\<lparr>ev_signaled := True\<rparr>)"
  have "event_inv ?r" using sound_put_event [OF assms(1,4)] by (simp add: event_sound_def)
  moreover have "get_set ?r q = Ok rec" using assms(2) by (simp add: get_set_Ok put_event_def)
  ultimately have "q \<in> set (map fst (waiters ?r e))" using assms(3,5) by (subst waiters_spec) auto
  moreover have "new_wakes r (wake_waiters ?r e) = map fst (waiters ?r e)"
    by (simp add: new_wakes_def wake_waiters_eq put_event_def)
  ultimately show ?thesis by simp
qed

lemma raise_covered:
  assumes "event_inv r" "slot_get (er_sets r) q = Some rec" "es_waiting rec" "slot_get (er_events r) e = Some ev"
  shows "covered r (wake_waiters (put_event r e (ev\<lparr>ev_signaled := True\<rparr>)) e) q rec"
proof (cases "e \<in> set (es_members rec)")
  case True
  then show ?thesis using raise_wakes [OF assms] by (simp add: covered_def)
next
  case False
  then show ?thesis
    using assms by (intro covered_kept [of _ _ rec])
      (auto simp: wake_waiters_eq put_event_def signaled_def slot_get_put split: if_splits)
qed

lemma signal_covered:
  assumes "event_inv r" "slot_get (er_sets r) q = Some rec" "es_waiting rec"
  shows "covered r (snd (signal_irq r e)) q rec" "covered r (snd (event_signal r owner e)) q rec"
  using raise_covered [OF assms] covered_tables [OF assms(2,3) same_tables_refl]
  by (auto simp: signal_irq_def event_signal_def get_event_Ok split: sum.splits)

lemma cancel_covered:
  assumes "slot_get (er_sets r) q = Some rec" "es_waiting rec"
  shows "covered r (snd (cancel_wait r owner p)) q rec"
proof (cases "p = q")
  case True
  then show ?thesis
    using assms covered_tables [OF assms same_tables_refl]
    by (auto simp: cancel_wait_def get_set_eq wake_event_set_def put_set_def intro!: covered_woken)
next
  case False
  then show ?thesis
    using covered_tables [OF assms same_tables_refl]
    by (auto simp: cancel_wait_def get_set_Ok Let_def intro: put_other_covered [OF assms] same_tables_refl same_tables_wake split: sum.splits)
qed

lemma destroy_event_covered:
  assumes "event_inv r" "slot_get (er_sets r) q = Some rec" "es_waiting rec"
  shows "covered r (snd (destroy_event r owner e)) q rec"
proof (cases "\<exists>ev. slot_get (er_events r) e = Some ev \<and> ev_owner ev = owner")
  case True
  then obtain ev where ev: "slot_get (er_events r) e = Some ev" "ev_owner ev = owner" by blast
  obtain r' where r': "destroy_event r owner e = (Ok (), r')"
    "er_events r' = slot_retire (er_events r) (unat (handle_index e))"
    "er_sets r' = slot_map (detach_record e) (er_sets r)" "er_woken r' = er_woken r @ map fst (waiters r e)"
    using destroy_event_live [OF assms(1) ev] by metis
  show ?thesis
  proof (cases "e \<in> set (es_members rec)")
    case True
    then have "q \<in> set (map fst (waiters r e))"
      using assms by (subst waiters_spec) (auto simp: get_set_Ok)
    then show ?thesis unfolding r'(1) snd_conv by (rule covered_woken [OF r'(4)])
  next
    case False
    then have "filter (\<lambda>m. m \<noteq> e) (es_members rec) = es_members rec" by (auto simp: filter_id_conv)
    then show ?thesis
      using assms ev False r' by (intro covered_kept [of _ _ "detach_record e rec"])
        (auto simp: slot_get_map detach_record_def signaled_def slot_get_retire split: if_splits)
  qed
next
  case False
  then show ?thesis using destroy_event_refused [of r e owner] covered_tables [OF assms(2,3) same_tables_refl] by auto
qed

lemma destroy_set_covered:
  assumes "slot_get (er_sets r) q = Some rec" "es_waiting rec"
  shows "covered r (snd (destroy_set r owner p)) q rec"
proof (cases "\<exists>old. slot_get (er_sets r) p = Some old \<and> es_owner old = owner")
  case True
  then obtain old where old: "slot_get (er_sets r) p = Some old" "es_owner old = owner" by blast
  obtain r' where r': "destroy_set r owner p = (Ok (), r')"
    "er_sets r' = slot_retire (er_sets r) (unat (handle_index p))" "er_events r' = er_events r"
    "er_woken r' = er_woken r @ (if es_waiting old then [p] else [])"
    using destroy_set_live [OF old] by metis
  show ?thesis
  proof (cases "p = q")
    case True
    then show ?thesis using r' old assms by (intro covered_woken [of _ _ "[p]"]) auto
  next
    case False
    then show ?thesis
      using r' old assms by (intro covered_kept [of _ _ rec]) (auto simp: slot_get_retire signaled_def)
  qed
next
  case False
  then show ?thesis using destroy_set_refused [of r p owner] covered_tables [OF assms same_tables_refl] by auto
qed

lemma wait_covered:
  assumes "event_inv r" "slot_get (er_sets r) q = Some rec" "es_waiting rec"
    "wait_any r owner p now deadline = (res, r')" "p \<noteq> q"
  shows "covered r r' q rec"
  using assms(4,1)
proof (cases rule: wait_any_cases)
  case (ran old)
  have put: "covered r (put_set r p new) q rec" for new
    using ran(1) assms(5) by (auto simp: get_set_Ok intro: put_other_covered [OF assms(2,3)] same_tables_refl)
  have ready: "covered r (delivered r p old e) q rec" if found: "find (is_ready r) (es_members old) = Some e" for e
  proof -
    obtain ev where ev: "slot_get (er_events r) e = Some ev"
      using members_live [OF assms(1) ran(1)] find_SomeD [OF found] by auto
    show ?thesis
      using assms(2,3,5) ran(1) clear_signal_live [OF ev] by (intro covered_kept [of _ _ rec])
        (auto simp: delivered_def put_set_def slot_get_put get_set_Ok signaled_def split: if_splits)
  qed
  show ?thesis
    using assms(4) put ready by (auto simp: wait_any_eq [OF assms(1) ran] split: option.splits if_splits)
qed (simp add: covered_tables [OF assms(2,3)])

text \<open>A wait on the set that changes it; only the task of the set does that, and not while it waits.\<close>

definition waits_again :: "event_set_handle \<Rightarrow> event_registry \<Rightarrow> event_registry \<Rightarrow> bool" where
  "waits_again q r r' \<longleftrightarrow> r' \<noteq> r \<and> (\<exists>owner now deadline res. wait_any r owner q now deadline = (res, r'))"

lemma event_step_covered:
  assumes "event_step r l r'" "event_inv r" "slot_get (er_sets r) q = Some rec" "es_waiting rec" "\<not> waits_again q r r'"
  shows "covered r r' q rec"
  using assms(1)
proof (cases rule: event_step.cases)
  case (ev_waits owner p now deadline res)
  then show ?thesis
    using wait_covered [OF assms(2-4)] assms(5) covered_tables [OF assms(3,4) same_tables_refl]
    by (cases "p = q") (auto simp: waits_again_def)
qed (use assms in \<open>simp_all add: create_event_covered create_hardware_event_covered create_set_covered membership_covered
      signal_covered cancel_covered destroy_event_covered destroy_set_covered covered_tables same_tables_hardware
      bind_hardware_event_def clear_hardware_event_def\<close>)

end
