(* ===== verification/Event_Wakeups.thy ===== *)
theory Event_Wakeups
  imports Event_Calls
begin

text \<open>
  What the event tables and the scheduler guarantee together: a dispatched call returns and is a run
  of the operations of both, a task that sleeps on a set has nothing to wake up for, and a message
  wakes the task that waits for it.
\<close>

section \<open>Runs of calls\<close>

lemma interrupt_step: "event_step r None (interrupt_events irq r)"
  by (cases irq) (simp_all add: ev_interrupts ev_hardware)

lemma interrupt_sets [simp]: "er_sets (interrupt_events irq r) = er_sets r"
  by (cases irq) (auto simp: signal_irq_def put_event_def wake_waiters_eq split: sum.splits)

lemma interrupts_total:
  assumes "event_inv r" "sched_inv s"
  shows "\<exists>r' s'. interrupts irqs r s = Some (r', s') \<and> event_move\<^sup>*\<^sup>* r r' \<and> sched_move\<^sup>*\<^sup>* s s' \<and> event_inv r' \<and> sched_inv s'
    \<and> er_sets r' = er_sets r"
  using assms
proof (induction irqs arbitrary: r s)
  case (Cons irq irqs)
  define r1 where "r1 = interrupt_events irq r"
  have move: "event_move r r1" using interrupt_step by (auto simp: event_move_def r1_def)
  then have inv: "event_inv r1" using event_move_sound Cons.prems(1) by (auto simp: event_sound_def)
  obtain s1 where s1: "signal_sets (new_wakes r r1) s = Some s1" "sched_move\<^sup>*\<^sup>* s s1" "sched_inv s1"
    using signal_sets_total [OF Cons.prems(2)] by blast
  obtain r2 s2 where rest: "interrupts irqs r1 s1 = Some (r2, s2)" "event_move\<^sup>*\<^sup>* r1 r2" "sched_move\<^sup>*\<^sup>* s1 s2"
    "event_inv r2" "sched_inv s2" "er_sets r2 = er_sets r1"
    using Cons.IH [OF inv s1(3)] by blast
  have "interrupts (irq # irqs) r s = Some (r2, s2)" using s1(1) rest(1) by (simp add: r1_def Let_def)
  moreover have "event_move\<^sup>*\<^sup>* r r2" using move rest(2) by simp
  moreover have "sched_move\<^sup>*\<^sup>* s s2" using s1(2) rest(3) by simp
  moreover have "er_sets r2 = er_sets r" using rest(6) by (simp add: r1_def)
  ultimately show ?case using rest(4,5) by blast
qed simp

lemma register_wait:
  assumes "sched_inv s" "prepare_service_event_set_wait s h q deadline = (res, action, s')"
  shows "sched_move\<^sup>*\<^sup>* s s'" "sched_inv s'"
    "res = Some True \<and> action = Some (if deadline = - 1 then ActionBlock else ActionTimedBlock) \<or> res = None \<and> action = None"
proof -
  obtain b s1 where reg: "wait_for_event_object quiet s h (raw q) deadline = (b, s1)" by fastforce
  then have b: "b = None \<or> b = Some True" by (auto simp: wait_for_event_object_def split: if_splits)
  have eq: "s' = s1" "res = b" "action = (if b = None then None else Some (if deadline = - 1 then ActionBlock else ActionTimedBlock))"
    using assms(2) b by (auto simp: prepare_service_event_set_wait_def reg)
  have step: "sched_step s Other s'" using sc_waits [of s h "raw q" deadline] by (simp add: reg eq(1))
  then show "sched_move\<^sup>*\<^sup>* s s'" by (intro r_into_rtranclp) (auto simp: sched_move_def)
  show "sched_inv s'" by (rule sched_step_inv [OF step assms(1)])
  show "res = Some True \<and> action = Some (if deadline = - 1 then ActionBlock else ActionTimedBlock) \<or> res = None \<and> action = None"
    using b eq by auto
qed

text \<open>After a signal of a set no task is registered for it.\<close>

lemma signal_clears:
  assumes "signal_event_set s q = Some s'" "sched_inv s" "raw q \<noteq> 0"
  shows "\<not> registered_for s' h q"
proof
  assume waits: "registered_for s' h q"
  let ?i = "unat (th_slot h)"
  have i: "?i < MAX_TASKS" using waits by (simp add: registered_for_def Let_def)
  obtain s1 where s1: "signal_event_set s q = Some s1"
    "\<And>j. j < MAX_TASKS \<Longrightarrow> raw q \<noteq> 0 \<Longrightarrow> sc_tasks s1 ! j = signalled (raw q) (sc_tasks s ! j)"
    using signal_event_set_total [OF assms(2)] by metis
  then have slot: "sc_tasks s' ! ?i = signalled (raw q) (sc_tasks s ! ?i)" using assms(1,3) i by simp
  show False
    using signalled_waiting(1) [of "sc_tasks s ! ?i" "raw q"] waits slot assms(3)
    by (cases "ts_wait_object (sc_tasks s ! ?i) = raw q
        \<and> (task_state (ts_state (sc_tasks s ! ?i)) = T_BLOCKED \<or> task_state (ts_state (sc_tasks s ! ?i)) = T_RUNNING)")
      (auto simp: registered_for_def Let_def signalled_def)
qed

lemma live_raw: "event_inv r \<Longrightarrow> slot_get (er_sets r) q = Some rec \<Longrightarrow> raw q \<noteq> 0"
proof
  assume "event_inv r" "slot_get (er_sets r) q = Some rec" "raw q = 0"
  then have "sl_generation (er_sets r ! unat (handle_index q)) = 0" "unat (handle_index q) < length (er_sets r)"
    by (auto simp: slot_get_Some slot_at_Some handle_generation_def)
  with event_invD(2) [OF \<open>event_inv r\<close>] show False by (auto simp: slots_ok_def)
qed

text \<open>A set with a sleeper that nobody has to wake.\<close>

definition quiet_set :: "event_registry \<Rightarrow> event_set_handle \<Rightarrow> bool" where
  "quiet_set r q \<longleftrightarrow> (\<exists>rec. slot_get (er_sets r) q = Some rec \<and> es_waiting rec
     \<and> (\<forall>e \<in> set (es_members rec). \<not> signaled r e))"

lemma has_ready_live:
  assumes "event_inv r" "slot_get (er_sets r) q = Some rec"
  shows "has_ready_event r (es_owner rec) q = Ok (list_ex (is_ready r) (es_members rec))"
  using assms(2) any_ready_eq [OF members_live [OF assms(1), of q rec]] by (simp add: has_ready_event_def get_set_eq)

lemma prepare_outcome:
  assumes "event_inv r" "sched_inv s" "slot_get (er_sets r) q = Some rec" "es_waiting rec" "es_owner rec = owner"
  shows "\<exists>res action r' s'. prepare_dynamic_event_wait before after r s (Some h) owner q deadline = Some (res, action, r', s')
    \<and> event_move\<^sup>*\<^sup>* r r' \<and> sched_move\<^sup>*\<^sup>* s s' \<and> event_inv r' \<and> sched_inv s'
    \<and> (res = Ok () \<longrightarrow> action = Some (if deadline = - 1 then ActionBlock else ActionTimedBlock)
         \<and> (registered_for s' h q \<longrightarrow> quiet_set r' q))"
proof -
  let ?P = "prepare_dynamic_event_wait before after r s (Some h) owner q deadline"
  have members: "set_members r owner q = Ok (es_members rec)" using assms(3,5) by (simp add: set_members_def get_set_eq)
  obtain r1 s1 where irq1: "interrupts before r s = Some (r1, s1)" "event_move\<^sup>*\<^sup>* r r1" "sched_move\<^sup>*\<^sup>* s s1"
    "event_inv r1" "sched_inv s1" "er_sets r1 = er_sets r"
    using interrupts_total [OF assms(1,2)] by blast
  obtain b action s2 where reg: "prepare_service_event_set_wait s1 h q deadline = (b, action, s2)" by (cases rule: prod_cases3)
  note registered = register_wait [OF irq1(5) reg]
  have move12: "sched_move\<^sup>*\<^sup>* s s2" using irq1(3) registered(1) by simp
  show ?thesis
  proof (cases b)
    case None
    then have "?P = Some (Err EsStale, action, r1, s2)" by (simp add: prepare_dynamic_event_wait_def members irq1(1) reg)
    then show ?thesis using irq1 move12 registered(2) by auto
  next
    case (Some should)
    then have should: "should" "action = Some (if deadline = - 1 then ActionBlock else ActionTimedBlock)"
      using registered(3) by auto
    obtain r3 s3 where irq3: "interrupts after r1 s2 = Some (r3, s3)" "event_move\<^sup>*\<^sup>* r1 r3" "sched_move\<^sup>*\<^sup>* s2 s3"
      "event_inv r3" "sched_inv s3" "er_sets r3 = er_sets r1"
      using interrupts_total [OF irq1(4) registered(2)] by blast
    have rec3: "slot_get (er_sets r3) q = Some rec" using assms(3) irq1(6) irq3(6) by simp
    have moves: "event_move\<^sup>*\<^sup>* r r3" "sched_move\<^sup>*\<^sup>* s s3" using irq1(2) irq3(2,3) move12 by simp_all
    have P: "?P = (if list_ex (is_ready r3) (es_members rec) then Option.bind (signal_event_set s3 q) (\<lambda>s. Some (Ok (), action, r3, s))
        else Some (Ok (), action, r3, s3))"
      using has_ready_live [OF irq3(4) rec3] assms(5) Some should(1)
      by (simp add: prepare_dynamic_event_wait_def members irq1(1) reg irq3(1))
    show ?thesis
    proof (cases "list_ex (is_ready r3) (es_members rec)")
      case True
      obtain s4 where s4: "signal_event_set s3 q = Some s4" "sched_move\<^sup>*\<^sup>* s3 s4" "sched_inv s4"
        using signal_event_set_total [OF irq3(5)] by blast
      have "\<not> registered_for s4 h q" by (rule signal_clears [OF s4(1) irq3(5) live_raw [OF irq3(4) rec3]])
      moreover have "sched_move\<^sup>*\<^sup>* s s4" using moves(2) s4(2) by simp
      ultimately show ?thesis using P True s4 should(2) moves irq3(4) by simp
    next
      case False
      then have "quiet_set r3 q"
        using rec3 assms(4) by (auto simp: quiet_set_def list_ex_iff is_ready_def signaled_def)
      then show ?thesis using P False should(2) moves irq3(4,5) by simp
    qed
  qed
qed

text \<open>What holds of the outcome of every call.\<close>

definition call_runs ::
    "event_request \<Rightarrow> event_registry \<Rightarrow> scheduler \<Rightarrow> (event_response \<times> wait_action option \<times> event_registry \<times> scheduler) option \<Rightarrow> bool" where
  "call_runs request r s outcome \<longleftrightarrow> (\<exists>response action r' s'. outcome = Some (response, action, r', s')
     \<and> event_response_is_valid_for response request \<and> event_move\<^sup>*\<^sup>* r r' \<and> sched_move\<^sup>*\<^sup>* s s'
     \<and> (erp_status response = EsPending \<longrightarrow> erq_operation request = EvWait
          \<and> action = Some (if erq_deadline request = - 1 then ActionBlock else ActionTimedBlock)))"

lemma event_status_of_not_pending [simp]: "event_status_of err \<noteq> EsPending"
  by (cases err) simp_all

lemma response_valid:
  "event_response_is_valid_for response request \<longleftrightarrow> erp_abi_version response = RUNTIME_ABI_VERSION \<and> erp_reserved response = 0
     \<and> erp_request_id response = erq_request_id request"
  by (auto simp: event_response_is_valid_for_def event_status_round_trip)

lemma response_empty_fields [simp]:
  "erp_abi_version (event_response_empty status n) = RUNTIME_ABI_VERSION" "erp_reserved (event_response_empty status n) = 0"
  "erp_request_id (event_response_empty status n) = n"
  by (simp_all add: event_response_empty_def)

lemma table_call_runs:
  assumes "event_step r None (snd outcome)" "sched_inv s" "event_response_is_valid_for response request"
    "\<And>x. event_response_is_valid_for (fill x response) request"
  shows "call_runs request r s (table_call r s outcome fill response)"
proof -
  obtain s' where "signal_sets (new_wakes r (snd outcome)) s = Some s'" "sched_move\<^sup>*\<^sup>* s s'"
    using signal_sets_total [OF assms(2)] by blast
  moreover have "event_move\<^sup>*\<^sup>* r (snd outcome)" using assms(1) by (intro r_into_rtranclp) (auto simp: event_move_def)
  ultimately show ?thesis
    using assms(3,4) by (auto simp: table_call_def call_runs_def response_valid split: sum.splits)
qed

lemma signal_call_runs:
  assumes "sched_inv s" "erq_operation request = EvSignal"
  shows "call_runs request r s (event_dispatch reserve known before after now task owner request r s)"
proof -
  obtain res r' where sig: "event_signal r owner (erq_event request) = (res, r')" by fastforce
  have "event_step r None r'" using ev_signals [of r owner "erq_event request"] by (simp add: sig)
  then have move: "event_move\<^sup>*\<^sup>* r r'" by (intro r_into_rtranclp) (auto simp: event_move_def)
  obtain s1 where s1: "signal_sets (new_wakes r r') s = Some s1" "sched_move\<^sup>*\<^sup>* s s1" "sched_inv s1"
    using signal_sets_total [OF assms(1)] by blast
  obtain s2 where s2: "signal_dynamic_event_waiters known r' (erq_event request) s1 = Some s2" "sched_move\<^sup>*\<^sup>* s1 s2"
    using signal_sets_total [OF s1(3)] by (force simp: signal_dynamic_event_waiters_def)
  have "sched_move\<^sup>*\<^sup>* s s2" using s1(2) s2(2) by simp
  then show ?thesis using move s1(1) s2(1)
    by (cases res) (auto simp: call_runs_def event_dispatch_def assms(2) sig response_valid Let_def)
qed

lemma waiting_after:
  assumes "event_inv r" "wait_any r owner q now deadline = (Ok WaitPending, r')"
  obtains rec where "slot_get (er_sets r') q = Some rec" "es_waiting rec" "es_owner rec = owner" "event_inv r'" "event_move r r'"
proof -
  have move: "event_move r r'" using ev_waits [OF assms(2)] by (auto simp: event_move_def)
  have inv: "event_inv r'" using event_move_sound [OF move assms(1)] by (simp add: event_sound_def)
  from assms(2,1) show thesis
  proof (cases rule: wait_any_cases)
    case (ran rec)
    then have "r' = put_set r q (rec\<lparr>es_waiting := True\<rparr>)"
      using assms(2) by (auto simp: wait_any_eq [OF assms(1) ran] split: option.splits if_splits)
    then have "slot_get (er_sets r') q = Some (rec\<lparr>es_waiting := True\<rparr>)"
      using ran(1) by (simp add: put_set_def get_set_Ok slot_get_put)
    then show thesis using that ran(2) inv move by simp
  qed simp
qed

lemma wait_dispatch:
  assumes "event_inv r" "sched_inv s" "erq_operation request = EvWait"
  shows "\<exists>response action r' s'. event_dispatch reserve known before after now (Some h) owner request r s = Some (response, action, r', s')
    \<and> event_response_is_valid_for response request \<and> event_move\<^sup>*\<^sup>* r r' \<and> sched_move\<^sup>*\<^sup>* s s' \<and> event_inv r' \<and> sched_inv s'
    \<and> (erp_status response = EsPending \<longrightarrow>
         action = Some (if erq_deadline request = - 1 then ActionBlock else ActionTimedBlock)
         \<and> (registered_for s' h (erq_event_set request) \<longrightarrow> quiet_set r' (erq_event_set request)))"
proof -
  let ?q = "erq_event_set request"
  define deadline where "deadline = (if erq_deadline request \<noteq> - 1 then Some (erq_deadline request) else None)"
  obtain res r1 where wait: "wait_any r owner ?q now deadline = (res, r1)" by fastforce
  have move: "event_move r r1" using ev_waits [OF wait] by (auto simp: event_move_def)
  then have inv: "event_inv r1" using event_move_sound assms(1) by (auto simp: event_sound_def)
  note dispatch = event_dispatch_def assms(3) deadline_def [symmetric] wait
  show ?thesis
  proof (cases "res = Ok WaitPending")
    case True
    obtain rec where rec: "slot_get (er_sets r1) ?q = Some rec" "es_waiting rec" "es_owner rec = owner"
      using waiting_after [OF assms(1)] wait True by metis
    obtain prepared action r' s' where out:
      "prepare_dynamic_event_wait before after r1 s (Some h) owner ?q (erq_deadline request) = Some (prepared, action, r', s')"
      "event_move\<^sup>*\<^sup>* r1 r'" "sched_move\<^sup>*\<^sup>* s s'" "event_inv r'" "sched_inv s'"
      "prepared = Ok () \<longrightarrow> action = Some (if erq_deadline request = - 1 then ActionBlock else ActionTimedBlock)
         \<and> (registered_for s' h ?q \<longrightarrow> quiet_set r' ?q)"
      using prepare_outcome [OF inv assms(2) rec] by blast
    have "event_dispatch reserve known before after now (Some h) owner request r s
        = Some ((event_response_empty EsMalformed (erq_request_id request))\<lparr>erp_status := if result_is_ok prepared then EsPending else EsStale\<rparr>,
            action, r', s')"
      using True out(1) by (simp add: dispatch)
    moreover have "event_move\<^sup>*\<^sup>* r r'" using move out(2) by simp
    ultimately show ?thesis using out(3-6) by (cases prepared) (auto simp: response_valid)
  next
    case False
    then have "\<exists>response. event_dispatch reserve known before after now (Some h) owner request r s = Some (response, None, r1, s)
        \<and> event_response_is_valid_for response request \<and> erp_status response \<noteq> EsPending"
      by (cases res) (auto simp: dispatch response_valid Let_def split: event_wait.splits)
    then show ?thesis using move inv assms(2) by blast
  qed
qed

lemma unscheduled_wait:
  assumes "erq_operation request = EvWait"
  shows "call_runs request r s (event_dispatch reserve known before after now None owner request r s)"
proof -
  let ?q = "erq_event_set request"
  define deadline where "deadline = (if erq_deadline request \<noteq> - 1 then Some (erq_deadline request) else None)"
  obtain res r1 where wait: "wait_any r owner ?q now deadline = (res, r1)" by fastforce
  have move: "event_move\<^sup>*\<^sup>* r r1" using ev_waits [OF wait] by (intro r_into_rtranclp) (auto simp: event_move_def)
  obtain status where "prepare_dynamic_event_wait before after r1 s None owner ?q (erq_deadline request) = Some (Err status, None, r1, s)"
    by (cases "set_members r1 owner ?q") (simp_all add: prepare_dynamic_event_wait_def)
  then show ?thesis using move
    by (cases res) (auto simp: call_runs_def event_dispatch_def assms deadline_def [symmetric] wait response_valid Let_def
        split: event_wait.splits)
qed

text \<open>
  Every call returns with a response that passes the check of the caller, and what it does to the
  event tables and to the scheduler is a sequence of their operations.
\<close>

lemma dispatch_runs:
  assumes "event_inv r" "sched_inv s" "length (er_events r) < 2 ^ 32" "length (er_sets r) < 2 ^ 32"
  shows "call_runs request r s (event_dispatch reserve known before after now task owner request r s)"
proof (cases "erq_operation request")
  case EvWait
  show ?thesis
  proof (cases task)
    case None
    then show ?thesis using unscheduled_wait [OF EvWait] by simp
  next
    case (Some h)
    then show ?thesis using wait_dispatch [OF assms(1,2) EvWait] EvWait unfolding call_runs_def by blast
  qed
next
  case EvSignal
  then show ?thesis by (rule signal_call_runs [OF assms(2)])
qed (use assms(3,4) in \<open>auto simp: event_dispatch_def response_valid create_event_def Let_def
      intro!: table_call_runs assms(1,2) event_step.intros\<close>)

section \<open>Sleeping tasks\<close>

text \<open>
  What happens while a task stays registered for a set: operations on the event tables, whose
  wake-ups are delivered, and operations of the scheduler, in any order.
\<close>

inductive asleep :: "task_handle \<Rightarrow> event_set_handle \<Rightarrow> event_registry \<Rightarrow> scheduler \<Rightarrow> event_registry \<Rightarrow> scheduler \<Rightarrow> bool"
  for h q r s where
  asleep_refl: "registered_for s h q \<Longrightarrow> asleep h q r s r s"
| asleep_event: "\<lbrakk>asleep h q r s r1 s1; event_step r1 l r2; \<not> waits_again q r1 r2;
      signal_sets (new_wakes r1 r2) s1 = Some s2; registered_for s2 h q\<rbrakk> \<Longrightarrow> asleep h q r s r2 s2"
| asleep_sched: "\<lbrakk>asleep h q r s r1 s1; sched_step s1 l s2; registered_for s2 h q\<rbrakk> \<Longrightarrow> asleep h q r s r1 s2"

lemma asleep_quiet:
  assumes "asleep h q r s r' s'" "event_inv r" "sched_inv s" "quiet_set r q"
  shows "event_inv r' \<and> sched_inv s' \<and> registered_for s' h q \<and> quiet_set r' q"
  using assms
proof (induction rule: asleep.induct)
  case (asleep_event r1 s1 l r2 s2)
  then have prev: "event_inv r1" "sched_inv s1" "registered_for s1 h q" "quiet_set r1 q" by auto
  then obtain rec where rec: "slot_get (er_sets r1) q = Some rec" "es_waiting rec" "\<forall>e \<in> set (es_members rec). \<not> signaled r1 e"
    by (auto simp: quiet_set_def)
  have raw: "raw q \<noteq> 0" by (rule live_raw [OF prev(1) rec(1)])
  have "q \<notin> set (new_wakes r1 r2)"
    using signal_sets_wakes [OF asleep_event.hyps(4) prev(2,3) raw] woken_not_waiting [OF _ raw] asleep_event.hyps(5) by auto
  then have "quiet_set r2 q"
    using event_step_covered [OF asleep_event.hyps(2) prev(1) rec(1,2) asleep_event.hyps(3)] rec(3)
    by (auto simp: covered_def quiet_set_def)
  moreover have "event_inv r2"
    using event_step_sound [OF asleep_event.hyps(2) prev(1)] by (simp add: event_sound_def)
  moreover have "sched_inv s2" using signal_sets_total [OF prev(2), of "new_wakes r1 r2"] asleep_event.hyps(4) by auto
  ultimately show ?case using asleep_event.hyps(5) by simp
next
  case (asleep_sched r1 s1 l s2)
  then show ?case using sched_step_inv by auto
qed simp

section \<open>Properties\<close>

text \<open>The first task of the scheduler example, registered for a set.\<close>

lemma first_task_registers:
  assumes "sched_inv s" "sc_word s 0 = task_pack 1 T_RUNNING" "raw q \<noteq> 0"
  obtains s' where "prepare_service_event_set_wait s first_task q deadline
      = (Some True, Some (if deadline = - 1 then ActionBlock else ActionTimedBlock), s')"
    "registered_for s' first_task q" "sched_move\<^sup>*\<^sup>* s s'"
proof -
  have len: "length (sc_tasks s) = 24" using assms(1) by (simp add: sched_inv_def)
  then have runs: "task_runs s first_task"
    using assms(2) by (simp add: task_runs_def sc_slot_def slice_get_def sc_word_def take_bit_eq_mod)
  define s' where "s' = sc_update s 0 (fold apply_store [StoreWaitObject 0, StoreDeadline deadline, StoreWaitObject (raw q)])"
  have prep: "prepare_service_event_set_wait s first_task q deadline
      = (Some True, Some (if deadline = - 1 then ActionBlock else ActionTimedBlock), s')"
    using runs assms(3) by (simp add: prepare_service_event_set_wait_def wait_for_event_object_def store_all_quiet s'_def
        del: store_all.simps)
  moreover have "registered_for s' first_task q"
    using len assms(2) by (simp add: registered_for_def s'_def sc_update_nth sc_word_def take_bit_eq_mod)
  ultimately show thesis using that register_wait(1) [OF assms(1) prep] by blast
qed

abbreviation wakeup_demo_request :: event_request where
  "wakeup_demo_request \<equiv> (event_request_new EvWait 1)\<lparr>erq_event_set := event_demo_first\<rparr>"

abbreviation wakeup_demo_waiting :: event_registry where
  "wakeup_demo_waiting \<equiv> event_demo_events [event_demo_set [event_demo_first] True, event_demo_set [] False] (event_demo_line 0x100000000)"

lemma wakeup_demo_wait:
  "wait_any event_demo_ready event_demo_owner event_demo_first now None = (Ok WaitPending, wakeup_demo_waiting)"
proof -
  have inv: "event_inv event_demo_ready" by (rule event_inv_reachable [OF event_demo_reachable])
  have get: "get_set event_demo_ready event_demo_first = Ok (event_demo_set [event_demo_first] False)" by (simp add: get_set_eq)
  have "\<not> is_ready event_demo_ready event_demo_first"
    by (simp add: is_ready_def hardware_event_is_pending_def hardware_sources_def event_demo_line_def hardware_idle_def event_demo_event_def)
  then show ?thesis
    using wait_any_eq [OF inv get, of event_demo_owner None now]
    by (simp add: put_set_def) (simp add: event_demo_defs slot_put_def)
qed

lemma wakeup_demo_pending:
  obtains s s' where "sched_move\<^sup>*\<^sup>* scheduler_new s" "sched_move\<^sup>*\<^sup>* scheduler_new s'" "registered_for s' first_task event_demo_first"
    "event_dispatch reserve known [] [] now (Some first_task) event_demo_owner wakeup_demo_request event_demo_ready s
      = Some (event_response_empty EsPending 1, Some ActionBlock, wakeup_demo_waiting, s')"
proof -
  obtain s where s: "sched_move\<^sup>*\<^sup>* scheduler_new s" "sc_word s 0 = task_pack 1 T_RUNNING" by (rule turn_of_first)
  obtain s' where s': "prepare_service_event_set_wait s first_task event_demo_first (- 1) = (Some True, Some ActionBlock, s')"
    "registered_for s' first_task event_demo_first" "sched_move\<^sup>*\<^sup>* s s'"
    using first_task_registers [OF sched_inv_reachable [OF s(1)] s(2), of event_demo_first "- 1"] by auto
  have ready: "has_ready_event wakeup_demo_waiting event_demo_owner event_demo_first = Ok False"
    by (simp add: has_ready_event_def get_set_eq event_ready_def get_event_eq hardware_event_is_pending_def hardware_sources_def
        event_demo_line_def hardware_idle_def event_demo_event_def)
  have "set_members wakeup_demo_waiting event_demo_owner event_demo_first = Ok [event_demo_first]"
    by (simp add: set_members_def get_set_eq)
  then have "event_dispatch reserve known [] [] now (Some first_task) event_demo_owner wakeup_demo_request event_demo_ready s
      = Some (event_response_empty EsPending 1, Some ActionBlock, wakeup_demo_waiting, s')"
    using s'(1) ready by (simp add: event_dispatch_def event_request_new_def wakeup_demo_wait prepare_dynamic_event_wait_def
        event_response_empty_def Let_def)
  then show thesis using that s(1) s'(2,3) by (meson rtranclp_trans)
qed



text \<open>The consumer of the endpoint example waits for its messages.\<close>

definition wakeup_demo_set :: "event_handle list \<Rightarrow> bool \<Rightarrow> event_set_record" where
  "wakeup_demo_set ms w = \<lparr>es_owner = ipc_demo_consumer, es_members = ms, es_waiting = w, es_invalidated = False\<rparr>"

abbreviation wakeup_demo_state :: "event_set_record list \<Rightarrow> ipc_state" where
  "wakeup_demo_state sets \<equiv> ipc_demo\<lparr>is_events := (is_events ipc_demo)\<lparr>er_sets := map event_demo_slot sets\<rparr>\<rparr>"

lemma wakeup_demo_events [simp]:
  "er_events (is_events ipc_demo) = [event_demo_slot (ipc_demo_event ipc_demo_consumer), event_demo_slot (ipc_demo_event event_demo_owner)]"
  "er_sets (is_events ipc_demo) = []" "er_generation_seed (is_events ipc_demo) = 1" "er_hardware (is_events ipc_demo) = (\<lambda>_. hardware_idle)"
  by (simp_all add: ipc_demo_state_def)

lemma wakeup_demo_set_fields [simp]:
  "es_owner (wakeup_demo_set ms w) = ipc_demo_consumer" "es_members (wakeup_demo_set ms w) = ms"
  "\<not> es_invalidated (wakeup_demo_set ms w)" "es_waiting (wakeup_demo_set ms w) = w" "ev_owner (ipc_demo_event owner) = owner"
  by (simp_all add: wakeup_demo_set_def ipc_demo_event_def)

lemma wakeup_demo_steps:
  fixes now :: u64
  defines "events \<equiv> \<lambda>sets. is_events (wakeup_demo_state sets)"
  shows "create_set (\<lambda>_. True) (is_events ipc_demo) ipc_demo_consumer = (Ok event_demo_first, events [wakeup_demo_set [] False])"
    "set_add (\<lambda>_. True) (events [wakeup_demo_set [] False]) ipc_demo_consumer event_demo_first event_demo_first
      = (Ok (), events [wakeup_demo_set [event_demo_first] False])"
    "wait_any (events [wakeup_demo_set [event_demo_first] False]) ipc_demo_consumer event_demo_first now None
      = (Ok WaitPending, events [wakeup_demo_set [event_demo_first] True])"
proof -
  show "create_set (\<lambda>_. True) (is_events ipc_demo) ipc_demo_consumer = (Ok event_demo_first, events [wakeup_demo_set [] False])"
    by (simp add: create_set_def allocate_set_slot_def slot_allocate_def fresh_slot_def slot_handle_of_def slot_put_def
        event_demo_slot_def wakeup_demo_set_def events_def)
  show "set_add (\<lambda>_. True) (events [wakeup_demo_set [] False]) ipc_demo_consumer event_demo_first event_demo_first
      = (Ok (), events [wakeup_demo_set [event_demo_first] False])"
    by (simp add: set_add_def get_event_eq get_set_eq events_def)
      (simp add: put_set_def slot_put_def bind_all_hardware_wait_sets_def hardware_sources_def bind_hardware_wait_set_def
        hardware_idle_def wakeup_demo_set_def event_demo_slot_def)
  show "wait_any (events [wakeup_demo_set [event_demo_first] False]) ipc_demo_consumer event_demo_first now None
      = (Ok WaitPending, events [wakeup_demo_set [event_demo_first] True])"
    by (simp add: wait_any_def get_set_eq events_def slice_get_def event_ready_def get_event_eq
        hardware_event_is_pending_def hardware_sources_def hardware_idle_def set_waiting_def)
      (simp add: put_set_def slot_put_def wakeup_demo_set_def event_demo_slot_def ipc_demo_event_def)
qed

abbreviation wakeup_demo :: ipc_state where
  "wakeup_demo \<equiv> wakeup_demo_state [wakeup_demo_set [event_demo_first] True]"

lemma wakeup_demo_reachable: "ipc_move\<^sup>*\<^sup>* ipc_demo_start wakeup_demo"
proof -
  have step: "ipc_move\<^sup>*\<^sup>* ipc_demo_start (ipc_demo\<lparr>is_events := events'\<rparr>)"
    if "ipc_move\<^sup>*\<^sup>* ipc_demo_start (ipc_demo\<lparr>is_events := events\<rparr>)" "event_step events l events'" for events events' l
    using that(1) ic_events [of "ipc_demo\<lparr>is_events := events\<rparr>" events'] that(2)
    by (intro rtranclp.rtrancl_into_rtrancl [OF that(1)]) (auto simp: ipc_move_def event_move_def)
  have "ipc_move\<^sup>*\<^sup>* ipc_demo_start (wakeup_demo_state [wakeup_demo_set [] False])"
    using step [of "is_events ipc_demo", OF _ ev_creates_set [of _ "\<lambda>_. True" ipc_demo_consumer]] ipc_demo_reachable
    by (simp add: wakeup_demo_steps(1))
  then have "ipc_move\<^sup>*\<^sup>* ipc_demo_start (wakeup_demo_state [wakeup_demo_set [event_demo_first] False])"
    using step [OF _ ev_adds [of _ "\<lambda>_. True" ipc_demo_consumer event_demo_first event_demo_first]]
      wakeup_demo_steps(2) by fastforce
  then show ?thesis using step [OF _ ev_waits [OF wakeup_demo_steps(3) [of 0]]] by simp
qed

text \<open>
  C10: A message wakes its consumer. If a task is registered for a set that waits and contains the read
  event of an endpoint, a successful send on that endpoint wakes the task: it becomes runnable, or
  if it has not blocked yet, its wake-up is pending. The next wait on the set returns at once with
  one of its events.
\<close>

theorem message_wakes_consumer:
  assumes "ipc_move\<^sup>*\<^sup>* (ipc_start g budget eg hardware mem) k" "sched_move\<^sup>*\<^sup>* scheduler_new s"
    "ipc_send (is_ipc k) (is_events k) (is_memory k) caller c bytes = Some (IpcOk, r, events, mem')"
    "slot_get (ir_capabilities (is_ipc k)) c = Some grant" "slot_get (ir_endpoints (is_ipc k)) (cr_endpoint grant) = Some ep"
    "get_set (is_events k) q = Ok rec" "es_waiting rec" "\<not> es_invalidated rec" "ep_read_event ep \<in> set (es_members rec)"
    "registered_for s h q"
  shows "\<exists>s'. signal_sets (new_wakes (is_events k) events) s = Some s' \<and> is_woken s' h
    \<and> (\<exists>e events'. wait_any events (es_owner rec) q now None = (Ok (WaitReady e), events') \<and> e \<in> set (es_members rec))"
proof -
  let ?e = "ep_read_event ep"
  have inv: "event_inv (is_events k)" "sched_inv s"
    by (rule ipc_events_reachable [OF assms(1)], rule sched_inv_reachable [OF assms(2)])
  have rec: "slot_get (er_sets (is_events k)) q = Some rec" using assms(6) by (simp add: get_set_Ok)
  obtain ev where ev: "slot_get (er_events (is_events k)) ?e = Some ev"
    using members_live [OF inv(1) assms(6)] assms(9) by blast
  have irq: "events = snd (signal_irq (is_events k) ?e)"
    using assms(3-5) by (auto simp: ipc_send_def get_capability_def get_endpoint_eq split: if_splits option.splits)
  then have events: "events = wake_waiters (put_event (is_events k) ?e (ev\<lparr>ev_signaled := True\<rparr>)) ?e"
    using ev by (simp add: signal_irq_def get_event_eq)
  obtain s' where s': "signal_sets (new_wakes (is_events k) events) s = Some s'" using signal_sets_total [OF inv(2)] by blast
  have "q \<in> set (new_wakes (is_events k) events)" unfolding events by (rule raise_wakes [OF inv(1) rec assms(7) ev assms(9)])
  then have woken: "is_woken s' h" using signal_sets_wakes [OF s' inv(2) assms(10) live_raw [OF inv(1) rec]] by simp
  have inv': "event_inv events" using signal_sound(1) [OF inv(1)] by (simp add: irq event_sound_def)
  have get: "get_set events q = Ok rec" using rec by (simp add: events wake_waiters_eq put_event_def get_set_Ok)
  have "is_ready events ?e" using ev by (simp add: is_ready_def events wake_waiters_eq put_event_def slot_get_put)
  then obtain e where found: "find (is_ready events) (es_members rec) = Some e"
    using assms(9) by (cases "find (is_ready events) (es_members rec)") (auto simp: find_None_iff)
  then have "wait_any events (es_owner rec) q now None = (Ok (WaitReady e), delivered events q rec e)"
    using wait_any_eq [OF inv' get refl assms(8), of None now] by simp
  then show ?thesis using s' woken find_SomeD [OF found] by blast
qed

theorem message_wakes_consumer_witness:
  "\<exists>s r events mem' s'. registered_for s first_task event_demo_first
     \<and> ipc_send (is_ipc wakeup_demo) (is_events wakeup_demo) (is_memory wakeup_demo) event_demo_owner ipc_demo_grant_handle [7]
         = Some (IpcOk, r, events, mem')
     \<and> signal_sets (new_wakes (is_events wakeup_demo) events) s = Some s' \<and> is_woken s' first_task"
proof -
  obtain s where s: "sched_move\<^sup>*\<^sup>* scheduler_new s" "registered_for s first_task event_demo_first"
    by (rule wakeup_demo_pending)
  have ipc: "is_ipc wakeup_demo = is_ipc ipc_demo" by simp
  obtain r events mem' where send: "ipc_send (is_ipc wakeup_demo) (is_events wakeup_demo) (is_memory wakeup_demo)
      event_demo_owner ipc_demo_grant_handle [7] = Some (IpcOk, r, events, mem')"
    unfolding ipc by (simp add: ipc_send_def get_capability_def get_endpoint_eq queue_write_def)
  have "get_set (is_events wakeup_demo) event_demo_first = Ok (wakeup_demo_set [event_demo_first] True)" by (simp add: get_set_eq)
  then obtain s' where "signal_sets (new_wakes (is_events wakeup_demo) events) s = Some s'" "is_woken s' first_task"
    using message_wakes_consumer [OF wakeup_demo_reachable s(1) send, of ipc_demo_grant "ipc_demo_endpoint 0" event_demo_first
        "wakeup_demo_set [event_demo_first] True" first_task] s(2) by auto
  then show ?thesis using s(2) send by blast
qed

end
