(* ===== verification/Event_Entry.thy ===== *)
theory Event_Entry
  imports Event_Wakeups Elf_Plan Process_Table Service_Graph
begin

text \<open>
  The entry of event calls, \<open>event_call\<close> in \<open>src/service_runtime.rs\<close>: which process may call, how the
  request is read from its staging frame and the response is written back, and the dispatch between
  the two. The record \<open>event_runtime\<close> has the fields of \<open>ServiceRuntime\<close> that the call uses, and the
  physical memory, the scheduler and the hardware lines, which are global in the code.
\<close>

section \<open>Data\<close>

record service_execution =
  se_launch :: "process_handle option"
  se_ipc_staging_frame :: "frame_address option"
  se_task :: "task_handle option"

record event_runtime =
  sv_executions :: "service_execution list"
  sv_dynamic_ipc :: "ipc_registry option"
  sv_dynamic_services :: "registry option"
  sv_service_handles :: "service_handle list"
  sv_dynamic_events :: "event_registry option"
  sv_service_epoch :: u64
  sv_memory :: memory
  sv_scheduler :: scheduler
  sv_hardware :: "hardware_source \<Rightarrow> hardware_line"

section \<open>Wire form\<close>

text \<open>
  The layouts are \<open>repr(C)\<close>: both structures take 32 bytes, and the last eight of a response are
  padding, whose content the language leaves open. They are an argument.
\<close>

abbreviation EVENT_REQUEST_BYTES :: nat where "EVENT_REQUEST_BYTES \<equiv> 32"

definition to_le_bytes :: "nat \<Rightarrow> 'a::len word \<Rightarrow> u8 list" where
  "to_le_bytes n w = map (\<lambda>i. ucast (drop_bit (8 * i) w)) [0 ..< n]"

definition event_request_read :: "u8 list \<Rightarrow> event_request option" where
  "event_request_read wire = map_option (\<lambda>operation.
     \<lparr>erq_abi_version = from_le_bytes (take 2 wire), erq_operation = operation, erq_reserved = wire ! 3,
      erq_request_id = from_le_bytes (take 4 (drop 4 wire)), erq_event_set = Handle (from_le_bytes (take 8 (drop 8 wire))),
      erq_event = Handle (from_le_bytes (take 8 (drop 16 wire))), erq_deadline = from_le_bytes (take 8 (drop 24 wire))\<rparr>)
     (event_operation_from_raw (wire ! 2))"

definition event_response_write :: "event_response \<Rightarrow> u8 list \<Rightarrow> u8 list" where
  "event_response_write response padding =
     to_le_bytes 2 (erp_abi_version response) @ [event_status_raw (erp_status response), erp_reserved response]
     @ to_le_bytes 4 (erp_request_id response) @ to_le_bytes 8 (raw (erp_event response))
     @ to_le_bytes 8 (raw (erp_event_set response)) @ padding"

text \<open>What a client reads back.\<close>

definition event_response_read :: "u8 list \<Rightarrow> event_response option" where
  "event_response_read wire = map_option (\<lambda>status.
     \<lparr>erp_abi_version = from_le_bytes (take 2 wire), erp_status = status, erp_reserved = wire ! 3,
      erp_request_id = from_le_bytes (take 4 (drop 4 wire)), erp_event = Handle (from_le_bytes (take 8 (drop 8 wire))),
      erp_event_set = Handle (from_le_bytes (take 8 (drop 16 wire)))\<rparr>)
     (event_status_from_raw (ucast (wire ! 2)))"

section \<open>The call\<close>

definition service_slot_for_process :: "event_runtime \<Rightarrow> process_handle \<Rightarrow> nat option" where
  "service_slot_for_process v process = position (\<lambda>execution. se_launch execution = Some process) (sv_executions v)"

text \<open>The services that \<open>signal_dynamic_event_waiters\<close> does not skip.\<close>

definition waiter_known :: "event_runtime \<Rightarrow> service_handle \<Rightarrow> bool" where
  "waiter_known v owner \<longleftrightarrow>
     (case sv_dynamic_services v of
        None \<Rightarrow> False
      | Some registry \<Rightarrow>
          result_is_ok (validate_lifecycle_handle registry owner)
          \<and> (case position (\<lambda>h. h = owner) (sv_service_handles v) of
               None \<Rightarrow> False
             | Some slot \<Rightarrow> Option.bind (slice_get (sv_executions v) slot) se_task \<noteq> None))"

definition refresh_dynamic_service_counts_handle :: "event_runtime \<Rightarrow> service_handle \<Rightarrow> event_runtime" where
  "refresh_dynamic_service_counts_handle v owner =
     (let counts = (case sv_dynamic_ipc v of None \<Rightarrow> (0, 0) | Some ipc \<Rightarrow> ownership_counts ipc owner);
          events = (case sv_dynamic_events v of None \<Rightarrow> 0 | Some r \<Rightarrow> ownership_count r owner + event_set_count r owner)
      in v\<lparr>sv_dynamic_services := map_option (\<lambda>registry.
            snd (set_runtime_counts registry owner (of_nat (fst counts)) (of_nat (snd counts)) (of_nat events)))
            (sv_dynamic_services v)\<rparr>)"

definition event_call ::
    "(event_vector \<Rightarrow> bool) \<Rightarrow> interrupt list \<Rightarrow> interrupt list \<Rightarrow> u64 \<Rightarrow> u8 list \<Rightarrow> event_runtime \<Rightarrow> process_handle \<Rightarrow> nat
      \<Rightarrow> (event_status \<times> wait_action option \<times> event_runtime) option" where
  "event_call reserve before after now padding v process len =
     (case service_slot_for_process v process of
        None \<Rightarrow> Some (EsUnauthorized, None, v)
      | Some service_slot \<Rightarrow>
          (case slice_get (sv_service_handles v) service_slot of
             None \<Rightarrow> Some (EsStale, None, v)
           | Some owner \<Rightarrow>
               if (case sv_dynamic_services v of None \<Rightarrow> True | Some registry \<Rightarrow> reg_get_state registry owner \<noteq> Ok RgRunning)
               then Some (EsStale, None, v)
               else if len \<noteq> EVENT_REQUEST_BYTES then Some (EsMalformed, None, v)
               else case Option.bind (slice_get (sv_executions v) service_slot) se_ipc_staging_frame of
                 None \<Rightarrow> Some (EsUnauthorized, None, v)
               | Some staging_frame \<Rightarrow>
                   let wire = memory_read (sv_memory v) (fa_raw staging_frame) EVENT_REQUEST_BYTES
                   in if \<not> event_request_wire_enums_valid wire then Some (EsMalformed, None, v)
                      else Option.bind (event_request_read wire) (\<lambda>request.
                        if \<not> event_request_is_valid request then Some (EsMalformed, None, v)
                        else
                          let events = (case sv_dynamic_events v of
                                None \<Rightarrow> event_registry_new_with_generation (max (ucast (sv_service_epoch v)) 1) (sv_hardware v)
                              | Some events \<Rightarrow> events)
                          in Option.bind (event_dispatch reserve (waiter_known v) before after now
                                (Option.bind (slice_get (sv_executions v) service_slot) se_task) owner request events (sv_scheduler v))
                              (\<lambda>(response, action, events, scheduler).
                                let v = v\<lparr>sv_dynamic_events := Some events, sv_scheduler := scheduler\<rparr>;
                                    v = refresh_dynamic_service_counts_handle v owner
                                in Some (erp_status response, action,
                                     v\<lparr>sv_memory := memory_write (sv_memory v) (fa_raw staging_frame)
                                        (event_response_write response padding)\<rparr>)))))"

section \<open>Round trips of the wire form\<close>

lemma to_le_bytes_Suc: "to_le_bytes (Suc n) w = ucast w # to_le_bytes n (drop_bit 8 w)"
  by (simp add: to_le_bytes_def upt_conv_Cons map_Suc_upt [symmetric] add.commute del: upt_Suc map_Suc_upt)

lemma length_to_le_bytes [simp]: "length (to_le_bytes n w) = n"
  by (simp add: to_le_bytes_def)

lemma from_to_le_bytes: "from_le_bytes (to_le_bytes n w) = take_bit (8 * n) (w :: 'a::len word)"
proof (induction n arbitrary: w)
  case (Suc n)
  have "ucast (ucast w :: u8) OR push_bit 8 (take_bit (8 * n) (drop_bit 8 w)) = take_bit (8 * Suc n) w"
    by (rule bit_word_eqI) (auto simp: bit_simps)
  then show ?case by (simp add: to_le_bytes_Suc Suc)
qed (simp add: to_le_bytes_def)

lemma response_round_trip: "event_response_read (event_response_write response padding) = Some response"
proof -
  have whole: "from_le_bytes (to_le_bytes 2 (v :: u16)) = v" "from_le_bytes (to_le_bytes 4 (i :: u32)) = i"
    "from_le_bytes (to_le_bytes 8 (h :: u64)) = h" for v i h
    by (simp_all add: from_to_le_bytes take_bit_word_eq_self)
  have status: "event_status_from_raw (ucast (event_status_raw (erp_status response))) = Some (erp_status response)"
    by (simp add: event_status_round_trip)
  show ?thesis
    by (simp add: event_response_read_def event_response_write_def nth_append whole status drop_Cons')
qed

section \<open>Properties\<close>

text \<open>The caller whose request a call dispatches: its slot, handle, staging frame and request.\<close>

definition event_caller ::
    "event_runtime \<Rightarrow> process_handle \<Rightarrow> nat \<Rightarrow> (nat \<times> service_handle \<times> frame_address \<times> event_request) option" where
  "event_caller v process len =
     Option.bind (service_slot_for_process v process) (\<lambda>slot.
     Option.bind (slice_get (sv_service_handles v) slot) (\<lambda>owner.
     Option.bind (sv_dynamic_services v) (\<lambda>registry.
     Option.bind (Option.bind (slice_get (sv_executions v) slot) se_ipc_staging_frame) (\<lambda>frame.
     Option.bind (event_request_read (memory_read (sv_memory v) (fa_raw frame) EVENT_REQUEST_BYTES)) (\<lambda>request.
       if reg_get_state registry owner = Ok RgRunning \<and> len = EVENT_REQUEST_BYTES \<and> event_request_is_valid request
       then Some (slot, owner, frame, request) else None)))))"

lemma wire_enums_read: "length wire = EVENT_REQUEST_BYTES \<Longrightarrow> event_request_wire_enums_valid wire \<longleftrightarrow> event_request_read wire \<noteq> None"
  by (auto simp: event_request_wire_enums_valid_def event_request_read_def slice_get_def)

lemma refused_call:
  assumes "event_caller v process len = None"
  shows "\<exists>status. event_call reserve before after now padding v process len = Some (status, None, v) \<and> status \<noteq> EsOk"
  using assms
  by (auto simp: event_call_def event_caller_def wire_enums_read Let_def simp del: slice_get_Some slice_get_None Option.bind_assoc
      split: option.splits if_splits)

lemma event_caller_SomeD:
  assumes "event_caller v process len = Some (slot, owner, frame, request)"
  shows "service_slot_for_process v process = Some slot" "slice_get (sv_service_handles v) slot = Some owner"
    "\<exists>registry. sv_dynamic_services v = Some registry \<and> reg_get_state registry owner = Ok RgRunning"
    "Option.bind (slice_get (sv_executions v) slot) se_ipc_staging_frame = Some frame" "len = EVENT_REQUEST_BYTES"
    "event_request_read (memory_read (sv_memory v) (fa_raw frame) EVENT_REQUEST_BYTES) = Some request" "event_request_is_valid request"
proof -
  from assms obtain slot' owner' registry frame' request' where
    "service_slot_for_process v process = Some slot'" "slice_get (sv_service_handles v) slot' = Some owner'"
    "sv_dynamic_services v = Some registry" "Option.bind (slice_get (sv_executions v) slot') se_ipc_staging_frame = Some frame'"
    "event_request_read (memory_read (sv_memory v) (fa_raw frame') EVENT_REQUEST_BYTES) = Some request'"
    "(if reg_get_state registry owner' = Ok RgRunning \<and> len = EVENT_REQUEST_BYTES \<and> event_request_is_valid request'
      then Some (slot', owner', frame', request') else None) = Some (slot, owner, frame, request)"
    unfolding event_caller_def bind_eq_Some_conv by auto
  then show "service_slot_for_process v process = Some slot" "slice_get (sv_service_handles v) slot = Some owner"
    "\<exists>registry. sv_dynamic_services v = Some registry \<and> reg_get_state registry owner = Ok RgRunning"
    "Option.bind (slice_get (sv_executions v) slot) se_ipc_staging_frame = Some frame" "len = EVENT_REQUEST_BYTES"
    "event_request_read (memory_read (sv_memory v) (fa_raw frame) EVENT_REQUEST_BYTES) = Some request" "event_request_is_valid request"
    by (simp_all split: if_splits)
qed

lemma accepted_call:
  assumes "event_caller v process len = Some (slot, owner, frame, request)"
  shows "event_call reserve before after now padding v process len =
    Option.bind (event_dispatch reserve (waiter_known v) before after now
        (Option.bind (slice_get (sv_executions v) slot) se_task) owner request
        (case sv_dynamic_events v of
           None \<Rightarrow> event_registry_new_with_generation (max (ucast (sv_service_epoch v)) 1) (sv_hardware v) | Some events \<Rightarrow> events)
        (sv_scheduler v))
      (\<lambda>(response, action, events, scheduler).
        let v = v\<lparr>sv_dynamic_events := Some events, sv_scheduler := scheduler\<rparr>;
            v = refresh_dynamic_service_counts_handle v owner
        in Some (erp_status response, action,
             v\<lparr>sv_memory := memory_write (sv_memory v) (fa_raw frame) (event_response_write response padding)\<rparr>))"
proof -
  note caller = event_caller_SomeD [OF assms]
  obtain registry where "sv_dynamic_services v = Some registry" "reg_get_state registry owner = Ok RgRunning" using caller(3) by blast
  then show ?thesis using caller(1,2,4-7) by (simp add: event_call_def wire_enums_read Let_def del: slice_get_Some slice_get_None Option.bind_assoc)
qed

text \<open>A running service whose staging frame holds a request for a new event set.\<close>

abbreviation entry_demo_process :: process_handle where
  "entry_demo_process \<equiv> \<lparr>ph_slot = 0, ph_generation = 1\<rparr>"

definition entry_demo_wire :: "u8 list" where
  "entry_demo_wire = [14, 0, 3, 0, 1, 0, 0, 0] @ replicate 24 0"

definition entry_demo :: event_runtime where
  "entry_demo = \<lparr>sv_executions = [\<lparr>se_launch = Some entry_demo_process, se_ipc_staging_frame = Some ipc_demo_frame, se_task = None\<rparr>],
     sv_dynamic_ipc = None, sv_dynamic_services = Some (demo_registry RgRunning), sv_service_handles = [Handle 0x100000000],
     sv_dynamic_events = Some event_demo_ready, sv_service_epoch = 1, sv_memory = memory_write (\<lambda>_. 0) 8192 entry_demo_wire,
     sv_scheduler = scheduler_new, sv_hardware = (\<lambda>_. hardware_idle)\<rparr>"

lemma entry_demo_request:
  "event_request_read (memory_read (sv_memory entry_demo) 8192 EVENT_REQUEST_BYTES) = Some ((event_request_new EvCreateSet 1)\<lparr>erq_deadline := 0\<rparr>)"
proof -
  have len: "length entry_demo_wire = EVENT_REQUEST_BYTES" by (simp add: entry_demo_wire_def)
  have wire: "memory_read (sv_memory entry_demo) 8192 EVENT_REQUEST_BYTES = entry_demo_wire"
    using memory_read_write [of entry_demo_wire "\<lambda>_. 0" 8192] by (simp add: entry_demo_def len)
  have "event_request_read entry_demo_wire = Some ((event_request_new EvCreateSet 1)\<lparr>erq_deadline := 0\<rparr>)" by code_simp
  then show ?thesis by (simp add: wire)
qed

text \<open>
  C7: Event calls are confined to their caller. A call from a process that is no service, from a service
  that is not running or has no staging frame, or with a malformed request is refused and changes
  nothing. Every other call returns. It acts in the name of the service that the process runs, as a
  run of the operations of the event tables and the scheduler; its response, which passes the check
  of the caller, is what can be read from the staging frame afterwards; and neither memory outside
  that frame nor the processes, handles and message tables are touched.
\<close>

theorem event_call_confined:
  assumes "\<forall>events. sv_dynamic_events v = Some events \<longrightarrow> event_move\<^sup>*\<^sup>* (event_registry_new_with_generation g hardware) events
      \<and> length (er_events events) < 2 ^ 32 \<and> length (er_sets events) < 2 ^ 32"
    "sched_move\<^sup>*\<^sup>* scheduler_new (sv_scheduler v)" "length padding = 8"
  shows "\<exists>status action v'. event_call reserve before after now padding v process len = Some (status, action, v')
    \<and> (case event_caller v process len of
         None \<Rightarrow> status \<noteq> EsOk \<and> action = None \<and> v' = v
       | Some (slot, owner, frame, request) \<Rightarrow>
           (\<exists>response events. event_response_read (memory_read (sv_memory v') (fa_raw frame) EVENT_REQUEST_BYTES) = Some response
              \<and> event_response_is_valid_for response request \<and> erp_status response = status
              \<and> sv_dynamic_events v' = Some events
              \<and> event_move\<^sup>*\<^sup>* (case sv_dynamic_events v of None \<Rightarrow> event_registry_new_with_generation (max (ucast (sv_service_epoch v)) 1) (sv_hardware v)
                  | Some events \<Rightarrow> events) events
              \<and> sched_move\<^sup>*\<^sup>* (sv_scheduler v) (sv_scheduler v'))
           \<and> (\<forall>a. a \<notin> frame_range frame \<longrightarrow> sv_memory v' a = sv_memory v a)
           \<and> sv_executions v' = sv_executions v \<and> sv_service_handles v' = sv_service_handles v
           \<and> sv_dynamic_ipc v' = sv_dynamic_ipc v)"
proof (cases "event_caller v process len")
  case None
  then show ?thesis using refused_call [OF None] by auto
next
  case (Some caller)
  obtain slot owner frame request where caller: "event_caller v process len = Some (slot, owner, frame, request)"
    using Some by (cases caller) auto
  define r where "r = (case sv_dynamic_events v of None \<Rightarrow> event_registry_new_with_generation (max (ucast (sv_service_epoch v)) 1) (sv_hardware v)
      | Some events \<Rightarrow> events)"
  have "event_inv r \<and> length (er_events r) < 2 ^ 32 \<and> length (er_sets r) < 2 ^ 32"
    using assms(1) event_inv_reachable [of g hardware]
    by (cases "sv_dynamic_events v") (auto simp: r_def event_inv_new, simp_all add: event_registry_new_with_generation_def)
  then have r: "event_inv r" "length (er_events r) < 2 ^ 32" "length (er_sets r) < 2 ^ 32" by simp_all
  obtain response action events s where out:
    "event_dispatch reserve (waiter_known v) before after now (Option.bind (slice_get (sv_executions v) slot) se_task) owner request r (sv_scheduler v)
      = Some (response, action, events, s)"
    "event_response_is_valid_for response request" "event_move\<^sup>*\<^sup>* r events" "sched_move\<^sup>*\<^sup>* (sv_scheduler v) s"
    using dispatch_runs [OF r(1) sched_inv_reachable [OF assms(2)] r(2,3)] unfolding call_runs_def by blast
  define v1 where "v1 = refresh_dynamic_service_counts_handle (v\<lparr>sv_dynamic_events := Some events, sv_scheduler := s\<rparr>) owner"
  define v2 where "v2 = v1\<lparr>sv_memory := memory_write (sv_memory v1) (fa_raw frame) (event_response_write response padding)\<rparr>"
  have fields: "sv_memory v1 = sv_memory v" "sv_dynamic_events v1 = Some events" "sv_scheduler v1 = s" "sv_executions v1 = sv_executions v"
    "sv_service_handles v1 = sv_service_handles v" "sv_dynamic_ipc v1 = sv_dynamic_ipc v"
    by (simp_all add: v1_def refresh_dynamic_service_counts_handle_def Let_def)
  have call: "event_call reserve before after now padding v process len = Some (erp_status response, action, v2)"
    using out(1) by (simp add: accepted_call [OF caller] r_def [symmetric] v1_def v2_def Let_def)
  have len: "length (event_response_write response padding) = EVENT_REQUEST_BYTES" using assms(3) by (simp add: event_response_write_def)
  have "event_response_read (memory_read (sv_memory v2) (fa_raw frame) EVENT_REQUEST_BYTES) = Some response"
    using memory_read_write [of "event_response_write response padding" "sv_memory v1" "fa_raw frame"] response_round_trip
    by (simp add: v2_def len)
  moreover have "\<forall>a. a \<notin> frame_range frame \<longrightarrow> sv_memory v2 a = sv_memory v a"
    using memory_write_outside [of "event_response_write response padding"] len by (simp add: v2_def fields)
  ultimately show ?thesis
    using call out(2-4) fields by (simp add: caller r_def [symmetric] v2_def)
qed

theorem event_call_confined_witness:
  "\<exists>status action v' response. event_call (\<lambda>_. True) [] [] 5 (replicate 8 0) entry_demo entry_demo_process EVENT_REQUEST_BYTES = Some (status, action, v')
     \<and> event_response_read (memory_read (sv_memory v') 8192 EVENT_REQUEST_BYTES) = Some response
     \<and> event_response_is_valid_for response ((event_request_new EvCreateSet 1)\<lparr>erq_deadline := 0\<rparr>) \<and> erp_status response = status"
proof -
  have caller: "event_caller entry_demo entry_demo_process EVENT_REQUEST_BYTES
      = Some (0, Handle 0x100000000, ipc_demo_frame, (event_request_new EvCreateSet 1)\<lparr>erq_deadline := 0\<rparr>)"
  proof -
    have "service_slot_for_process entry_demo entry_demo_process = Some 0"
      by (simp add: service_slot_for_process_def entry_demo_def)
    moreover have "reg_get_state (demo_registry RgRunning) (Handle 0x100000000) = Ok RgRunning"
      by (simp add: reg_get_state_def demo_lookup demo_service_def)
    moreover have "fa_raw ipc_demo_frame = 8192" by (simp add: ipc_demo_frame_def)
    moreover have "event_request_is_valid ((event_request_new EvCreateSet 1)\<lparr>erq_deadline := 0\<rparr>)"
      by (simp add: event_request_is_valid_def event_request_new_def event_operation_from_raw_def)
    ultimately show ?thesis
      using entry_demo_request by (simp add: event_caller_def) (simp add: entry_demo_def slice_get_def)
  qed
  have "\<forall>events. sv_dynamic_events entry_demo = Some events \<longrightarrow>
      event_move\<^sup>*\<^sup>* (event_registry_new_with_generation 1 (\<lambda>_. hardware_idle)) events \<and> length (er_events events) < 2 ^ 32 \<and> length (er_sets events) < 2 ^ 32"
    using event_demo_reachable by (simp add: entry_demo_def)
  moreover have "sched_move\<^sup>*\<^sup>* scheduler_new (sv_scheduler entry_demo)" by (simp add: entry_demo_def)
  moreover have "fa_raw ipc_demo_frame = 8192" by (simp add: ipc_demo_frame_def)
  ultimately show ?thesis
    using event_call_confined [of entry_demo 1 "\<lambda>_. hardware_idle" "replicate 8 0" "\<lambda>_. True" "[]" "[]" 5 entry_demo_process EVENT_REQUEST_BYTES]
    unfolding caller by auto
qed

end
