(* ===== verification/Memory_Map.thy ===== *)
theory Memory_Map
  imports LogOS_Prelude "HOL-Library.Multiset"
begin

text \<open>
  The memory map of the boot hand-over, \<open>src/boot_resources.rs\<close>, and its normalisation,
  \<open>src/memory.rs\<close>: sorted, disjoint runs of usable frames with every excluded range cut out. An array
  of optional runs with a count is the list of its first \<open>count\<close> entries: the code fills the array
  from the front, and the entries behind the count are vacant and not read. The capacity of the
  arrays is checked where the code checks it.
\<close>

section \<open>Data\<close>

abbreviation PAGE_SIZE :: u64 where "PAGE_SIZE \<equiv> 4096"
abbreviation MAX_MEMORY_RUNS :: nat where "MAX_MEMORY_RUNS \<equiv> 256"

record memory_descriptor =
  md_physical_start :: u64
  md_pages :: u64
  md_available :: bool

definition memory_descriptor_new :: "u64 \<Rightarrow> u64 \<Rightarrow> bool \<Rightarrow> memory_descriptor option" where
  "memory_descriptor_new physical_start pages available =
     (if physical_start mod PAGE_SIZE \<noteq> 0 \<or> pages = 0 then None
      else Some \<lparr>md_physical_start = physical_start, md_pages = pages, md_available = available\<rparr>)"

definition descriptor_end :: "memory_descriptor \<Rightarrow> u64 option" where
  "descriptor_end d = Option.bind (checked_mul (md_pages d) PAGE_SIZE) (checked_add (md_physical_start d))"

datatype resource_error = ReCapacity | ReInvalidMemoryDescriptor | ReInvalidFramebuffer

type_synonym memory_map = "memory_descriptor list"

definition memory_map_push :: "memory_map \<Rightarrow> memory_descriptor \<Rightarrow> (resource_error + unit) \<times> memory_map" where
  "memory_map_push entries d =
     (if descriptor_end d = None then (Err ReInvalidMemoryDescriptor, entries)
      else if length entries \<ge> MAX_MEMORY_RUNS then (Err ReCapacity, entries)
      else (Ok (), entries @ [d]))"

definition available_pages :: "memory_map \<Rightarrow> u64" where
  "available_pages entries = sum_list (map md_pages (filter md_available entries))"

record physical_run =
  pr_start :: u64
  pr_pages :: u64

definition physical_run_new :: "u64 \<Rightarrow> u64 \<Rightarrow> physical_run option" where
  "physical_run_new start pages =
     (if start mod PAGE_SIZE \<noteq> 0 \<or> pages = 0 then None
      else Option.bind (checked_mul pages PAGE_SIZE) (\<lambda>bytes.
           Option.bind (checked_add start bytes) (\<lambda>_. Some \<lparr>pr_start = start, pr_pages = pages\<rparr>)))"

definition run_end :: "physical_run \<Rightarrow> u64 option" where
  "run_end run = Option.bind (checked_mul (pr_pages run) PAGE_SIZE) (checked_add (pr_start run))"

definition run_from_descriptor :: "memory_descriptor \<Rightarrow> physical_run option" where
  "run_from_descriptor d = physical_run_new (md_physical_start d) (md_pages d)"

datatype exclusion_kind = ExReserved | ExFirmware | ExKernel | ExFramebuffer

record memory_exclusion =
  mx_range :: physical_run
  mx_kind :: exclusion_kind

definition memory_exclusion_new :: "u64 \<Rightarrow> u64 \<Rightarrow> exclusion_kind \<Rightarrow> memory_exclusion option" where
  "memory_exclusion_new start pages kind =
     Option.bind (physical_run_new start pages) (\<lambda>run. Some \<lparr>mx_range = run, mx_kind = kind\<rparr>)"

datatype normalization_error = NeInvalidDescriptor | NeCapacity

record normalized_memory_map =
  nm_runs :: "physical_run list"
  nm_total_pages :: u64

section \<open>Normalisation\<close>

definition push_range :: "physical_run list \<Rightarrow> physical_run \<Rightarrow> normalization_error + physical_run list" where
  "push_range ranges run = (if length ranges \<ge> MAX_MEMORY_RUNS then Err NeCapacity else Ok (ranges @ [run]))"

text \<open>The insertion sort: \<open>sift\<close> is its inner loop, which moves larger runs up by one.\<close>

fun sift :: "physical_run list \<Rightarrow> physical_run \<Rightarrow> nat \<Rightarrow> physical_run list" where
  "sift ranges v 0 = ranges[0 := v]"
| "sift ranges v (Suc p) =
     (if pr_start (ranges ! p) > pr_start v then sift (ranges[Suc p := ranges ! p]) v p else ranges[Suc p := v])"

definition sort_ranges :: "physical_run list \<Rightarrow> physical_run list" where
  "sort_ranges ranges = fold (\<lambda>index ranges. sift ranges (ranges ! index) index) [1 ..< length ranges] ranges"

text \<open>
  The code writes the merged runs over the front of the array it reads; the position it writes to
  is never behind the one it reads, so they are kept in a list of their own.
\<close>

fun merge_loop :: "physical_run list \<Rightarrow> physical_run list \<Rightarrow> normalization_error + physical_run list" where
  "merge_loop output [] = Ok output"
| "merge_loop output (run # ranges) =
     (if output = [] then merge_loop [run] ranges
      else
        let previous = last output
        in result_bind (ok_or (run_end previous) NeInvalidDescriptor) (\<lambda>previous_end.
             if pr_start run \<le> previous_end
             then result_bind (ok_or (run_end run) NeInvalidDescriptor) (\<lambda>range_end.
                  result_bind (ok_or (physical_run_new (pr_start previous)
                      ((max previous_end range_end - pr_start previous) div PAGE_SIZE)) NeInvalidDescriptor) (\<lambda>merged.
                  merge_loop (butlast output @ [merged]) ranges))
             else if length output = MAX_MEMORY_RUNS then Err NeCapacity
             else merge_loop (output @ [run]) ranges))"

definition merge_ranges :: "physical_run list \<Rightarrow> normalization_error + physical_run list" where
  "merge_ranges ranges = merge_loop [] ranges"

definition run_subtract ::
    "physical_run \<Rightarrow> physical_run \<Rightarrow> physical_run list \<Rightarrow> normalization_error + physical_run list" where
  "run_subtract candidate exclusion output =
     result_bind (ok_or (run_end candidate) NeInvalidDescriptor) (\<lambda>candidate_end.
     result_bind (ok_or (run_end exclusion) NeInvalidDescriptor) (\<lambda>exclusion_end.
       if exclusion_end \<le> pr_start candidate \<or> pr_start exclusion \<ge> candidate_end then push_range output candidate
       else
         result_bind
           (if pr_start exclusion > pr_start candidate
            then result_bind (ok_or (physical_run_new (pr_start candidate)
                   ((pr_start exclusion - pr_start candidate) div PAGE_SIZE)) NeInvalidDescriptor) (push_range output)
            else Ok output) (\<lambda>output.
         if exclusion_end < candidate_end
         then result_bind (ok_or (physical_run_new exclusion_end
                ((candidate_end - exclusion_end) div PAGE_SIZE)) NeInvalidDescriptor) (push_range output)
         else Ok output)))"

fun subtract_loop ::
    "physical_run \<Rightarrow> physical_run list \<Rightarrow> physical_run list \<Rightarrow> normalization_error + physical_run list" where
  "subtract_loop exclusion [] scratch = Ok scratch"
| "subtract_loop exclusion (candidate # candidates) scratch =
     result_bind (run_subtract candidate exclusion scratch) (subtract_loop exclusion candidates)"

fun exclusion_loop :: "physical_run list \<Rightarrow> physical_run list \<Rightarrow> normalization_error + physical_run list" where
  "exclusion_loop [] current = Ok current"
| "exclusion_loop (exclusion # exclusions) current =
     result_bind (subtract_loop exclusion current []) (\<lambda>current.
       if current = [] then Ok current else exclusion_loop exclusions current)"

fun classify_descriptors ::
    "memory_map \<Rightarrow> physical_run list \<times> physical_run list \<Rightarrow> normalization_error + physical_run list \<times> physical_run list" where
  "classify_descriptors [] (available, exclusions) = Ok (available, exclusions)"
| "classify_descriptors (d # ds) (available, exclusions) =
     result_bind (ok_or (run_from_descriptor d) NeInvalidDescriptor) (\<lambda>run.
       if md_available d
       then result_bind (push_range available run) (\<lambda>available. classify_descriptors ds (available, exclusions))
       else result_bind (push_range exclusions run) (\<lambda>exclusions. classify_descriptors ds (available, exclusions)))"

fun push_exclusions :: "memory_exclusion list \<Rightarrow> physical_run list \<Rightarrow> normalization_error + physical_run list" where
  "push_exclusions [] ranges = Ok ranges"
| "push_exclusions (x # xs) ranges = result_bind (push_range ranges (mx_range x)) (push_exclusions xs)"

fun publish_runs :: "physical_run list \<Rightarrow> normalized_memory_map \<Rightarrow> normalization_error + normalized_memory_map" where
  "publish_runs [] normalized = Ok normalized"
| "publish_runs (run # ranges) normalized =
     (if length (nm_runs normalized) = MAX_MEMORY_RUNS then Err NeCapacity
      else result_bind (ok_or (checked_add (nm_total_pages normalized) (pr_pages run)) NeInvalidDescriptor) (\<lambda>total.
        publish_runs ranges \<lparr>nm_runs = nm_runs normalized @ [run], nm_total_pages = total\<rparr>))"

definition normalize_memory_map ::
    "memory_map \<Rightarrow> memory_exclusion list \<Rightarrow> normalization_error + normalized_memory_map" where
  "normalize_memory_map memory_map explicit_exclusions =
     (if length explicit_exclusions > MAX_MEMORY_RUNS then Err NeCapacity
      else
        result_bind (classify_descriptors memory_map ([], [])) (\<lambda>(available, exclusions).
        result_bind (push_exclusions explicit_exclusions exclusions) (\<lambda>exclusions.
        result_bind (merge_ranges (sort_ranges available)) (\<lambda>available.
        result_bind (merge_ranges (sort_ranges exclusions)) (\<lambda>exclusions.
        result_bind (exclusion_loop exclusions available) (\<lambda>current.
        result_bind (merge_ranges (sort_ranges current)) (\<lambda>current.
          publish_runs current \<lparr>nm_runs = [], nm_total_pages = 0\<rparr>)))))))"

section \<open>Runs as intervals of frames\<close>

definition run_ok :: "physical_run \<Rightarrow> bool" where
  "run_ok run \<longleftrightarrow> unat (pr_start run) mod 4096 = 0 \<and> pr_pages run \<noteq> 0 \<and> unat (pr_start run) + unat (pr_pages run) * 4096 < 2 ^ 64"

definition run_lo :: "physical_run \<Rightarrow> nat" where "run_lo run = unat (pr_start run) div 4096"

definition run_hi :: "physical_run \<Rightarrow> nat" where "run_hi run = run_lo run + unat (pr_pages run)"

definition frames_of :: "physical_run list \<Rightarrow> nat set" where
  "frames_of runs = (\<Union>run \<in> set runs. {run_lo run ..< run_hi run})"

lemma page_aligned: "(a :: u64) mod PAGE_SIZE = 0 \<longleftrightarrow> unat a mod 4096 = 0"
proof -
  have "a mod PAGE_SIZE = 0 \<longleftrightarrow> unat (a mod PAGE_SIZE) = 0" by (rule unat_eq_0 [symmetric])
  then show ?thesis unfolding unat_mod by simp
qed

lemma run_bounds:
  assumes "run_ok run"
  shows "unat (pr_start run) = 4096 * run_lo run" "run_lo run < run_hi run" "4096 * run_hi run < 2 ^ 64"
proof -
  have "unat (pr_start run) mod 4096 = 0" using assms by (simp add: run_ok_def)
  then show start: "unat (pr_start run) = 4096 * run_lo run"
    using mult_div_mod_eq [of 4096 "unat (pr_start run)"] by (simp add: run_lo_def)
  show "run_lo run < run_hi run" using assms by (simp add: run_ok_def run_hi_def unat_gt_0)
  show "4096 * run_hi run < 2 ^ 64" using assms start by (simp add: run_ok_def run_hi_def)
qed

lemma run_new_Some:
  "physical_run_new start pages = Some run \<longleftrightarrow> run = \<lparr>pr_start = start, pr_pages = pages\<rparr> \<and> run_ok run"
proof -
  have "unat (pages * PAGE_SIZE) = unat pages * 4096" if "unat pages * 4096 < 2 ^ 64"
    using that by (simp add: unat_word_ariths)
  then show ?thesis
    by (auto simp: physical_run_new_def run_ok_def checked_mul_def checked_add_def page_aligned simp del: mod_eq_0_iff_dvd split: if_splits)
qed

lemma run_end_ok:
  assumes "run_ok run"
  obtains e where "run_end run = Some e" "unat e = 4096 * run_hi run"
proof -
  have fits: "unat (pr_pages run) * unat PAGE_SIZE < 2 ^ 64" "unat (pr_start run) + unat (pr_pages run * PAGE_SIZE) < 2 ^ 64"
    using assms by (simp_all add: run_ok_def unat_word_ariths)
  then have "run_end run = Some (pr_start run + pr_pages run * PAGE_SIZE)"
    by (simp add: run_end_def checked_mul_def checked_add_def)
  moreover have "unat (pr_start run + pr_pages run * PAGE_SIZE) = 4096 * run_hi run"
    using fits run_bounds(1) [OF assms] by (simp add: unat_add_no_overflow run_hi_def unat_word_ariths)
  ultimately show thesis by (rule that)
qed

text \<open>The run between two page boundaries.\<close>

lemma run_between:
  assumes "unat a = 4096 * l" "unat b = 4096 * m" "l < m"
  obtains run where "physical_run_new a ((b - a) div PAGE_SIZE) = Some run" "run_ok run" "run_lo run = l" "run_hi run = m"
proof -
  define run where "run = \<lparr>pr_start = a, pr_pages = (b - a) div PAGE_SIZE\<rparr>"
  have "a \<le> b" using assms by (simp add: word_le_nat_alt)
  then have "unat (b - a) = 4096 * (m - l)" using assms by (simp add: unat_sub diff_mult_distrib2)
  then have pages: "unat ((b - a) div PAGE_SIZE) = m - l" by (simp add: unat_div)
  have b: "4096 * m < 2 ^ 64" using unsigned_less [of b, where 'a = nat] assms(2) by simp
  have "(b - a) div PAGE_SIZE \<noteq> 0" using pages assms(3) by (auto simp flip: unat_eq_0)
  then have ok: "run_ok run" using pages assms b by (simp add: run_ok_def run_def algebra_simps)
  then have "physical_run_new a ((b - a) div PAGE_SIZE) = Some run" by (simp add: run_new_Some run_def)
  moreover have "run_lo run = l" "run_hi run = m"
    using assms(1,3) pages by (simp_all add: run_lo_def run_hi_def run_def)
  ultimately show thesis using that ok by blast
qed

section \<open>Sorting\<close>

definition starts_sorted :: "physical_run list \<Rightarrow> bool" where
  "starts_sorted = sorted_wrt (\<lambda>a b. pr_start a \<le> pr_start b)"

lemma sift_inserts:
  "\<exists>zs. sift (xs @ w # ys) v (length xs) = zs @ ys \<and> mset zs = mset (v # xs) \<and> (starts_sorted xs \<longrightarrow> starts_sorted zs)"
proof (induction xs arbitrary: w ys rule: rev_induct)
  case Nil
  show ?case by (intro exI [of _ "[v]"]) (simp add: starts_sorted_def)
next
  case (snoc x xs)
  show ?case
  proof (cases "pr_start x > pr_start v")
    case True
    obtain zs where zs: "sift (xs @ x # x # ys) v (length xs) = zs @ x # ys" "mset zs = mset (v # xs)"
      "starts_sorted xs \<longrightarrow> starts_sorted zs"
      using snoc.IH [of x "x # ys"] by blast
    have "set zs = set (v # xs)" using zs(2) by (metis set_mset_mset)
    then have "starts_sorted (xs @ [x]) \<longrightarrow> starts_sorted (zs @ [x])"
      using zs(3) True by (auto simp: starts_sorted_def sorted_wrt_append)
    moreover have "sift ((xs @ [x]) @ w # ys) v (length (xs @ [x])) = (zs @ [x]) @ ys"
      using True zs(1) by (simp add: nth_append list_update_append)
    ultimately show ?thesis using zs(2) by (intro exI [of _ "zs @ [x]"]) simp
  next
    case False
    then have "starts_sorted (xs @ [x]) \<longrightarrow> starts_sorted (xs @ [x, v])"
      by (fastforce simp: starts_sorted_def sorted_wrt_append)
    then show ?thesis using False by (intro exI [of _ "xs @ [x, v]"]) (simp add: nth_append list_update_append)
  qed
qed

lemma sort_ranges_spec: "mset (sort_ranges ranges) = mset ranges" "starts_sorted (sort_ranges ranges)"
proof -
  have "\<exists>zs. fold (\<lambda>index ranges. sift ranges (ranges ! index) index) [1 ..< Suc k] ranges = zs @ drop (Suc k) ranges
      \<and> mset zs = mset (take (Suc k) ranges) \<and> starts_sorted zs" if "Suc k \<le> length ranges" for k
    using that
  proof (induction k)
    case 0
    then show ?case by (intro exI [of _ "take 1 ranges"]) (cases ranges, simp_all add: starts_sorted_def)
  next
    case (Suc k)
    then obtain zs where zs: "fold (\<lambda>index ranges. sift ranges (ranges ! index) index) [1 ..< Suc k] ranges = zs @ drop (Suc k) ranges"
      "mset zs = mset (take (Suc k) ranges)" "starts_sorted zs" by auto
    have len: "length zs = Suc k" using zs(2) Suc.prems by (metis length_take min.absorb2 size_mset Suc_leD)
    have drop: "drop (Suc k) ranges = ranges ! Suc k # drop (Suc (Suc k)) ranges" using Suc.prems by (simp add: Cons_nth_drop_Suc)
    obtain us where us: "sift (zs @ ranges ! Suc k # drop (Suc (Suc k)) ranges) (ranges ! Suc k) (length zs) = us @ drop (Suc (Suc k)) ranges"
      "mset us = mset (ranges ! Suc k # zs)" "starts_sorted us"
      using sift_inserts [of zs] zs(3) by blast
    have "fold (\<lambda>index ranges. sift ranges (ranges ! index) index) [1 ..< Suc (Suc k)] ranges = us @ drop (Suc (Suc k)) ranges"
      using zs(1) us(1) len by (simp add: drop nth_append upt_Suc_append del: upt_Suc sift.simps)
    moreover have "mset us = mset (take (Suc (Suc k)) ranges)"
      using us(2) zs(2) Suc.prems by (simp add: take_Suc_conv_app_nth)
    ultimately show ?case using us(3) by blast
  qed
  from this [of "length ranges - 1"] show "mset (sort_ranges ranges) = mset ranges" "starts_sorted (sort_ranges ranges)"
    by (cases ranges; auto simp: sort_ranges_def starts_sorted_def)+
qed

lemma set_sort_ranges [simp]: "set (sort_ranges ranges) = set ranges" "length (sort_ranges ranges) = length ranges"
  by (metis set_mset_mset sort_ranges_spec(1), metis size_mset sort_ranges_spec(1))

section \<open>Merging\<close>

definition separated :: "physical_run list \<Rightarrow> bool" where
  "separated = sorted_wrt (\<lambda>a b. run_hi a < run_lo b)"

abbreviation runs_ok :: "physical_run list \<Rightarrow> bool" where
  "runs_ok runs \<equiv> \<forall>run \<in> set runs. run_ok run"

lemma frames_of_simps [simp]:
  "frames_of [] = {}" "frames_of (run # runs) = {run_lo run ..< run_hi run} \<union> frames_of runs"
  "frames_of (xs @ ys) = frames_of xs \<union> frames_of ys"
  by (auto simp: frames_of_def)

lemma start_le: "run_ok a \<Longrightarrow> run_ok b \<Longrightarrow> pr_start a \<le> pr_start b \<longleftrightarrow> run_lo a \<le> run_lo b"
  using run_bounds(1) by (simp add: word_le_nat_alt)

lemma start_le_end: "run_ok a \<Longrightarrow> unat e = 4096 * n \<Longrightarrow> pr_start a \<le> e \<longleftrightarrow> run_lo a \<le> n"
  using run_bounds(1) by (simp add: word_le_nat_alt)

text \<open>The run that replaces two that meet.\<close>

lemma run_join:
  assumes "run_ok a" "run_ok b" "run_lo a \<le> run_lo b" "run_lo b \<le> run_hi a" "run_end a = Some ea" "run_end b = Some eb"
  obtains run where "physical_run_new (pr_start a) ((max ea eb - pr_start a) div PAGE_SIZE) = Some run" "run_ok run"
    "run_lo run = run_lo a" "{run_lo run ..< run_hi run} = {run_lo a ..< run_hi a} \<union> {run_lo b ..< run_hi b}"
proof -
  have ends: "unat ea = 4096 * run_hi a" "unat eb = 4096 * run_hi b"
    using assms run_end_ok by (metis option.inject)+
  then have "unat (max ea eb) = 4096 * max (run_hi a) (run_hi b)" by (simp add: max_def word_le_nat_alt)
  moreover have "run_lo a < max (run_hi a) (run_hi b)" using run_bounds(2) [OF assms(1)] by simp
  ultimately obtain run where run: "physical_run_new (pr_start a) ((max ea eb - pr_start a) div PAGE_SIZE) = Some run" "run_ok run"
    "run_lo run = run_lo a" "run_hi run = max (run_hi a) (run_hi b)"
    using run_between [OF run_bounds(1) [OF assms(1)]] by metis
  then show thesis using that assms(3,4) by force
qed

lemma merge_loop_spec:
  assumes "runs_ok (out @ ranges)" "separated out" "starts_sorted ranges" "length out + length ranges \<le> MAX_MEMORY_RUNS"
    "out \<noteq> [] \<Longrightarrow> \<forall>run \<in> set ranges. run_lo (last out) \<le> run_lo run"
  shows "\<exists>res. merge_loop out ranges = Ok res \<and> runs_ok res \<and> separated res \<and> frames_of res = frames_of out \<union> frames_of ranges
    \<and> length res \<le> length out + length ranges"
  using assms
proof (induction ranges arbitrary: out)
  case (Cons run ranges)
  have sorted: "starts_sorted ranges" "\<forall>next \<in> set ranges. pr_start run \<le> pr_start next"
    using Cons.prems(3) by (simp_all add: starts_sorted_def)
  then have above: "\<forall>next \<in> set ranges. run_lo run \<le> run_lo next" using Cons.prems(1) by (simp add: start_le)
  show ?case
  proof (cases out rule: rev_cases)
    case Nil
    then show ?thesis
      using Cons.IH [of "[run]"] Cons.prems(1,4) sorted(1) above by (simp add: separated_def)
  next
    case (snoc front prev)
    have ok: "run_ok prev" "run_ok run" using Cons.prems(1) snoc by simp_all
    obtain pe where pe: "run_end prev = Some pe" "unat pe = 4096 * run_hi prev" using run_end_ok [OF ok(1)] .
    obtain re where re: "run_end run = Some re" "unat re = 4096 * run_hi run" using run_end_ok [OF ok(2)] .
    have le: "run_lo prev \<le> run_lo run" using Cons.prems(5) snoc by simp
    show ?thesis
    proof (cases "run_lo run \<le> run_hi prev")
      case True
      obtain m where m: "physical_run_new (pr_start prev) ((max pe re - pr_start prev) div PAGE_SIZE) = Some m" "run_ok m"
        "run_lo m = run_lo prev" "{run_lo m ..< run_hi m} = {run_lo prev ..< run_hi prev} \<union> {run_lo run ..< run_hi run}"
        using run_join [OF ok le True pe(1) re(1)] .
      have eq: "merge_loop out (run # ranges) = merge_loop (front @ [m]) ranges"
        using snoc pe re m(1) True ok by (simp add: start_le_end ok_or_def Let_def)
      have "separated (front @ [m])" using Cons.prems(2) snoc m(3) by (simp add: separated_def sorted_wrt_append)
      moreover have "frames_of (front @ [m]) = frames_of out \<union> {run_lo run ..< run_hi run}" using m(4) snoc by auto
      ultimately show ?thesis
        using Cons.IH [of "front @ [m]"] Cons.prems(1,4) sorted(1) above le m(2,3) snoc unfolding eq by fastforce
    next
      case False
      have eq: "merge_loop out (run # ranges) = merge_loop (out @ [run]) ranges"
        using snoc pe False ok Cons.prems(4) by (simp add: start_le_end ok_or_def Let_def)
      have "separated (out @ [run])"
        using Cons.prems(1,2) snoc False run_bounds(2) by (fastforce simp: separated_def sorted_wrt_append)
      then show ?thesis using Cons.IH [of "out @ [run]"] Cons.prems(1,4) sorted(1) above unfolding eq by auto
    qed
  qed
qed simp

lemma merge_sorted:
  assumes "runs_ok ranges" "length ranges \<le> MAX_MEMORY_RUNS"
  obtains res where "merge_ranges (sort_ranges ranges) = Ok res" "runs_ok res" "separated res" "frames_of res = frames_of ranges"
    "length res \<le> length ranges"
proof -
  have "frames_of (sort_ranges ranges) = frames_of ranges" by (simp add: frames_of_def)
  then show thesis
    using merge_loop_spec [of "[]" "sort_ranges ranges"] assms sort_ranges_spec(2) [of ranges] that
    by (auto simp: merge_ranges_def separated_def)
qed

section \<open>Cutting out a range\<close>

text \<open>A candidate contains an exclusion in its interior if cutting leaves a piece on either side.\<close>

abbreviation contains_inside :: "physical_run \<Rightarrow> physical_run \<Rightarrow> bool" where
  "contains_inside c x \<equiv> run_lo c < run_lo x \<and> run_hi x < run_hi c"

definition pieces :: "physical_run \<Rightarrow> physical_run \<Rightarrow> physical_run list \<Rightarrow> bool" where
  "pieces c x ps \<longleftrightarrow> runs_ok ps \<and> separated ps \<and> frames_of ps = {run_lo c ..< run_hi c} - {run_lo x ..< run_hi x}
     \<and> (\<forall>p \<in> set ps. run_lo c \<le> run_lo p \<and> run_hi p \<le> run_hi c) \<and> length ps \<le> (if contains_inside c x then 2 else 1)"

lemma push_range_eq: "push_range out run = (if MAX_MEMORY_RUNS < Suc (length out) then Err NeCapacity else Ok (out @ [run]))"
  by (simp add: push_range_def)

lemma subtract_spec:
  assumes "run_ok c" "run_ok x"
  shows "\<exists>ps. pieces c x ps \<and> (\<forall>out. length out \<le> MAX_MEMORY_RUNS \<longrightarrow> run_subtract c x out =
    (if MAX_MEMORY_RUNS < length out + length ps then Err NeCapacity else Ok (out @ ps)))"
proof -
  obtain ce where ce: "run_end c = Some ce" "unat ce = 4096 * run_hi c" using run_end_ok [OF assms(1)] .
  obtain xe where xe: "run_end x = Some xe" "unat xe = 4096 * run_hi x" using run_end_ok [OF assms(2)] .
  note lo = run_bounds(1) [OF assms(1)] run_bounds(1) [OF assms(2)]
  note order = word_le_nat_alt word_less_nat_alt lo ce(2) xe(2)
  note bounds = run_bounds(2) [OF assms(1)] run_bounds(2) [OF assms(2)]
  define left where "left = physical_run_new (pr_start c) ((pr_start x - pr_start c) div PAGE_SIZE)"
  define right where "right = physical_run_new xe ((ce - xe) div PAGE_SIZE)"
  have sub: "run_subtract c x out =
      (if run_hi x \<le> run_lo c \<or> run_hi c \<le> run_lo x then push_range out c
       else result_bind (if run_lo c < run_lo x then result_bind (ok_or left NeInvalidDescriptor) (push_range out) else Ok out)
         (\<lambda>out. if run_hi x < run_hi c then result_bind (ok_or right NeInvalidDescriptor) (push_range out) else Ok out))" for out
    by (simp add: run_subtract_def ce(1) xe(1) ok_or_def order left_def right_def)
  show ?thesis
  proof (cases "run_hi x \<le> run_lo c \<or> run_hi c \<le> run_lo x")
    case True
    then have "pieces c x [c]" using assms bounds by (auto simp: pieces_def separated_def)
    then show ?thesis using True by (intro exI [of _ "[c]"]) (simp add: sub push_range_eq)
  next
    case False
    obtain l where l: "run_lo c < run_lo x \<Longrightarrow> left = Some l \<and> run_ok l \<and> run_lo l = run_lo c \<and> run_hi l = run_lo x"
      unfolding left_def using run_between [OF lo] by metis
    obtain r where r: "run_hi x < run_hi c \<Longrightarrow> right = Some r \<and> run_ok r \<and> run_lo r = run_hi x \<and> run_hi r = run_hi c"
      unfolding right_def using run_between [OF xe(2) ce(2)] by metis
    define ps where "ps = (if run_lo c < run_lo x then [l] else []) @ (if run_hi x < run_hi c then [r] else [])"
    have frames: "frames_of ps = {run_lo c ..< run_hi c} - {run_lo x ..< run_hi x}"
      using l r False by (cases "run_lo c < run_lo x"; cases "run_hi x < run_hi c") (auto simp: ps_def)
    have "pieces c x ps"
      unfolding pieces_def frames
      using l r bounds False
      by (cases "run_lo c < run_lo x"; cases "run_hi x < run_hi c") (simp_all add: separated_def ps_def)
    moreover have "run_subtract c x out = (if MAX_MEMORY_RUNS < length out + length ps then Err NeCapacity else Ok (out @ ps))"
      if "length out \<le> MAX_MEMORY_RUNS" for out
      using l r False that by (cases "run_lo c < run_lo x"; cases "run_hi x < run_hi c") (simp_all add: sub push_range_eq ps_def)
    ultimately show ?thesis by blast
  qed
qed

lemma subtract_loop_spec:
  assumes "runs_ok cs" "separated cs" "run_ok x"
  shows "\<exists>ps. runs_ok ps \<and> separated ps \<and> frames_of ps = frames_of cs - {run_lo x ..< run_hi x}
    \<and> (\<forall>p \<in> set ps. \<exists>c \<in> set cs. run_lo c \<le> run_lo p \<and> run_hi p \<le> run_hi c)
    \<and> length ps \<le> length cs + (if \<exists>c \<in> set cs. contains_inside c x then 1 else 0)
    \<and> (\<forall>out. length out \<le> MAX_MEMORY_RUNS \<longrightarrow> subtract_loop x cs out =
        (if MAX_MEMORY_RUNS < length out + length ps then Err NeCapacity else Ok (out @ ps)))"
  using assms
proof (induction cs)
  case (Cons c cs)
  then obtain ps where ps: "runs_ok ps" "separated ps" "frames_of ps = frames_of cs - {run_lo x ..< run_hi x}"
    "\<forall>p \<in> set ps. \<exists>c \<in> set cs. run_lo c \<le> run_lo p \<and> run_hi p \<le> run_hi c"
    "length ps \<le> length cs + (if \<exists>c \<in> set cs. contains_inside c x then 1 else 0)"
    "\<forall>out. length out \<le> MAX_MEMORY_RUNS \<longrightarrow> subtract_loop x cs out =
        (if MAX_MEMORY_RUNS < length out + length ps then Err NeCapacity else Ok (out @ ps))"
    by (auto simp: separated_def)
  have ok: "run_ok c" using Cons.prems(1) by simp
  obtain qs where qs: "pieces c x qs" "\<forall>out. length out \<le> MAX_MEMORY_RUNS \<longrightarrow> run_subtract c x out =
      (if MAX_MEMORY_RUNS < length out + length qs then Err NeCapacity else Ok (out @ qs))"
    using subtract_spec [OF ok assms(3)] by blast
  have behind: "\<forall>c' \<in> set cs. run_hi c < run_lo c'" using Cons.prems(2) by (simp add: separated_def)
  have "separated (qs @ ps)"
    using qs(1) ps(2,4) behind by (fastforce simp: pieces_def separated_def sorted_wrt_append)
  moreover have "length (qs @ ps) \<le> length (c # cs) + (if \<exists>c \<in> set (c # cs). contains_inside c x then 1 else 0)"
  proof (cases "contains_inside c x")
    case True
    then have "\<not> (\<exists>c \<in> set cs. contains_inside c x)" using behind run_bounds(2) [OF assms(3)] by fastforce
    then have "length ps \<le> length cs" using ps(5) by (auto split: if_splits)
    then show ?thesis using True qs(1) by (simp add: pieces_def)
  next
    case False
    then have "length qs \<le> 1" using qs(1) by (auto simp: pieces_def split: if_splits)
    moreover have "(\<exists>c \<in> set (c # cs). contains_inside c x) \<longleftrightarrow> (\<exists>c \<in> set cs. contains_inside c x)" using False by auto
    ultimately show ?thesis using ps(5) by (cases "\<exists>c \<in> set cs. contains_inside c x") simp_all
  qed
  moreover have "\<forall>p \<in> set (qs @ ps). \<exists>c' \<in> set (c # cs). run_lo c' \<le> run_lo p \<and> run_hi p \<le> run_hi c'"
    using qs(1) ps(4) by (auto simp: pieces_def)
  moreover have "runs_ok (qs @ ps)" "frames_of (qs @ ps) = frames_of (c # cs) - {run_lo x ..< run_hi x}"
    using qs(1) ps(1,3) by (auto simp: pieces_def)
  moreover have "subtract_loop x (c # cs) out =
      (if MAX_MEMORY_RUNS < length out + length (qs @ ps) then Err NeCapacity else Ok (out @ qs @ ps))"
    if "length out \<le> MAX_MEMORY_RUNS" for out
    using qs(2) ps(6) that by simp
  ultimately show ?case by (intro exI [of _ "qs @ ps"]) blast
qed (auto simp: separated_def)

lemma exclusion_loop_spec:
  assumes "runs_ok cs" "separated cs" "runs_ok xs" "length cs \<le> MAX_MEMORY_RUNS"
  shows "(\<exists>res. exclusion_loop xs cs = Ok res \<and> runs_ok res \<and> separated res \<and> frames_of res = frames_of cs - frames_of xs
        \<and> length res \<le> MAX_MEMORY_RUNS)
    \<or> exclusion_loop xs cs = Err NeCapacity \<and> MAX_MEMORY_RUNS < length cs + length xs"
  using assms
proof (induction xs arbitrary: cs)
  case (Cons x xs)
  obtain ps where ps: "runs_ok ps" "separated ps" "frames_of ps = frames_of cs - {run_lo x ..< run_hi x}"
    "length ps \<le> length cs + (if \<exists>c \<in> set cs. contains_inside c x then 1 else 0)"
    "subtract_loop x cs [] = (if MAX_MEMORY_RUNS < length ps then Err NeCapacity else Ok ps)"
    using subtract_loop_spec [OF Cons.prems(1,2), of x] Cons.prems(3) by force
  have len: "length ps \<le> Suc (length cs)" using ps(4) by (auto split: if_splits)
  show ?case
  proof (cases "MAX_MEMORY_RUNS < length ps")
    case True
    then show ?thesis using ps(5) len by simp
  next
    case False
    then have eq: "exclusion_loop (x # xs) cs = (if ps = [] then Ok [] else exclusion_loop xs ps)" using ps(5) by simp
    show ?thesis
    proof (cases "ps = []")
      case True
      then show ?thesis using eq ps(3) by (auto simp: separated_def)
    next
      case False
      moreover have "frames_of ps - frames_of xs = frames_of cs - frames_of (x # xs)" using ps(3) by auto
      ultimately show ?thesis using Cons.IH [OF ps(1,2)] Cons.prems(3) \<open>\<not> MAX_MEMORY_RUNS < length ps\<close> len unfolding eq by fastforce
    qed
  qed
qed simp

section \<open>The two ends of the normalisation\<close>

abbreviation descriptor_runs :: "bool \<Rightarrow> memory_map \<Rightarrow> physical_run list" where
  "descriptor_runs available ds \<equiv> map (\<lambda>d. \<lparr>pr_start = md_physical_start d, pr_pages = md_pages d\<rparr>)
     (filter (\<lambda>d. md_available d = available) ds)"

lemma classify_spec:
  assumes "\<forall>d \<in> set ds. run_from_descriptor d \<noteq> None" "length as \<le> MAX_MEMORY_RUNS" "length es \<le> MAX_MEMORY_RUNS"
  shows "classify_descriptors ds (as, es) =
    (if MAX_MEMORY_RUNS < length as + length (descriptor_runs True ds) \<or> MAX_MEMORY_RUNS < length es + length (descriptor_runs False ds)
     then Err NeCapacity else Ok (as @ descriptor_runs True ds, es @ descriptor_runs False ds))"
  using assms
proof (induction ds arbitrary: as es)
  case (Cons d ds)
  have run: "run_from_descriptor d = Some \<lparr>pr_start = md_physical_start d, pr_pages = md_pages d\<rparr>"
    using Cons.prems(1) by (auto simp: run_from_descriptor_def run_new_Some)
  show ?case using Cons by (simp add: run push_range_eq)
qed simp

lemma classify_invalid:
  "\<exists>d \<in> set ds. run_from_descriptor d = None \<Longrightarrow> \<exists>err. classify_descriptors ds (as, es) = Err err"
proof (induction ds arbitrary: as es)
  case (Cons d ds)
  show ?case
  proof (cases "run_from_descriptor d")
    case (Some run)
    then have "\<exists>err. classify_descriptors ds (as', es') = Err err" for as' es' using Cons by auto
    then show ?thesis using Some by (simp add: push_range_eq)
  qed simp
qed simp

lemma push_exclusions_spec:
  "length es \<le> MAX_MEMORY_RUNS \<Longrightarrow> push_exclusions xs es =
    (if MAX_MEMORY_RUNS < length es + length xs then Err NeCapacity else Ok (es @ map mx_range xs))"
  by (induction xs arbitrary: es) (simp_all add: push_range_eq)

lemma frames_bounded: "runs_ok runs \<Longrightarrow> frames_of runs \<subseteq> {0 ..< 2 ^ 52}"
  using run_bounds(3) by (fastforce simp: frames_of_def)

lemma card_separated:
  assumes "separated (runs @ [run])" "runs_ok (runs @ [run])"
  shows "card (frames_of (runs @ [run])) = card (frames_of runs) + unat (pr_pages run)"
proof -
  have "finite (frames_of runs)" using frames_bounded [of runs] assms(2) by (auto intro: finite_subset)
  moreover have "frames_of runs \<inter> {run_lo run ..< run_hi run} = {}"
    using assms(1) by (fastforce simp: frames_of_def separated_def sorted_wrt_append)
  ultimately show ?thesis by (simp add: card_Un_disjoint run_hi_def)
qed

lemma publish_spec:
  assumes "separated (nm_runs n @ runs)" "runs_ok (nm_runs n @ runs)" "length (nm_runs n @ runs) \<le> MAX_MEMORY_RUNS"
    "unat (nm_total_pages n) = card (frames_of (nm_runs n))"
  shows "\<exists>n'. publish_runs runs n = Ok n' \<and> nm_runs n' = nm_runs n @ runs \<and> unat (nm_total_pages n') = card (frames_of (nm_runs n'))"
  using assms
proof (induction runs arbitrary: n)
  case (Cons run runs)
  have here: "separated (nm_runs n @ [run])" "runs_ok (nm_runs n @ [run])"
    using Cons.prems(1,2) by (auto simp: separated_def sorted_wrt_append)
  have card: "card (frames_of (nm_runs n @ [run])) = unat (nm_total_pages n) + unat (pr_pages run)"
    using card_separated [OF here] Cons.prems(4) by simp
  moreover have "card (frames_of (nm_runs n @ [run])) \<le> 2 ^ 52"
    using card_mono [OF _ frames_bounded [OF here(2)]] by simp
  ultimately have fits: "unat (nm_total_pages n) + unat (pr_pages run) < 2 ^ 64" by simp
  then show ?case
    using Cons.IH [of "\<lparr>nm_runs = nm_runs n @ [run], nm_total_pages = nm_total_pages n + pr_pages run\<rparr>"] Cons.prems(1-3) card
    by (simp add: checked_add_def unat_add_no_overflow)
qed simp

text \<open>From the classified ranges to the result.\<close>

lemma cut_runs:
  assumes "runs_ok avail" "runs_ok excl" "length avail \<le> MAX_MEMORY_RUNS" "length excl \<le> MAX_MEMORY_RUNS"
  defines "out \<equiv> result_bind (merge_ranges (sort_ranges avail)) (\<lambda>as. result_bind (merge_ranges (sort_ranges excl)) (\<lambda>es.
     result_bind (exclusion_loop es as) (\<lambda>current. result_bind (merge_ranges (sort_ranges current)) (\<lambda>current.
       publish_runs current \<lparr>nm_runs = [], nm_total_pages = 0\<rparr>))))"
  shows "(\<exists>n. out = Ok n \<and> frames_of (nm_runs n) = frames_of avail - frames_of excl \<and> separated (nm_runs n)
      \<and> unat (nm_total_pages n) = card (frames_of (nm_runs n)))
    \<or> out = Err NeCapacity \<and> MAX_MEMORY_RUNS < length avail + length excl"
proof -
  obtain as where as: "merge_ranges (sort_ranges avail) = Ok as" "runs_ok as" "separated as" "frames_of as = frames_of avail"
    "length as \<le> length avail"
    by (rule merge_sorted [OF assms(1,3)])
  obtain es where es: "merge_ranges (sort_ranges excl) = Ok es" "runs_ok es" "separated es" "frames_of es = frames_of excl"
    "length es \<le> length excl"
    by (rule merge_sorted [OF assms(2,4)])
  have "length as \<le> MAX_MEMORY_RUNS" using as(5) assms(3) by linarith
  from exclusion_loop_spec [OF as(2,3) es(2) this] show ?thesis
  proof (elim disjE exE conjE)
    fix res assume res: "exclusion_loop es as = Ok res" "runs_ok res" "separated res" "frames_of res = frames_of as - frames_of es"
      "length res \<le> MAX_MEMORY_RUNS"
    obtain cur where cur: "merge_ranges (sort_ranges res) = Ok cur" "runs_ok cur" "separated cur" "frames_of cur = frames_of res"
      "length cur \<le> length res"
      by (rule merge_sorted [OF res(2,5)])
    then obtain n where n: "publish_runs cur \<lparr>nm_runs = [], nm_total_pages = 0\<rparr> = Ok n" "nm_runs n = cur"
      "unat (nm_total_pages n) = card (frames_of cur)"
      using publish_spec [of "\<lparr>nm_runs = [], nm_total_pages = 0\<rparr>" cur] res(5) by auto
    have "out = Ok n" using as(1) es(1) res(1) cur(1) n(1) by (simp add: out_def)
    then show ?thesis using n(2,3) cur(3,4) res(4) as(4) es(4) by simp
  next
    assume "exclusion_loop es as = Err NeCapacity" "MAX_MEMORY_RUNS < length as + length es"
    moreover from this(2) have "MAX_MEMORY_RUNS < length avail + length excl" using as(5) es(5) by linarith
    ultimately show ?thesis using as(1) es(1) by (simp add: out_def)
  qed
qed

section \<open>Properties\<close>

lemma descriptor_runs_ok: "\<forall>d \<in> set ds. run_from_descriptor d \<noteq> None \<Longrightarrow> runs_ok (descriptor_runs available ds)"
  by (fastforce simp: run_from_descriptor_def run_new_Some)

text \<open>
  C8: The normalised memory map is exact. Given explicit exclusions as their constructor makes them, a
  map with an invalid descriptor is refused. Otherwise the result has exactly the frames of the
  available descriptors that no unavailable descriptor and no exclusion touches, as runs in
  ascending order with a gap between any two, and their number; or the map is refused for lack of
  capacity, which does not happen with at most 256 descriptors and exclusions together.
\<close>

theorem normalize_exact:
  assumes "\<forall>x \<in> set xs. \<exists>start pages kind. memory_exclusion_new start pages kind = Some x"
  shows "if \<exists>d \<in> set ds. run_from_descriptor d = None then \<exists>err. normalize_memory_map ds xs = Err err
    else (\<exists>n. normalize_memory_map ds xs = Ok n
        \<and> frames_of (nm_runs n) = frames_of (descriptor_runs True ds) - frames_of (descriptor_runs False ds) - frames_of (map mx_range xs)
        \<and> separated (nm_runs n) \<and> unat (nm_total_pages n) = card (frames_of (nm_runs n)))
      \<or> normalize_memory_map ds xs = Err NeCapacity \<and> MAX_MEMORY_RUNS < length ds + length xs"
proof (cases "\<exists>d \<in> set ds. run_from_descriptor d = None")
  case True
  then obtain err where "classify_descriptors ds ([], []) = Err err" using classify_invalid by blast
  then show ?thesis using True by (simp add: normalize_memory_map_def)
next
  case False
  let ?as = "descriptor_runs True ds" and ?es = "descriptor_runs False ds @ map mx_range xs"
  have lens: "length ?as + length ?es = length ds + length xs"
    using sum_length_filter_compl [of md_available ds] by simp
  have xs_ok: "runs_ok (map mx_range xs)"
    using assms by (auto simp: memory_exclusion_new_def bind_eq_Some_conv run_new_Some)
  have ok: "runs_ok ?as" "runs_ok ?es" using descriptor_runs_ok [of ds] False xs_ok by auto
  show ?thesis
  proof (cases "MAX_MEMORY_RUNS < length ?as \<or> MAX_MEMORY_RUNS < length ?es")
    case True
    then have "normalize_memory_map ds xs = Err NeCapacity"
      using classify_spec [of ds "[]" "[]"] False by (auto simp: normalize_memory_map_def push_exclusions_spec)
    moreover have "MAX_MEMORY_RUNS < length ds + length xs" using True lens by linarith
    ultimately show ?thesis unfolding if_not_P [OF False] by blast
  next
    case fits: False
    then have eq: "normalize_memory_map ds xs = result_bind (merge_ranges (sort_ranges ?as)) (\<lambda>as. result_bind (merge_ranges (sort_ranges ?es)) (\<lambda>es.
        result_bind (exclusion_loop es as) (\<lambda>current. result_bind (merge_ranges (sort_ranges current)) (\<lambda>current.
          publish_runs current \<lparr>nm_runs = [], nm_total_pages = 0\<rparr>))))"
      using classify_spec [of ds "[]" "[]"] False by (simp add: normalize_memory_map_def push_exclusions_spec)
    have lengths: "length ?as \<le> MAX_MEMORY_RUNS" "length ?es \<le> MAX_MEMORY_RUNS" using fits by linarith+
    have diff: "frames_of ?as - frames_of (descriptor_runs False ds) - frames_of (map mx_range xs) = frames_of ?as - frames_of ?es"
      unfolding frames_of_simps(3) by blast
    show ?thesis unfolding if_not_P [OF False] eq diff lens [symmetric] by (rule cut_runs [OF ok lengths])
  qed
qed

definition normalize_demo_map :: memory_map where
  "normalize_demo_map = [\<lparr>md_physical_start = 0x1000, md_pages = 5, md_available = True\<rparr>,
     \<lparr>md_physical_start = 0x2000, md_pages = 1, md_available = False\<rparr>]"

definition normalize_demo_exclusion :: memory_exclusion where
  "normalize_demo_exclusion = \<lparr>mx_range = \<lparr>pr_start = 0x4000, pr_pages = 1\<rparr>, mx_kind = ExKernel\<rparr>"

theorem normalize_exact_witness:
  "\<exists>n. normalize_memory_map normalize_demo_map [normalize_demo_exclusion] = Ok n \<and> frames_of (nm_runs n) = {1, 3, 5}"
proof -
  have made: "memory_exclusion_new 0x4000 1 ExKernel = Some normalize_demo_exclusion"
    by (simp add: memory_exclusion_new_def physical_run_new_def checked_mul_def checked_add_def normalize_demo_exclusion_def)
  have valid: "\<not> (\<exists>d \<in> set normalize_demo_map. run_from_descriptor d = None)"
    by (simp add: normalize_demo_map_def run_from_descriptor_def physical_run_new_def checked_mul_def checked_add_def)
  have frames: "frames_of (descriptor_runs True normalize_demo_map) - frames_of (descriptor_runs False normalize_demo_map)
      - frames_of (map mx_range [normalize_demo_exclusion]) = {1, 3, 5}"
    by (auto simp: normalize_demo_map_def normalize_demo_exclusion_def run_lo_def run_hi_def)
  have small: "\<not> MAX_MEMORY_RUNS < length normalize_demo_map + length [normalize_demo_exclusion]" by (simp add: normalize_demo_map_def)
  have hyp: "\<forall>x \<in> set [normalize_demo_exclusion]. \<exists>start pages kind. memory_exclusion_new start pages kind = Some x"
    using made by auto
  show ?thesis
    using normalize_exact [OF hyp, of normalize_demo_map] small unfolding if_not_P [OF valid] frames by blast
qed

end
