(* ===== verification/Spec2Isabelle.thy ===== *)
theory Spec2Isabelle
  imports Runtime_Operations Health_Service Wall_Time Live_Supervisor Program_Manager Service_Queries
    Directory_Listings Event_Entry Memory_Map
begin

text \<open>
  LogOS: a verification library for the kernel core of the operating system.

  \<^bold>\<open>Parts of the program.\<close> The kernel (\<open>src/src\<close>) keeps tables of slots with generations and
  hands out handles that name a slot and a generation. The process table owns the address spaces
  and admits ELF images. The service registry holds the dynamic services and their dependency
  graph; the live supervisor watches their heartbeats and decides on restarts; the program manager
  runs up to eight programs on request. The operation runtime, the service lifecycle and the
  health service track requests in flight. Services exchange messages through endpoints whose
  queues are private to the kernel. A send raises an event, an event wakes the event sets that wait
  for it, and a set wakes the tasks that the scheduler keeps registered for it. At boot the memory
  map of the firmware is reduced to runs of usable frames. The ABI crate (\<open>src/abi/src\<close>) defines the
  wire types that the kernel and the services exchange.

  \<^bold>\<open>Theories and sources.\<close>
  \<^item> \<open>LogOS_Prelude\<close>: Rust integers as words, results as sums, slices, checked and saturating
    arithmetic. A panic is the value \<open>Panicked\<close> of type \<open>'e fault\<close>.
  \<^item> \<open>Generations\<close>: the locale \<open>generation_slots\<close>, the contract of a slot table, and its
    consequence that a retired handle stays dead for all but one full cycle of generations. It is
    interpreted on the operation runtime, the lifecycle, address spaces, processes, programs,
    services and tasks.
  \<^item> \<open>Slot_Table\<close>: the growable tables \<open>Vec<Slot<T>>\<close> of the event and message registries, and the
    locale \<open>slot_system\<close> of a system that keeps one. It gives the contract of \<open>Generations\<close> and is
    interpreted on events, event sets, endpoints and capabilities.
  \<^item> \<open>Mailbox\<close>: the locale \<open>mailbox\<close>, one command and one response slot, interpreted on the
    operation runtime and the health service.
  \<^item> \<open>Runtime_Operations\<close> (\<open>src/runtime.rs\<close>): every method of \<open>Runtime\<close>; the two operation slots
    refine a finite map of handles.
  \<^item> \<open>Service_Lifecycle\<close> (\<open>src/service_lifecycle.rs\<close>) and \<open>Health_Service\<close> (\<open>src/health.rs\<close>):
    which requests a restart ends, and that a request completes exactly while it is in flight.
  \<^item> \<open>Wall_Time\<close> (\<open>abi/src/walltime.rs\<close>): clock registers, packing, calendar arithmetic.
  \<^item> \<open>Runtime_ABI\<close> (\<open>abi/src/runtime_abi.rs\<close>): handles, event, directory and bootstrap pages.
  \<^item> \<open>Address_Space\<close>, \<open>Elf_Plan\<close>, \<open>Process_Table\<close> (\<open>src/process.rs\<close>): mappings as a partial
    translation function, the ELF parser through an abstract reader (locale \<open>image_reader\<close>), and
    the ownership of address spaces by processes.
  \<^item> \<open>Live_Supervisor\<close> (\<open>src/supervisor.rs\<close>): what a poll detects, and when the restart cap holds.
  \<^item> \<open>Package_IPC\<close> (\<open>abi/src/package_ipc.rs\<close>), \<open>Manager_ABI\<close> (\<open>abi/src/service_manager.rs\<close>) and
    \<open>Program_Manager\<close> (\<open>src/service_manager.rs\<close>): package requests, manager wire types, and the
    program slots with their authority checks.
  \<^item> \<open>Service_Registry\<close>, \<open>Service_Graph\<close>, \<open>Service_Queries\<close> (\<open>src/runtime_services.rs\<close>): the
    service table, its start order and restart closure, and the listings.
  \<^item> \<open>Runtime_Events\<close>, \<open>Event_Runs\<close>, \<open>Event_Properties\<close> (\<open>src/runtime_events.rs\<close>): events, event sets
    and hardware lines; the outcome of a wait, that a signal stays latched until it is delivered,
    and what the end of a service removes. The log \<open>er_woken\<close> holds the sets that were woken.
  \<^item> \<open>Scheduler\<close>, \<open>Scheduler_Steps\<close>, \<open>Scheduler_Properties\<close>, \<open>Scheduler_Races\<close> (\<open>src/scheduler.rs\<close>):
    the task words and the processor records; that a claim is exclusive and fair; and, with other
    processors interfering, that the end of a turn returns and keeps a wake-up.
  \<^item> \<open>Runtime_IPC\<close>, \<open>IPC_Queues\<close>, \<open>IPC_Runs\<close>, \<open>IPC_Properties\<close> (\<open>src/runtime_ipc.rs\<close>): endpoints,
    capabilities and rings of messages over an explicit memory. A ring refines a list of messages,
    and every trace of sends and receives on an endpoint is first in, first out.
  \<^item> \<open>Directory_Pages\<close>, \<open>Directory_Listings\<close>: the paging loop that the listings of
    \<open>src/runtime_events.rs\<close> and \<open>src/runtime_ipc.rs\<close> share, and that a client who follows the cursors
    sees every object once.
  \<^item> \<open>Event_Calls\<close>, \<open>Event_Wakeups\<close>, \<open>Event_Entry\<close> (\<open>event_call\<close> and its helpers in
    \<open>src/service_runtime.rs\<close>, and \<open>src/arch.rs\<close>): the handler of event calls, where the event tables,
    the scheduler, the service registry and the memory meet. A call is confined to its caller, a
    task does not sleep on an event that has happened, and a message wakes its consumer.
  \<^item> \<open>Memory_Map\<close> (\<open>src/boot_resources.rs\<close>, \<open>normalize_memory_map\<close> in \<open>src/memory.rs\<close>): the result is
    exactly the usable frames, as separated runs.

  \<^bold>\<open>State and operations.\<close> A struct is a record, an enum a datatype, and a method a function that
  returns its result together with the new state. Each table has an invariant, lemmas that every
  operation keeps it, an inductive step relation over all operations that change it, and
  properties of the states that the steps reach. Steps of the message registry include those of
  the event registry, and the runs of \<open>Event_Wakeups\<close> interleave event and scheduler operations.

  \<^bold>\<open>Interference.\<close> The scheduler is shared between processors without a lock. Its operations take
  an interference, a function that is applied to the state before each atomic access of their
  loops, and the theorems of \<open>Scheduler_Races\<close> hold for every interference that consists of other
  operations. The step relation of \<open>Scheduler_Steps\<close> runs one operation at a time. The other tables
  are reached through exclusive references; the exception is an interrupt that raises an event
  while a wait is prepared, and \<open>Event_Calls\<close> takes the interrupts that arrive as arguments.

  \<^bold>\<open>Bounds.\<close> No model uses fuel. Loops are structural recursion or functions with a termination
  proof, except the retry loops of the scheduler, which are partial functions; that the end of a turn
  and the wake-up of a task return is proved for every interference of the others. The walks of a client over directory pages and
  manager lists take a number of requests, and their theorems say how many are enough. A registry
  step registers only below \<open>2 ^ 32\<close> slots, where the conversion of a slot index to 32 bits is exact.
  The outcome of \<open>Vec::try_reserve\<close> is a parameter; allocation that aborts on exhaustion is taken to
  succeed. The frames of a message queue are apart from each other and from those of other queues,
  which the frame pool guarantees.

  \<^bold>\<open>What modelling showed.\<close> The restart cap is lost when a graph restart registers new handles; the
  manager's list skips services behind a vacant slot; the package validation accepts service
  number 0 as Input; and the response check of the manager slices a name before checking its
  length. A hardware line remembers one wait set, so that a second one displaces the first; the
  timer can erase a wait that a task registers while it is being woken; and the teardown of an
  endpoint that fails for lack of memory has already destroyed its events. Each is a theorem.

  \<^bold>\<open>Not modelled.\<close> The frame manager of \<open>src/memory.rs\<close> with its caches, quotas and heap, and the
  page tables and the loader built on it: they work on metadata in raw memory. The calls of
  the service runtime other than \<open>event_call\<close>. The saved register images of the scheduler. The
  storage, network, package and program crates, and most other wire types of the ABI are not
  translated. The rest of the architecture layer, the device drivers and the proof instrumentation
  are assembly, volatile memory or emulator markers. The services, the user interface crates and
  the host tools lie above the kernel core.
\<close>

end
